(* ===== verification/Prelude.thy ===== *)
theory Prelude
  imports Main "HOL-Library.Word" "HOL-Library.AList"
begin

text \<open>
  Shared vocabulary of the development: the integer types of the Rust sources, checked
  arithmetic, indexed access to sequences, hash maps, results and a generic rule for
  invariants of transition systems.

  Identifiers, tags and version numbers keep their width (\<open>u64\<close>, \<open>u32\<close>,
  \<open>i64\<close> are words).  A \<open>usize\<close> is a natural number; where the source uses a checked
  operation on it the bound \<open>2 ^ 64\<close> is written out.  A standard-library \<open>HashMap\<close> is an
  association list with distinct keys: its order stands for the (unspecified) iteration order,
  its length for \<open>len\<close>.
\<close>

section \<open>Integers\<close>

type_synonym u8 = "8 word"
type_synonym u32 = "32 word"
type_synonym u64 = "64 word"
type_synonym i64 = "64 word"
type_synonym usize = nat

named_theorems checked_simps
named_theorems hmap_simps
named_theorems result_simps
named_theorems seq_simps

text \<open>\<open>checked_add(1)\<close> on an unsigned word, as used by the identifier allocators.\<close>

definition checked_succ :: "'w::len word \<Rightarrow> 'w word option" where
  "checked_succ x = (if x = - 1 then None else Some (x + 1))"

definition usize_max :: usize where
  "usize_max = 2 ^ 64 - 1"

definition checked_add_usize :: "usize \<Rightarrow> usize \<Rightarrow> usize option" where
  "checked_add_usize a b = (if a + b \<le> usize_max then Some (a + b) else None)"

definition checked_mul_usize :: "usize \<Rightarrow> usize \<Rightarrow> usize option" where
  "checked_mul_usize a b = (if a * b \<le> usize_max then Some (a * b) else None)"

definition checked_sub_usize :: "usize \<Rightarrow> usize \<Rightarrow> usize option" where
  "checked_sub_usize a b = (if b \<le> a then Some (a - b) else None)"

lemma checked_succ_Some [checked_simps]:
  "checked_succ x = Some y \<longleftrightarrow> x \<noteq> - 1 \<and> y = x + 1"
  by (auto simp: checked_succ_def)

lemma checked_succ_None [checked_simps]: "checked_succ x = None \<longleftrightarrow> x = - 1"
  by (simp add: checked_succ_def)

lemma unat_succ: "x \<noteq> - 1 \<Longrightarrow> unat (x + 1) = Suc (unat x)"
  for x :: "'w::len word"
  by (metis add.commute add_eq_0_iff unatSuc)

lemma less_succ_word: "k < x \<Longrightarrow> x \<noteq> - 1 \<Longrightarrow> k < x + 1"
  for x :: "'w::len word"
  by (simp add: word_less_nat_alt unat_succ)

lemma self_less_succ_word: "x \<noteq> - 1 \<Longrightarrow> x < x + 1"
  for x :: "'w::len word"
  by (simp add: word_less_nat_alt unat_succ)

lemma le_less_succ_word: "x \<noteq> - 1 \<Longrightarrow> y \<le> x \<Longrightarrow> y < x + 1"
  for x y :: "'w::len word"
  by (simp add: word_less_nat_alt word_le_nat_alt unat_succ)

lemma checked_add_usize_Some [checked_simps]:
  "checked_add_usize a b = Some c \<longleftrightarrow> a + b \<le> usize_max \<and> c = a + b"
  by (auto simp: checked_add_usize_def)

lemma checked_mul_usize_Some [checked_simps]:
  "checked_mul_usize a b = Some c \<longleftrightarrow> a * b \<le> usize_max \<and> c = a * b"
  by (auto simp: checked_mul_usize_def)

lemma checked_sub_usize_Some [checked_simps]:
  "checked_sub_usize a b = Some c \<longleftrightarrow> b \<le> a \<and> c = a - b"
  by (auto simp: checked_sub_usize_def)

section \<open>Sequences\<close>

text \<open>\<open>Iterator::position\<close>.\<close>

fun position :: "('a \<Rightarrow> bool) \<Rightarrow> 'a list \<Rightarrow> usize option" where
  "position p [] = None"
| "position p (x # xs) = (if p x then Some 0 else map_option Suc (position p xs))"

text \<open>\<open>VecDeque::insert\<close> and \<open>VecDeque::remove\<close> inside the bounds.\<close>

definition insert_at :: "usize \<Rightarrow> 'a \<Rightarrow> 'a list \<Rightarrow> 'a list" where
  "insert_at i x xs = take i xs @ x # drop i xs"

definition remove_at :: "usize \<Rightarrow> 'a list \<Rightarrow> 'a list" where
  "remove_at i xs = take i xs @ drop (Suc i) xs"

lemma position_None [seq_simps]: "position p xs = None \<longleftrightarrow> (\<forall>x \<in> set xs. \<not> p x)"
  by (induction xs) auto

lemma position_SomeD:
  "position p xs = Some i \<Longrightarrow> i < length xs \<and> p (xs ! i) \<and> (\<forall>x \<in> set (take i xs). \<not> p x)"
  by (induction xs arbitrary: i) (auto split: if_splits)

lemma position_True: "position (\<lambda>_. True) xs = (if xs = [] then None else Some 0)"
  by (cases xs) auto

lemma position_append:
  "position p (xs @ ys) =
     (case position p xs of Some i \<Rightarrow> Some i
      | None \<Rightarrow> map_option (\<lambda>i. length xs + i) (position p ys))"
  by (induction xs; cases "position p ys") (auto split: option.splits)

lemma length_insert_at [simp]: "length (insert_at i x xs) = Suc (length xs)"
  by (simp add: insert_at_def)

lemma length_remove_at [simp]: "i < length xs \<Longrightarrow> Suc (length (remove_at i xs)) = length xs"
  by (simp add: remove_at_def)

lemma insert_at_length [simp]: "insert_at (length xs) x xs = xs @ [x]"
  by (simp add: insert_at_def)

lemma insert_at_snoc: "i \<le> length xs \<Longrightarrow> insert_at i x (xs @ [y]) = insert_at i x xs @ [y]"
  by (simp add: insert_at_def)

lemma remove_at_insert_at [simp]: "i \<le> length xs \<Longrightarrow> remove_at i (insert_at i x xs) = xs"
  by (simp add: insert_at_def remove_at_def)

lemma nth_insert_at [simp]: "i \<le> length xs \<Longrightarrow> insert_at i x xs ! i = x"
  by (simp add: insert_at_def nth_append)

lemma take_insert_at [simp]: "i \<le> length xs \<Longrightarrow> take i (insert_at i x xs) = take i xs"
  by (simp add: insert_at_def)

lemma set_insert_at [simp]: "set (insert_at i x xs) = insert x (set xs)"
  by (simp add: insert_at_def) (metis append_take_drop_id set_append)

lemma remove_at_0 [simp]: "remove_at 0 (x # xs) = xs"
  by (simp add: remove_at_def)

lemma map_remove_at: "map f (remove_at i xs) = remove_at i (map f xs)"
  by (simp add: remove_at_def take_map drop_map)

lemma map_insert_at: "map f (insert_at i x xs) = insert_at i (f x) (map f xs)"
  by (simp add: insert_at_def take_map drop_map)

lemma set_remove_at_subset: "set (remove_at i xs) \<subseteq> set xs"
  by (auto simp: remove_at_def dest: in_set_takeD in_set_dropD)

section \<open>Hash maps\<close>

type_synonym ('k, 'v) hmap = "('k \<times> 'v) list"

abbreviation hm_get :: "('k, 'v) hmap \<Rightarrow> 'k \<Rightarrow> 'v option" where
  "hm_get \<equiv> map_of"

definition hm_insert :: "'k \<Rightarrow> 'v \<Rightarrow> ('k, 'v) hmap \<Rightarrow> ('k, 'v) hmap" where
  "hm_insert k v m = AList.update k v m"

definition hm_remove :: "'k \<Rightarrow> ('k, 'v) hmap \<Rightarrow> ('k, 'v) hmap" where
  "hm_remove k m = AList.delete k m"

definition hm_wf :: "('k, 'v) hmap \<Rightarrow> bool" where
  "hm_wf m \<longleftrightarrow> distinct (map fst m)"

definition hm_keys :: "('k, 'v) hmap \<Rightarrow> 'k set" where
  "hm_keys m = set (map fst m)"

lemma hm_get_insert [hmap_simps]: "hm_get (hm_insert k v m) = (hm_get m)(k \<mapsto> v)"
  by (simp add: hm_insert_def AList.update_conv')

lemma hm_get_remove [hmap_simps]: "hm_get (hm_remove k m) = (hm_get m)(k := None)"
  by (simp add: hm_remove_def AList.delete_conv')

lemma hm_wf_Nil [simp, hmap_simps]: "hm_wf []"
  by (simp add: hm_wf_def)

lemma hm_wf_insert [simp, intro, hmap_simps]: "hm_wf m \<Longrightarrow> hm_wf (hm_insert k v m)"
  by (simp add: hm_wf_def hm_insert_def AList.distinct_update)

lemma hm_wf_remove [simp, intro, hmap_simps]: "hm_wf m \<Longrightarrow> hm_wf (hm_remove k m)"
  by (simp add: hm_wf_def hm_remove_def AList.distinct_delete)

lemma hm_keys_insert [hmap_simps]: "hm_keys (hm_insert k v m) = insert k (hm_keys m)"
  by (simp add: hm_keys_def hm_insert_def AList.dom_update)

lemma hm_keys_remove [hmap_simps]: "hm_keys (hm_remove k m) = hm_keys m - {k}"
  by (auto simp: hm_keys_def hm_remove_def AList.delete_eq)

lemma hm_keys_Nil [simp, hmap_simps]: "hm_keys [] = {}"
  by (simp add: hm_keys_def)

lemma hm_get_None [hmap_simps]: "hm_get m k = None \<longleftrightarrow> k \<notin> hm_keys m"
  by (simp add: hm_keys_def map_of_eq_None_iff)

lemma hm_get_SomeD: "hm_get m k = Some v \<Longrightarrow> k \<in> hm_keys m"
  by (metis hm_get_None option.distinct(1))

lemma hm_keysE: "k \<in> hm_keys m \<Longrightarrow> (\<And>v. hm_get m k = Some v \<Longrightarrow> thesis) \<Longrightarrow> thesis"
  by (metis hm_get_None option.exhaust)

lemma hm_get_mem: "hm_wf m \<Longrightarrow> hm_get m k = Some v \<longleftrightarrow> (k, v) \<in> set m"
  by (simp add: hm_wf_def)

lemma length_update_absent: "k \<notin> fst ` set m \<Longrightarrow> length (AList.update k v m) = Suc (length m)"
  by (induction m) auto

lemma length_update_present: "k \<in> fst ` set m \<Longrightarrow> length (AList.update k v m) = length m"
proof (induction m)
  case (Cons a m)
  then show ?case by (cases a) auto
qed simp

lemma hm_len_insert [hmap_simps]:
  "length (hm_insert k v m) = (if hm_get m k = None then Suc (length m) else length m)"
  by (simp add: hm_insert_def length_update_absent length_update_present map_of_eq_None_iff)

lemma length_delete_present:
  "distinct (map fst m) \<Longrightarrow> k \<in> fst ` set m \<Longrightarrow> Suc (length (AList.delete k m)) = length m"
proof (induction m)
  case (Cons a m)
  then show ?case by (cases a) (auto simp: image_iff)
qed simp

lemma hm_len_remove [hmap_simps]:
  "hm_wf m \<Longrightarrow> hm_get m k = Some v \<Longrightarrow> Suc (length (hm_remove k m)) = length m"
  unfolding hm_remove_def hm_wf_def
  by (rule length_delete_present) (force dest: map_of_SomeD)+

lemma hm_remove_absent [hmap_simps]: "hm_get m k = None \<Longrightarrow> hm_remove k m = m"
  by (simp add: hm_remove_def map_of_eq_None_iff)

lemma hm_insert_insert [simp]: "hm_insert k y (hm_insert k x m) = hm_insert k y m"
  by (simp add: hm_insert_def)

lemma hm_remove_insert: "hm_wf m \<Longrightarrow> hm_remove k (hm_insert k x m) = hm_remove k m"
  unfolding hm_remove_def hm_insert_def hm_wf_def by (induction m) (auto simp: AList.delete_eq)

section \<open>Invariants of transition systems\<close>

inductive reachable :: "('s \<Rightarrow> bool) \<Rightarrow> ('s \<Rightarrow> 's \<Rightarrow> bool) \<Rightarrow> 's \<Rightarrow> bool"
  for start :: "'s \<Rightarrow> bool" and step :: "'s \<Rightarrow> 's \<Rightarrow> bool" where
  reach_start: "start s \<Longrightarrow> reachable start step s"
| reach_step: "reachable start step s \<Longrightarrow> step s t \<Longrightarrow> reachable start step t"

text \<open>
  The contract of an inductive invariant: it holds at the start and every step keeps it.  Each
  component's machine is an instance; what is concluded about its runs is proved once, here.
\<close>

locale inductive_invariant =
  fixes start :: "'s \<Rightarrow> bool"
    and step :: "'s \<Rightarrow> 's \<Rightarrow> bool"
    and inv :: "'s \<Rightarrow> bool"
  assumes inv_start: "start s \<Longrightarrow> inv s"
    and inv_step: "inv s \<Longrightarrow> step s t \<Longrightarrow> inv t"
begin

lemma reachable_inv: "reachable start step s \<Longrightarrow> inv s"
  by (induction rule: reachable.induct) (auto intro: inv_start inv_step)

lemma reachable_from_inv: "reachable ((=) s0) step s \<Longrightarrow> inv s0 \<Longrightarrow> inv s"
  by (induction rule: reachable.induct) (auto intro: inv_step)

end

lemma hm_insert_subset: "set (hm_insert k v m) \<subseteq> insert (k, v) (set m)"
  unfolding hm_insert_def by (induction m) auto

lemma hm_remove_subset: "set (hm_remove k m) \<subseteq> set m"
  by (auto simp: hm_remove_def AList.delete_eq)

text \<open>Total weight of the keys of a map, for byte accounting.\<close>

definition hm_weight :: "('k \<Rightarrow> nat) \<Rightarrow> ('k, 'v) hmap \<Rightarrow> nat" where
  "hm_weight f m = sum_list (map (\<lambda>e. f (fst e)) m)"

lemma hm_weight_Nil [simp]: "hm_weight f [] = 0"
  by (simp add: hm_weight_def)

lemma weight_update:
  "sum_list (map (\<lambda>e. f (fst e)) (AList.update k v m)) =
     (if k \<in> fst ` set m then 0 else f k) + sum_list (map (\<lambda>e. f (fst e)) m)"
  for f :: "'k \<Rightarrow> nat"
  by (induction m) auto

lemma hm_weight_insert [hmap_simps]:
  "hm_weight f (hm_insert k v m) = (if k \<in> hm_keys m then hm_weight f m else f k + hm_weight f m)"
  by (simp add: hm_weight_def hm_insert_def weight_update hm_keys_def)

lemma weight_delete_absent: "k \<notin> fst ` set m \<Longrightarrow> AList.delete k m = m"
  by (induction m) auto

lemma weight_delete:
  "distinct (map fst m) \<Longrightarrow> k \<in> fst ` set m \<Longrightarrow>
     f k + sum_list (map (\<lambda>e. f (fst e)) (AList.delete k m)) = sum_list (map (\<lambda>e. f (fst e)) m)"
  for f :: "'k \<Rightarrow> nat"
proof (induction m)
  case (Cons a m)
  then show ?case
    by (cases a) (auto simp: weight_delete_absent image_iff)
qed simp

lemma hm_weight_remove:
  "hm_wf m \<Longrightarrow> k \<in> hm_keys m \<Longrightarrow> f k + hm_weight f (hm_remove k m) = hm_weight f m"
  by (simp add: hm_weight_def hm_remove_def weight_delete hm_wf_def hm_keys_def)

text \<open>Total weight of the values of a map.\<close>

definition hm_total :: "('v \<Rightarrow> nat) \<Rightarrow> ('k, 'v) hmap \<Rightarrow> nat" where
  "hm_total f m = sum_list (map (\<lambda>e. f (snd e)) m)"

lemma hm_total_Nil [simp]: "hm_total f [] = 0"
  by (simp add: hm_total_def)

lemma hm_total_insert_absent:
  "k \<notin> hm_keys m \<Longrightarrow> hm_total f (hm_insert k v m) = f v + hm_total f m"
  unfolding hm_total_def hm_keys_def hm_insert_def by (induction m) auto

lemma hm_total_insert_present:
  "hm_get m k = Some w \<Longrightarrow> hm_total f (hm_insert k v m) + f w = f v + hm_total f m"
  unfolding hm_total_def hm_insert_def by (induction m) (auto split: if_splits)

lemma total_delete_absent: "k \<notin> fst ` set m \<Longrightarrow> AList.delete k m = m"
  by (induction m) auto

lemma hm_total_remove:
  "hm_wf m \<Longrightarrow> hm_get m k = Some w \<Longrightarrow> f w + hm_total f (hm_remove k m) = hm_total f m"
  unfolding hm_total_def hm_remove_def hm_wf_def
  by (induction m) (auto simp: total_delete_absent split: if_splits)

lemma hm_total_member: "hm_get m k = Some w \<Longrightarrow> f w \<le> hm_total f m"
  unfolding hm_total_def by (induction m) (auto split: if_splits)

section \<open>Fallible code\<close>

text \<open>The \<open>?\<close> operator and \<open>ok_or\<close> on results, which are sums with the error on the left.\<close>

definition and_then :: "'e + 'a \<Rightarrow> ('a \<Rightarrow> 'e + 'b) \<Rightarrow> 'e + 'b" where
  "and_then r f = (case r of Inl e \<Rightarrow> Inl e | Inr x \<Rightarrow> f x)"

definition ok_or :: "'e \<Rightarrow> 'a option \<Rightarrow> 'e + 'a" where
  "ok_or e r = (case r of None \<Rightarrow> Inl e | Some x \<Rightarrow> Inr x)"

definition ensure :: "bool \<Rightarrow> 'e \<Rightarrow> 'e + unit" where
  "ensure b e = (if b then Inr () else Inl e)"

lemma and_then_Inr [result_simps]: "and_then r f = Inr y \<longleftrightarrow> (\<exists>x. r = Inr x \<and> f x = Inr y)"
  by (cases r) (auto simp: and_then_def)

lemma and_then_Inl [result_simps]: "and_then r f = Inl e \<longleftrightarrow> r = Inl e \<or> (\<exists>x. r = Inr x \<and> f x = Inl e)"
  by (cases r) (auto simp: and_then_def)

lemma ok_or_simps [result_simps]:
  "ok_or e r = Inr x \<longleftrightarrow> r = Some x" "ok_or e r = Inl e' \<longleftrightarrow> r = None \<and> e' = e"
  by (auto simp: ok_or_def split: option.splits)

lemma ensure_simps [result_simps]:
  "ensure b e = Inr u \<longleftrightarrow> b" "ensure b e = Inl e' \<longleftrightarrow> \<not> b \<and> e' = e"
  by (auto simp: ensure_def)

lemma and_then_simps [simp]: "and_then (Inr x) f = f x" "and_then (Inl e) f = Inl e"
  by (simp_all add: and_then_def)

section \<open>Running operations, and simulation of one machine by another\<close>

fun run_ops :: "('op \<Rightarrow> 's \<Rightarrow> 'o \<times> 's) \<Rightarrow> 'op list \<Rightarrow> 's \<Rightarrow> 'o list \<times> 's" where
  "run_ops step [] s = ([], s)"
| "run_ops step (op # ops) s =
     (case step op s of (ob, s') \<Rightarrow> case run_ops step ops s' of (obs, s'') \<Rightarrow> (ob # obs, s''))"

fun run_allowed :: "('op \<Rightarrow> 's \<Rightarrow> bool) \<Rightarrow> ('op \<Rightarrow> 's \<Rightarrow> 'o \<times> 's) \<Rightarrow> 'op list \<Rightarrow> 's \<Rightarrow> bool" where
  "run_allowed ok step [] s = True"
| "run_allowed ok step (op # ops) s = (ok op s \<and> run_allowed ok step ops (snd (step op s)))"

text \<open>
  A concrete machine implements an abstract one: related states give equal observations and stay
  related, for the operations the abstract state allows.
\<close>

locale simulation =
  fixes cstep :: "'op \<Rightarrow> 'c \<Rightarrow> 'o \<times> 'c" and astep :: "'op \<Rightarrow> 'a \<Rightarrow> 'o \<times> 'a"
    and ok :: "'op \<Rightarrow> 'a \<Rightarrow> bool" and rel :: "'c \<Rightarrow> 'a \<Rightarrow> bool"
  assumes sim: "rel c a \<Longrightarrow> ok op a \<Longrightarrow>
      fst (cstep op c) = fst (astep op a) \<and> rel (snd (cstep op c)) (snd (astep op a))"
begin

lemma run_sim:
  "rel c a \<Longrightarrow> run_allowed ok astep ops a \<Longrightarrow>
     fst (run_ops cstep ops c) = fst (run_ops astep ops a) \<and>
     rel (snd (run_ops cstep ops c)) (snd (run_ops astep ops a))"
proof (induction ops arbitrary: c a)
  case (Cons op ops)
  then show ?case
    using sim[of c a op] Cons.IH[of "snd (cstep op c)" "snd (astep op a)"]
    by (auto simp: case_prod_beta)
qed simp

end

end
