(* ===== verification/Hash_Map_Id.thy ===== *)
theory Hash_Map_Id
  imports Prelude
begin

text \<open>
  Crate \<open>hash-map-id\<close>: a hash map whose keys are handed out by an incrementing \<open>u64\<close> seed.
  It backs every resource table of a process (configurations, modules, sockets, errors), so
  the contract its clients rely on is stated as the locale \<open>resource_table\<close>: an identifier names
  the same item until it is removed, whatever else is added or removed.
\<close>

section \<open>The contract of a resource table\<close>

datatype 't table_op = TAdd 't | TRemove u64

fun table_run ::
  "('t \<Rightarrow> 's \<Rightarrow> (u64 \<times> 's) option) \<Rightarrow> (u64 \<Rightarrow> 's \<Rightarrow> 't option \<times> 's) \<Rightarrow> 't table_op list \<Rightarrow> 's \<Rightarrow> 's option" where
  "table_run add rem [] s = Some s"
| "table_run add rem (TAdd x # ops) s =
     (case add x s of None \<Rightarrow> None | Some (_, s') \<Rightarrow> table_run add rem ops s')"
| "table_run add rem (TRemove i # ops) s = table_run add rem ops (snd (rem i s))"

locale resource_table =
  fixes tadd :: "'t \<Rightarrow> 's \<Rightarrow> (u64 \<times> 's) option"
    and tremove :: "u64 \<Rightarrow> 's \<Rightarrow> 't option \<times> 's"
    and tget :: "'s \<Rightarrow> u64 \<Rightarrow> 't option"
    and tinv :: "'s \<Rightarrow> bool"
  assumes tadd_fresh: "tinv s \<Longrightarrow> tadd x s = Some (i, s') \<Longrightarrow> tget s i = None"
    and tget_tadd: "tinv s \<Longrightarrow> tadd x s = Some (i, s') \<Longrightarrow> tget s' = (tget s)(i \<mapsto> x)"
    and tremove_result: "tinv s \<Longrightarrow> tremove i s = (r, s') \<Longrightarrow> r = tget s i"
    and tget_tremove: "tinv s \<Longrightarrow> tremove i s = (r, s') \<Longrightarrow> tget s' = (tget s)(i := None)"
    and tinv_tadd: "tinv s \<Longrightarrow> tadd x s = Some (i, s') \<Longrightarrow> tinv s'"
    and tinv_tremove: "tinv s \<Longrightarrow> tremove i s = (r, s') \<Longrightarrow> tinv s'"
begin

text \<open>A live identifier is stable: only its own removal can change what it names.\<close>

lemma run_stable:
  "table_run tadd tremove ops s = Some s' \<Longrightarrow> tinv s \<Longrightarrow> tget s i = Some x \<Longrightarrow>
     TRemove i \<notin> set ops \<Longrightarrow> tinv s' \<and> tget s' i = Some x"
proof (induction ops arbitrary: s)
  case Nil
  then show ?case by simp
next
  case (Cons oper ops)
  show ?case
  proof (cases oper)
    case (TAdd y)
    with Cons.prems obtain j s1 where j: "tadd y s = Some (j, s1)"
      and r: "table_run tadd tremove ops s1 = Some s'"
      by (auto split: option.splits)
    have "tget s1 i = Some x"
      using Cons.prems tadd_fresh[OF \<open>tinv s\<close> j] tget_tadd[OF \<open>tinv s\<close> j] by auto
    with r show ?thesis
      using Cons.prems tinv_tadd[OF \<open>tinv s\<close> j] by (intro Cons.IH) auto
  next
    case (TRemove k)
    obtain r s1 where k: "tremove k s = (r, s1)" by (cases "tremove k s")
    have "tget s1 i = Some x"
      using Cons.prems TRemove tget_tremove[OF \<open>tinv s\<close> k] by auto
    then show ?thesis
      using Cons.prems TRemove k tinv_tremove[OF \<open>tinv s\<close> k] by (intro Cons.IH[of s1]) auto
  qed
qed

end

section \<open>The implementation\<close>

record 't hash_map_id =
  id_seed :: u64
  store :: "(u64, 't) hmap"

definition hash_map_id_new :: "'t hash_map_id" where
  "hash_map_id_new = \<lparr>id_seed = 0, store = []\<rparr>"

text \<open>
  \<open>self.id_seed += 1\<close> panics in a build with overflow checks (the default debug profile) and wraps
  around in one without (the default release profile); \<open>None\<close> is the panic.
\<close>

definition hash_map_id_add ::
  "bool \<Rightarrow> 't \<Rightarrow> 't hash_map_id \<Rightarrow> (u64 \<times> 't hash_map_id) option" where
  "hash_map_id_add overflow_checks item h =
     (let i = id_seed h; h' = h\<lparr>store := hm_insert i item (store h)\<rparr>
      in if overflow_checks \<and> id_seed h' = - 1 then None
         else Some (i, h'\<lparr>id_seed := id_seed h' + 1\<rparr>))"

definition hash_map_id_remove :: "u64 \<Rightarrow> 't hash_map_id \<Rightarrow> 't option \<times> 't hash_map_id" where
  "hash_map_id_remove i h = (hm_get (store h) i, h\<lparr>store := hm_remove i (store h)\<rparr>)"

definition hash_map_id_get :: "'t hash_map_id \<Rightarrow> u64 \<Rightarrow> 't option" where
  "hash_map_id_get h i = hm_get (store h) i"

text \<open>\<open>get_mut\<close>: the item is replaced through the returned reference, if there is one.\<close>

definition hash_map_id_get_mut :: "('t \<Rightarrow> 't) \<Rightarrow> u64 \<Rightarrow> 't hash_map_id \<Rightarrow> 't hash_map_id" where
  "hash_map_id_get_mut f i h =
     (case hm_get (store h) i of None \<Rightarrow> h | Some x \<Rightarrow> h\<lparr>store := hm_insert i (f x) (store h)\<rparr>)"

definition hash_map_id_len :: "'t hash_map_id \<Rightarrow> usize" where
  "hash_map_id_len h = length (store h)"

definition hash_map_id_is_empty :: "'t hash_map_id \<Rightarrow> bool" where
  "hash_map_id_is_empty h \<longleftrightarrow> store h = []"

lemmas hash_map_id_defs = hash_map_id_new_def hash_map_id_add_def hash_map_id_remove_def
  hash_map_id_get_def hash_map_id_get_mut_def hash_map_id_len_def hash_map_id_is_empty_def

text \<open>The seed is above every key ever stored.\<close>

definition hash_map_id_inv :: "'t hash_map_id \<Rightarrow> bool" where
  "hash_map_id_inv h \<longleftrightarrow> hm_wf (store h) \<and> (\<forall>k \<in> hm_keys (store h). k < id_seed h)"

lemma hash_map_id_inv_new [simp]: "hash_map_id_inv hash_map_id_new"
  by (simp add: hash_map_id_inv_def hash_map_id_new_def)

lemma hash_map_id_add_inv:
  assumes "hash_map_id_inv h" "id_seed h \<noteq> - 1" "hash_map_id_add c x h = Some (i, h')"
  shows "hash_map_id_inv h'"
proof -
  have "k < id_seed h + 1" if "k \<in> hm_keys (store h)" for k
    using assms(1,2) that by (auto simp: hash_map_id_inv_def intro!: less_succ_word)
  then show ?thesis
    using assms by (auto simp: hash_map_id_inv_def hash_map_id_add_def Let_def hmap_simps
        self_less_succ_word)
qed

lemma hash_map_id_remove_inv:
  "hash_map_id_inv h \<Longrightarrow> hash_map_id_remove i h = (r, h') \<Longrightarrow> hash_map_id_inv h'"
  by (auto simp: hash_map_id_inv_def hash_map_id_remove_def hmap_simps)

lemma hash_map_id_seed_fresh: "hash_map_id_inv h \<Longrightarrow> hash_map_id_get h (id_seed h) = None"
  by (auto simp: hash_map_id_inv_def hash_map_id_get_def hmap_simps)

text \<open>With overflow checks the implementation satisfies the contract unconditionally.\<close>

interpretation hmi: resource_table "hash_map_id_add True" hash_map_id_remove hash_map_id_get
  hash_map_id_inv
proof
  fix s s' :: "'a hash_map_id" and x i
  assume inv: "hash_map_id_inv s" and add: "hash_map_id_add True x s = Some (i, s')"
  then have i: "i = id_seed s" and seed: "id_seed s \<noteq> - 1"
    by (auto simp: hash_map_id_add_def Let_def split: if_splits)
  show "hash_map_id_get s i = None" using inv i by (simp add: hash_map_id_seed_fresh)
  show "hash_map_id_get s' = (hash_map_id_get s)(i \<mapsto> x)"
    using add by (auto simp: hash_map_id_defs Let_def hmap_simps split: if_splits)
  show "hash_map_id_inv s'" using inv seed add by (rule hash_map_id_add_inv)
next
  fix s s' :: "'a hash_map_id" and r i
  assume inv: "hash_map_id_inv s" and rem: "hash_map_id_remove i s = (r, s')"
  then show "r = hash_map_id_get s i" "hash_map_id_get s' = (hash_map_id_get s)(i := None)"
    "hash_map_id_inv s'"
    by (auto simp: hash_map_id_defs hmap_simps intro: hash_map_id_remove_inv)
qed

text \<open>
  A build without overflow checks agrees with it up to the last identifier, where the seed wraps
  to 0 and the next addition may overwrite a live entry.
\<close>

lemma hash_map_id_add_unchecked:
  "id_seed h \<noteq> - 1 \<Longrightarrow> hash_map_id_add False x h = hash_map_id_add True x h"
  by (simp add: hash_map_id_add_def)



text \<open>
  C15.  In a build without overflow checks the seed wraps after the last identifier, and the second
  addition from there silently replaces a live entry with identifier 0.
\<close>

theorem hash_map_id_wrap_overwrites:
  assumes "id_seed h = - 1" "hash_map_id_get h 0 = Some x"
  shows "\<exists>h1 h2. hash_map_id_add False a h = Some (- 1, h1) \<and> hash_map_id_add False b h1 = Some (0, h2) \<and>
    hash_map_id_get h1 0 = Some x \<and> hash_map_id_get h2 0 = Some b"
  using assms by (simp add: hash_map_id_defs Let_def hmap_simps)

theorem hash_map_id_wrap_overwrites_witness:
  "\<exists>h1 h2. hash_map_id_add False 8 \<lparr>id_seed = - 1, store = [(0, 7::nat)]\<rparr> = Some (- 1, h1) \<and>
     hash_map_id_add False 9 h1 = Some (0, h2) \<and> hash_map_id_get h2 0 = Some 9"
  using hash_map_id_wrap_overwrites[of "\<lparr>id_seed = - 1, store = [(0, 7::nat)]\<rparr>" 7 8 9]
  by (auto simp: hash_map_id_get_def)

end
