(* ===== verification/Runtime_Contracts.thy ===== *)
theory Runtime_Contracts
  imports Prelude
begin

text \<open>
  What the sources rely on of code outside the repository, as operations the model takes as
  arguments and laws stated in locales: the owned permits of \<open>tokio::sync::Semaphore\<close>, the bounded
  \<open>tokio::sync::mpsc\<close> channel, and the capacity that \<open>Vec\<close> obtains from its allocator.  The laws are
  those of their documentation; each locale has an instance, so none is contradictory.
\<close>

section \<open>Semaphores\<close>

text \<open>
  \<open>Semaphore::new\<close>, \<open>try_acquire_owned\<close> (\<open>None\<close> is \<open>TryAcquireError::NoPermits\<close>), dropping an
  \<open>OwnedSemaphorePermit\<close>, and \<open>available_permits\<close>.
\<close>

record 's semaphore_ops =
  sem_new :: "usize \<Rightarrow> 's"
  sem_try_acquire :: "'s \<Rightarrow> 's option"
  sem_release :: "'s \<Rightarrow> 's"
  sem_available :: "'s \<Rightarrow> usize"

locale semaphore =
  fixes S :: "'s semaphore_ops"
  assumes available_new [simp]: "sem_available S (sem_new S n) = n"
    and acquire_None: "sem_try_acquire S s = None \<longleftrightarrow> sem_available S s = 0"
    and acquire_available: "sem_try_acquire S s = Some s' \<Longrightarrow> sem_available S s = Suc (sem_available S s')"
    and release_available [simp]: "sem_available S (sem_release S s) = Suc (sem_available S s)"
    and acquire_release [simp]: "sem_try_acquire S s = Some s' \<Longrightarrow> sem_release S s' = s"
begin

lemma acquire_Some: "0 < sem_available S s \<Longrightarrow> \<exists>s'. sem_try_acquire S s = Some s'"
  using acquire_None[of s] by (cases "sem_try_acquire S s") auto

text \<open>Dropping \<open>n\<close> permits.\<close>

lemma releases_available: "sem_available S ((sem_release S ^^ n) s) = sem_available S s + n"
  by (induction n) auto

end

definition counting_semaphore :: "usize semaphore_ops" where
  "counting_semaphore =
     \<lparr>sem_new = (\<lambda>n. n),
      sem_try_acquire = (\<lambda>s. if s = 0 then None else Some (s - 1)),
      sem_release = Suc,
      sem_available = (\<lambda>s. s)\<rparr>"

interpretation counting: semaphore counting_semaphore
  by unfold_locales (auto simp: counting_semaphore_def split: if_splits)

section \<open>Bounded channels\<close>

datatype 'e try_send_error = ChanFull 'e | ChanClosed 'e

text \<open>\<open>mpsc::channel\<close>, \<open>try_send\<close>, \<open>try_recv\<close>, \<open>Receiver::close\<close> and \<open>Sender::is_closed\<close>.\<close>

record ('q, 'e) channel_ops =
  ch_new :: "usize \<Rightarrow> 'q"
  ch_try_send :: "'q \<Rightarrow> 'e \<Rightarrow> 'e try_send_error + 'q"
  ch_try_recv :: "'q \<Rightarrow> ('e \<times> 'q) option"
  ch_close :: "'q \<Rightarrow> 'q"
  ch_is_closed :: "'q \<Rightarrow> bool"

text \<open>
  The documented behaviour, over the queued values (oldest first) and the bound given at creation:
  first-in first-out; a full channel refuses a value and gives it back; a closed one refuses every
  value and still yields what was queued.
\<close>

locale bounded_channel =
  fixes Q :: "('q, 'e) channel_ops"
    and queued :: "'q \<Rightarrow> 'e list"
    and bound :: "'q \<Rightarrow> usize"
  assumes queued_new [simp]: "queued (ch_new Q n) = []"
    and bound_new [simp]: "bound (ch_new Q n) = n"
    and closed_new [simp]: "\<not> ch_is_closed Q (ch_new Q n)"
    and send_closed [simp]: "ch_is_closed Q q \<Longrightarrow> ch_try_send Q q e = Inl (ChanClosed e)"
    and send_full [simp]:
      "\<not> ch_is_closed Q q \<Longrightarrow> bound q \<le> length (queued q) \<Longrightarrow> ch_try_send Q q e = Inl (ChanFull e)"
    and send_ok:
      "\<not> ch_is_closed Q q \<Longrightarrow> length (queued q) < bound q \<Longrightarrow>
         \<exists>q'. ch_try_send Q q e = Inr q' \<and> queued q' = queued q @ [e] \<and> bound q' = bound q \<and>
              \<not> ch_is_closed Q q'"
    and recv_empty [simp]: "queued q = [] \<Longrightarrow> ch_try_recv Q q = None"
    and recv_ok:
      "queued q = e # es \<Longrightarrow>
         \<exists>q'. ch_try_recv Q q = Some (e, q') \<and> queued q' = es \<and> bound q' = bound q \<and>
              ch_is_closed Q q' = ch_is_closed Q q"
    and queued_close [simp]: "queued (ch_close Q q) = queued q"
    and bound_close [simp]: "bound (ch_close Q q) = bound q"
    and closed_close [simp]: "ch_is_closed Q (ch_close Q q)"
begin

lemma send_cases:
  "(ch_is_closed Q q \<and> ch_try_send Q q e = Inl (ChanClosed e)) \<or>
   (\<not> ch_is_closed Q q \<and> bound q \<le> length (queued q) \<and> ch_try_send Q q e = Inl (ChanFull e)) \<or>
   (\<not> ch_is_closed Q q \<and> length (queued q) < bound q \<and>
     (\<exists>q'. ch_try_send Q q e = Inr q' \<and> queued q' = queued q @ [e] \<and> bound q' = bound q \<and>
           \<not> ch_is_closed Q q'))"
  by (cases "ch_is_closed Q q"; cases "length (queued q) < bound q")
    (auto simp: send_ok not_less)

lemma send_InrD:
  "ch_try_send Q q e = Inr q' \<Longrightarrow>
     \<not> ch_is_closed Q q \<and> length (queued q) < bound q \<and> queued q' = queued q @ [e] \<and>
     bound q' = bound q \<and> \<not> ch_is_closed Q q'"
  using send_cases[of q e] by auto

lemma recv_None_iff: "ch_try_recv Q q = None \<longleftrightarrow> queued q = []"
  by (cases "queued q") (auto dest: recv_ok)

lemma recv_SomeD:
  "ch_try_recv Q q = Some (e, q') \<Longrightarrow>
     queued q = e # queued q' \<and> bound q' = bound q \<and> ch_is_closed Q q' = ch_is_closed Q q"
  by (cases "queued q") (auto dest: recv_ok)

end

record 'e list_channel =
  lc_items :: "'e list"
  lc_bound :: usize
  lc_closed :: bool

definition list_channel_ops :: "('e list_channel, 'e) channel_ops" where
  "list_channel_ops =
     \<lparr>ch_new = (\<lambda>n. \<lparr>lc_items = [], lc_bound = n, lc_closed = False\<rparr>),
      ch_try_send = (\<lambda>q e. if lc_closed q then Inl (ChanClosed e)
                           else if lc_bound q \<le> length (lc_items q) then Inl (ChanFull e)
                           else Inr (q\<lparr>lc_items := lc_items q @ [e]\<rparr>)),
      ch_try_recv = (\<lambda>q. case lc_items q of [] \<Rightarrow> None | e # es \<Rightarrow> Some (e, q\<lparr>lc_items := es\<rparr>)),
      ch_close = (\<lambda>q. q\<lparr>lc_closed := True\<rparr>),
      ch_is_closed = lc_closed\<rparr>"

interpretation list_channel: bounded_channel list_channel_ops lc_items lc_bound
  by unfold_locales (auto simp: list_channel_ops_def)

section \<open>Allocation\<close>

text \<open>
  The capacity a \<open>Vec\<close> ends up with: \<open>with_capacity\<close> and \<open>reserve_exact\<close> give at least what was
  asked for, an amortised growth (from \<open>extend\<close> and \<open>push\<close>) at least what is needed.
\<close>

record alloc_ops =
  alloc_exact :: "usize \<Rightarrow> usize"
  alloc_grow :: "usize \<Rightarrow> usize \<Rightarrow> usize"

locale allocator =
  fixes A :: alloc_ops
  assumes alloc_exact_ge: "n \<le> alloc_exact A n"
    and alloc_grow_ge: "n \<le> alloc_grow A c n"

definition exact_alloc :: alloc_ops where
  "exact_alloc = \<lparr>alloc_exact = (\<lambda>n. n), alloc_grow = (\<lambda>c n. max (2 * c) n)\<rparr>"

interpretation exact: allocator exact_alloc
  by unfold_locales (auto simp: exact_alloc_def)

end
