(* ===== verification/Message.thy ===== *)
theory Message
  imports Runtime_Contracts
begin

text \<open>
  \<open>lunatic-process/src/message.rs\<close>: messages, their data buffers with a read cursor, and the
  resources attached to them.  A network resource carries a quota lease and is move-only.
\<close>

section \<open>Data\<close>

datatype death_reason = Normal | Failure | NoProcess

datatype resource_kind =
  KModule | KTcpStream | KUdpSocket | KTlsStream
| KLeasedTcpStream | KLeasedUdpSocket | KLeasedTlsStream
| KOther

text \<open>
  An \<open>Arc<dyn Any>\<close>: the dynamic type decides a downcast; \<open>res_shared\<close> says whether another
  strong reference to the same allocation exists (then \<open>Arc::try_unwrap\<close> fails).
\<close>

record resource =
  res_kind :: resource_kind
  res_id :: nat
  res_shared :: bool

text \<open>\<open>buffer_cap\<close> and \<open>resources_cap\<close> are \<open>Vec::capacity\<close> of the two vectors.\<close>

record data_message =
  msg_tag :: "i64 option"
  read_ptr :: usize
  buffer :: "u8 list"
  buffer_cap :: usize
  resources :: "resource option list"
  resources_cap :: usize

datatype message =
  Data data_message
| LinkDied "i64 option"
| ProcessDied u64 death_reason

section \<open>Operations of a message\<close>

fun message_tag :: "message \<Rightarrow> i64 option" where
  "message_tag (Data m) = msg_tag m"
| "message_tag (LinkDied t) = t"
| "message_tag (ProcessDied _ _) = None"

fun message_process_id :: "message \<Rightarrow> u64 option" where
  "message_process_id (Data _) = None"
| "message_process_id (LinkDied _) = None"
| "message_process_id (ProcessDied pid _) = Some pid"

fun message_death_reason :: "message \<Rightarrow> death_reason option" where
  "message_death_reason (ProcessDied _ r) = Some r"
| "message_death_reason _ = None"

section \<open>Operations of a data message\<close>

definition data_message_new :: "alloc_ops \<Rightarrow> i64 option \<Rightarrow> usize \<Rightarrow> data_message" where
  "data_message_new A t buffer_capacity =
     \<lparr>msg_tag = t, read_ptr = 0, buffer = [], buffer_cap = alloc_exact A buffer_capacity,
      resources = [], resources_cap = 0\<rparr>"

text \<open>The capacity of the given vector travels with it.\<close>

definition data_message_new_from_vec :: "i64 option \<Rightarrow> u8 list \<Rightarrow> usize \<Rightarrow> data_message" where
  "data_message_new_from_vec t buf cap =
     \<lparr>msg_tag = t, read_ptr = 0, buffer = buf, buffer_cap = cap, resources = [], resources_cap = 0\<rparr>"

definition add_resource :: "alloc_ops \<Rightarrow> resource \<Rightarrow> data_message \<Rightarrow> usize \<times> data_message" where
  "add_resource A r m =
     (let m1 = (if length (resources m) = resources_cap m
                then m\<lparr>resources_cap := alloc_exact A (length (resources m) + 1)\<rparr> else m);
          m2 = m1\<lparr>resources := resources m1 @ [Some r]\<rparr>
      in (length (resources m2) - 1, m2))"

definition take_downcast :: "resource_kind \<Rightarrow> usize \<Rightarrow> data_message \<Rightarrow> resource option \<times> data_message" where
  "take_downcast k index m =
     (if index < length (resources m) then
        (case resources m ! index of
           Some r \<Rightarrow> if res_kind r = k then (Some r, m\<lparr>resources := (resources m)[index := None]\<rparr>)
                     else (None, m)
         | None \<Rightarrow> (None, m))
      else (None, m))"

text \<open>\<open>Arc::try_unwrap\<close> fails on a shared allocation; the slot is then refilled.\<close>

definition take_network_resource ::
  "resource_kind \<Rightarrow> usize \<Rightarrow> data_message \<Rightarrow> resource option \<times> data_message" where
  "take_network_resource k index m =
     (case take_downcast k index m of
        (None, m') \<Rightarrow> (None, m')
      | (Some r, m') \<Rightarrow>
          if res_shared r then (None, m'\<lparr>resources := (resources m')[index := Some r]\<rparr>)
          else (Some r, m'))"

definition take_module :: "usize \<Rightarrow> data_message \<Rightarrow> resource option \<times> data_message" where
  "take_module = take_downcast KModule"

definition take_tcp_stream :: "usize \<Rightarrow> data_message \<Rightarrow> resource option \<times> data_message" where
  "take_tcp_stream = take_downcast KTcpStream"

definition take_leased_tcp_stream :: "usize \<Rightarrow> data_message \<Rightarrow> resource option \<times> data_message" where
  "take_leased_tcp_stream = take_network_resource KLeasedTcpStream"

definition take_udp_socket :: "usize \<Rightarrow> data_message \<Rightarrow> resource option \<times> data_message" where
  "take_udp_socket = take_downcast KUdpSocket"

definition take_leased_udp_socket :: "usize \<Rightarrow> data_message \<Rightarrow> resource option \<times> data_message" where
  "take_leased_udp_socket = take_network_resource KLeasedUdpSocket"

definition take_tls_stream :: "usize \<Rightarrow> data_message \<Rightarrow> resource option \<times> data_message" where
  "take_tls_stream = take_downcast KTlsStream"

definition take_leased_tls_stream :: "usize \<Rightarrow> data_message \<Rightarrow> resource option \<times> data_message" where
  "take_leased_tls_stream = take_network_resource KLeasedTlsStream"

text \<open>
  \<open>Inl\<close> gives the resource back to the caller.  A restored resource is a fresh, unshared
  allocation (\<open>Arc::new\<close>).
\<close>

definition restore_network_resource ::
  "usize \<Rightarrow> resource \<Rightarrow> data_message \<Rightarrow> resource + data_message" where
  "restore_network_resource index r m =
     (if length (resources m) \<le> index then Inl r
      else if resources m ! index \<noteq> None then Inl r
      else Inr (m\<lparr>resources := (resources m)[index := Some (r\<lparr>res_shared := False\<rparr>)]\<rparr>))"

definition data_message_seek :: "usize \<Rightarrow> data_message \<Rightarrow> data_message" where
  "data_message_seek index m = m\<lparr>read_ptr := index\<rparr>"

definition data_message_size :: "data_message \<Rightarrow> usize" where
  "data_message_size m = length (buffer m)"

text \<open>\<open>Write::write\<close>: \<open>extend\<close> grows the vector when the bytes do not fit.\<close>

definition data_message_write :: "alloc_ops \<Rightarrow> u8 list \<Rightarrow> data_message \<Rightarrow> usize \<times> data_message" where
  "data_message_write A buf m =
     (let need = length (buffer m) + length buf
      in (length buf,
          m\<lparr>buffer := buffer m @ buf,
            buffer_cap := (if need \<le> buffer_cap m then buffer_cap m
                           else alloc_grow A (buffer_cap m) need)\<rparr>))"

datatype read_error = OutsideMessageBuffer

text \<open>
  \<open>Read::read\<close> into a buffer of \<open>n\<close> bytes: the bytes written to it, or the error for a cursor past
  the end.  \<open>buffer.get(read_ptr..)\<close> is \<open>Some\<close> up to and including the end.
\<close>

definition data_message_read :: "usize \<Rightarrow> data_message \<Rightarrow> (read_error + u8 list) \<times> data_message" where
  "data_message_read n m =
     (if read_ptr m \<le> length (buffer m) then
        (let bytes = take n (drop (read_ptr m) (buffer m))
         in (Inr bytes, m\<lparr>read_ptr := read_ptr m + length bytes\<rparr>))
      else (Inl OutsideMessageBuffer, m))"

lemmas take_defs = take_module_def take_tcp_stream_def take_leased_tcp_stream_def
  take_udp_socket_def take_leased_udp_socket_def take_tls_stream_def take_leased_tls_stream_def

section \<open>Well-formedness\<close>

definition data_message_wf :: "data_message \<Rightarrow> bool" where
  "data_message_wf m \<longleftrightarrow> length (buffer m) \<le> buffer_cap m \<and> length (resources m) \<le> resources_cap m"

lemma take_downcast_wf: "take_downcast k i m = (r, m') \<Longrightarrow> data_message_wf m \<Longrightarrow> data_message_wf m'"
  by (auto simp: take_downcast_def data_message_wf_def split: if_splits option.splits)

lemma take_network_resource_wf:
  "take_network_resource k i m = (r, m') \<Longrightarrow> data_message_wf m \<Longrightarrow> data_message_wf m'"
  by (auto simp: take_network_resource_def take_downcast_def data_message_wf_def
      split: if_splits option.splits)

lemma restore_network_resource_wf:
  "restore_network_resource i r m = Inr m' \<Longrightarrow> data_message_wf m \<Longrightarrow> data_message_wf m'"
  by (auto simp: restore_network_resource_def data_message_wf_def split: if_splits)

lemma read_wf: "data_message_read n m = (r, m') \<Longrightarrow> data_message_wf m \<Longrightarrow> data_message_wf m'"
  by (auto simp: data_message_read_def data_message_wf_def Let_def split: if_splits)

context allocator
begin

lemma data_message_new_wf: "data_message_wf (data_message_new A t n)"
  by (simp add: data_message_new_def data_message_wf_def)

lemma data_message_write_wf:
  "data_message_write A buf m = (n, m') \<Longrightarrow> data_message_wf m \<Longrightarrow> data_message_wf m'"
  using alloc_grow_ge by (auto simp: data_message_write_def data_message_wf_def Let_def)

lemma add_resource_wf:
  assumes "add_resource A r m = (i, m')" "data_message_wf m"
  shows "data_message_wf m'"
proof -
  have "Suc (length (resources m)) \<le> alloc_exact A (Suc (length (resources m)))"
    by (rule alloc_exact_ge)
  then show ?thesis
    using assms by (auto simp: add_resource_def data_message_wf_def Let_def split: if_splits)
qed

end

section \<open>Behaviour\<close>

text \<open>Reading to the end after a write returns what was written, whatever the chunk sizes.\<close>

fun read_chunks :: "usize list \<Rightarrow> data_message \<Rightarrow> u8 list \<times> data_message" where
  "read_chunks [] m = ([], m)"
| "read_chunks (n # ns) m =
     (case data_message_read n m of
        (Inl _, m') \<Rightarrow> ([], m')
      | (Inr bs, m') \<Rightarrow> (case read_chunks ns m' of (rest, m'') \<Rightarrow> (bs @ rest, m'')))"

lemma read_ptr_read:
  "read_ptr m \<le> length (buffer m) \<Longrightarrow>
     data_message_read n m =
       (Inr (take n (drop (read_ptr m) (buffer m))),
        m\<lparr>read_ptr := min (read_ptr m + n) (length (buffer m))\<rparr>)"
  by (simp add: data_message_read_def Let_def min_def)

lemma read_chunks_prefix:
  "read_ptr m \<le> length (buffer m) \<Longrightarrow>
     read_chunks ns m =
       (take (sum_list ns) (drop (read_ptr m) (buffer m)),
        m\<lparr>read_ptr := min (read_ptr m + sum_list ns) (length (buffer m))\<rparr>)"
proof (induction ns arbitrary: m)
  case Nil
  then show ?case by simp
next
  case (Cons n ns)
  let ?m = "m\<lparr>read_ptr := min (read_ptr m + n) (length (buffer m))\<rparr>"
  have "read_chunks ns ?m =
      (take (sum_list ns) (drop (min (read_ptr m + n) (length (buffer m))) (buffer m)),
       ?m\<lparr>read_ptr := min (min (read_ptr m + n) (length (buffer m)) + sum_list ns) (length (buffer m))\<rparr>)"
    by (subst Cons.IH) auto
  then show ?case
    using Cons.prems
    by (simp add: read_ptr_read take_add min_def add.commute add.left_commute)
qed

lemma take_downcast_Some:
  "take_downcast k i m = (Some r, m') \<Longrightarrow>
     i < length (resources m) \<and> resources m ! i = Some r \<and> res_kind r = k \<and>
     m' = m\<lparr>resources := (resources m)[i := None]\<rparr>"
  by (auto simp: take_downcast_def split: if_splits option.splits)

lemma take_downcast_None: "take_downcast k i m = (None, m') \<Longrightarrow> m' = m"
  by (auto simp: take_downcast_def split: if_splits option.splits)

lemma take_network_resource_Some:
  "take_network_resource k i m = (Some r, m') \<Longrightarrow>
     i < length (resources m) \<and> resources m ! i = Some r \<and> res_kind r = k \<and> \<not> res_shared r \<and>
     m' = m\<lparr>resources := (resources m)[i := None]\<rparr>"
  by (auto simp: take_network_resource_def split: option.splits prod.splits if_splits
      dest!: take_downcast_Some)

lemma resources_refill: "resources m ! i = Some r \<Longrightarrow> m\<lparr>resources := (resources m)[i := Some r]\<rparr> = m"
  using list_update_id[of "resources m" i] by simp

lemma take_network_resource_None: "take_network_resource k i m = (None, m') \<Longrightarrow> m' = m"
  by (auto simp: take_network_resource_def resources_refill split: option.splits prod.splits if_splits
      dest!: take_downcast_Some take_downcast_None)

fun write_chunks :: "alloc_ops \<Rightarrow> u8 list list \<Rightarrow> data_message \<Rightarrow> data_message" where
  "write_chunks A [] m = m"
| "write_chunks A (b # bs) m = write_chunks A bs (snd (data_message_write A b m))"

lemma write_chunks_buffer:
  "buffer (write_chunks A bs m) = buffer m @ concat bs \<and> read_ptr (write_chunks A bs m) = read_ptr m"
  by (induction bs arbitrary: m) (auto simp: data_message_write_def Let_def)

text \<open>
  C16.  Bytes written into a message in any pieces are read back unchanged in any pieces, both from a
  fresh message and after seeking to any position inside it.
\<close>

theorem message_write_read_roundtrip:
  assumes "pos \<le> length (concat bs)" "length (concat bs) \<le> pos + sum_list ns"
  shows "fst (read_chunks ns (data_message_seek pos (write_chunks A bs (data_message_new A t cap)))) =
    drop pos (concat bs)"
  using assms
  by (simp add: read_chunks_prefix data_message_seek_def write_chunks_buffer data_message_new_def)

theorem message_write_read_roundtrip_witness:
  "fst (read_chunks [1, 2, 9] (data_message_seek 1 (write_chunks exact_alloc [[1, 2], [3]]
     (data_message_new exact_alloc None 0)))) = [2, 3]"
  using message_write_read_roundtrip[of 1 "[[1, 2], [3]]" "[1, 2, 9]" exact_alloc None 0] by simp

text \<open>
  C17.  A leased network resource is moved out of a message at most once, and failing to install it
  can be undone: after a successful take every later take of that slot, of any kind, gets nothing,
  and restoring the resource gives back the original message.
\<close>

theorem network_resource_moves_once:
  assumes "take_network_resource k i m = (Some r, m')"
  shows "take_network_resource k' i m' = (None, m') \<and> take_downcast k' i m' = (None, m') \<and>
    restore_network_resource i r m' = Inr m"
  using take_network_resource_Some[OF assms] resources_refill[of m i r]
  by (cases r) (auto simp: take_network_resource_def take_downcast_def restore_network_resource_def)

theorem network_resource_moves_once_witness:
  "take_network_resource KLeasedTcpStream 0
     (data_message_new exact_alloc None 0\<lparr>resources := [None], resources_cap := 1\<rparr>) =
     (None, data_message_new exact_alloc None 0\<lparr>resources := [None], resources_cap := 1\<rparr>)"
  using network_resource_moves_once[of KLeasedTcpStream 0
      "data_message_new exact_alloc None 0
        \<lparr>resources := [Some \<lparr>res_kind = KLeasedTcpStream, res_id = 3, res_shared = False\<rparr>], resources_cap := 1\<rparr>"
      "\<lparr>res_kind = KLeasedTcpStream, res_id = 3, res_shared = False\<rparr>"
      "data_message_new exact_alloc None 0\<lparr>resources := [None], resources_cap := 1\<rparr>" KLeasedTcpStream]
  by (simp add: take_network_resource_def take_downcast_def)

end
