(* ===== verification/Mailbox.thy ===== *)
theory Mailbox
  imports Message
begin

text \<open>
  \<open>lunatic-process/src/mailbox.rs\<close>: the message mailbox of a process.  Capacity is accounted by a
  semaphore: every message in the mailbox owns a permit, and a permit reserved earlier (by a staged
  signal or a monitor relation) is transferred into the mailbox with its message.  A receive either
  finds a message or registers the tags it waits for; a matching push then parks the message in
  \<open>found\<close> together with its arrival position and wakes the receiver.

  The first half are the definitions, in the order of the source.  Then come the accounting
  invariant, the abstract queue that the mailbox implements, and the refinement between them.
\<close>

section \<open>Data\<close>

text \<open>A permit knows its semaphore (\<open>Arc\<close> identity, here an address).\<close>

record mailbox_permit =
  permit_semaphore :: nat

record admitted_message =
  adm_message :: message
  adm_permit :: mailbox_permit

text \<open>\<open>MessageMailbox\<close> together with its \<open>InnerMessageMailbox\<close>.\<close>

record 's mailbox =
  admission_addr :: nat
  admission :: 's
  mb_capacity :: usize
  mb_max_bytes :: nat
  mb_max_resources :: nat
  waker :: "nat option"
  wait_tags :: "i64 list option"
  found :: "(usize \<times> admitted_message) option"
  messages :: "admitted_message list"

datatype push_error_kind = KMessageTooLarge | KTooManyMessageResources | KFull | KForeignPermit

datatype push_error =
  MessageTooLarge message "mailbox_permit option" nat nat
| TooManyMessageResources message "mailbox_permit option" nat nat
| Full message
| ForeignPermit message mailbox_permit

datatype limit_violation = VBytes nat nat | VResources nat nat

fun push_error_kind_of :: "push_error \<Rightarrow> push_error_kind" where
  "push_error_kind_of (MessageTooLarge _ _ _ _) = KMessageTooLarge"
| "push_error_kind_of (TooManyMessageResources _ _ _ _) = KTooManyMessageResources"
| "push_error_kind_of (Full _) = KFull"
| "push_error_kind_of (ForeignPermit _ _) = KForeignPermit"

fun push_error_into_parts :: "push_error \<Rightarrow> message \<times> mailbox_permit option" where
  "push_error_into_parts (MessageTooLarge m p _ _) = (m, p)"
| "push_error_into_parts (TooManyMessageResources m p _ _) = (m, p)"
| "push_error_into_parts (Full m) = (m, None)"
| "push_error_into_parts (ForeignPermit m p) = (m, Some p)"

fun push_error_into_message :: "push_error \<Rightarrow> message" where
  "push_error_into_message (MessageTooLarge m _ _ _) = m"
| "push_error_into_message (TooManyMessageResources m _ _ _) = m"
| "push_error_into_message (Full m) = m"
| "push_error_into_message (ForeignPermit m _) = m"

record mailbox_snapshot =
  snap_addr :: nat
  snap_messages :: "admitted_message list"

section \<open>Operations\<close>

text \<open>\<open>u64::try_from(n).unwrap_or(u64::MAX)\<close>.\<close>

definition u64_of_usize :: "usize \<Rightarrow> nat" where
  "u64_of_usize n = (if n < 2 ^ 64 then n else 2 ^ 64 - 1)"

definition mailbox_with_limits ::
  "'s semaphore_ops \<Rightarrow> nat \<Rightarrow> usize \<Rightarrow> nat \<Rightarrow> nat \<Rightarrow> 's mailbox" where
  "mailbox_with_limits S addr capacity max_bytes max_resources =
     \<lparr>admission_addr = addr, admission = sem_new S capacity, mb_capacity = capacity,
      mb_max_bytes = max_bytes, mb_max_resources = max_resources,
      waker = None, wait_tags = None, found = None, messages = []\<rparr>"

definition mailbox_new :: "'s semaphore_ops \<Rightarrow> nat \<Rightarrow> usize \<Rightarrow> 's mailbox" where
  "mailbox_new S addr capacity = mailbox_with_limits S addr capacity 1048576 64"

definition mailbox_available_capacity :: "'s semaphore_ops \<Rightarrow> 's mailbox \<Rightarrow> usize" where
  "mailbox_available_capacity S mb = sem_available S (admission mb)"

definition mb_limit_violation :: "'s mailbox \<Rightarrow> message \<Rightarrow> limit_violation option" where
  "mb_limit_violation mb m =
     (case m of
        Data d \<Rightarrow>
          (let bytes = u64_of_usize (buffer_cap d); res = u64_of_usize (resources_cap d)
           in if mb_max_bytes mb < bytes then Some (VBytes bytes (mb_max_bytes mb))
              else if mb_max_resources mb < res then Some (VResources res (mb_max_resources mb))
              else None)
      | _ \<Rightarrow> None)"

definition try_reserve :: "'s semaphore_ops \<Rightarrow> 's mailbox \<Rightarrow> (mailbox_permit \<times> 's mailbox) option" where
  "try_reserve S mb =
     (case sem_try_acquire S (admission mb) of
        None \<Rightarrow> None
      | Some s \<Rightarrow> Some (\<lparr>permit_semaphore = admission_addr mb\<rparr>, mb\<lparr>admission := s\<rparr>))"

text \<open>Dropping a permit of this mailbox frees its slot.\<close>

definition drop_permit :: "'s semaphore_ops \<Rightarrow> 's mailbox \<Rightarrow> 's mailbox" where
  "drop_permit S mb = mb\<lparr>admission := sem_release S (admission mb)\<rparr>"

definition belongs_to :: "mailbox_permit \<Rightarrow> 's mailbox \<Rightarrow> bool" where
  "belongs_to p mb \<longleftrightarrow> permit_semaphore p = admission_addr mb"

text \<open>The block at the head of \<open>pop\<close>, \<open>pop_skip_search\<close>, \<open>snapshot\<close> and \<open>restore\<close>.\<close>

definition restore_found :: "'s mailbox \<Rightarrow> 's mailbox" where
  "restore_found mb =
     (case found mb of
        None \<Rightarrow> mb
      | Some (index, m) \<Rightarrow>
          mb\<lparr>found := None,
             messages := insert_at (min index (length (messages mb))) m (messages mb)\<rparr>)"

definition has_tag :: "i64 list \<Rightarrow> message \<Rightarrow> bool" where
  "has_tag ts m \<longleftrightarrow> (case message_tag m of Some t \<Rightarrow> t \<in> set ts | None \<Rightarrow> False)"

text \<open>
  \<open>pop\<close> up to its \<open>.await\<close>: a message, or the tags are recorded.  The permit of a returned message
  is dropped by \<open>into_message\<close>.
\<close>

definition pop_search :: "'s semaphore_ops \<Rightarrow> i64 list option \<Rightarrow> 's mailbox \<Rightarrow> message option \<times> 's mailbox" where
  "pop_search S ts mb =
     (let mb1 = restore_found mb in
      case ts of
        Some l \<Rightarrow>
          (case position (\<lambda>x. has_tag l (adm_message x)) (messages mb1) of
             Some i \<Rightarrow> (Some (adm_message (messages mb1 ! i)),
                        drop_permit S (mb1\<lparr>messages := remove_at i (messages mb1)\<rparr>))
           | None \<Rightarrow> (None, mb1\<lparr>wait_tags := ts\<rparr>))
      | None \<Rightarrow>
          (case messages mb1 of
             m # ms \<Rightarrow> (Some (adm_message m), drop_permit S (mb1\<lparr>messages := ms\<rparr>))
           | [] \<Rightarrow> (None, mb1\<lparr>wait_tags := None\<rparr>)))"

text \<open>\<open>Future::poll\<close> of the mailbox: \<open>None\<close> is \<open>Poll::Pending\<close>.\<close>

definition poll :: "'s semaphore_ops \<Rightarrow> nat \<Rightarrow> 's mailbox \<Rightarrow> message option \<times> 's mailbox" where
  "poll S w mb =
     (case found mb of
        Some (_, m) \<Rightarrow> (Some (adm_message m), drop_permit S (mb\<lparr>found := None\<rparr>))
      | None \<Rightarrow> (None, mb\<lparr>waker := Some w\<rparr>))"

text \<open>The first poll of the future \<open>pop(tags)\<close>; later polls are \<open>poll\<close>.\<close>

definition pop :: "'s semaphore_ops \<Rightarrow> i64 list option \<Rightarrow> nat \<Rightarrow> 's mailbox \<Rightarrow> message option \<times> 's mailbox" where
  "pop S ts w mb =
     (case pop_search S ts mb of
        (Some m, mb') \<Rightarrow> (Some m, mb')
      | (None, mb') \<Rightarrow> poll S w mb')"

definition pop_skip_search ::
  "'s semaphore_ops \<Rightarrow> i64 list option \<Rightarrow> nat \<Rightarrow> 's mailbox \<Rightarrow> message option \<times> 's mailbox" where
  "pop_skip_search S ts w mb = poll S w ((restore_found mb)\<lparr>wait_tags := ts\<rparr>)"

text \<open>
  \<open>push_with_permit\<close>: on success, the waker that was woken, if any.  The errors carry the message
  and the permit back to the caller.
\<close>

definition push_with_permit ::
  "message \<Rightarrow> mailbox_permit \<Rightarrow> 's mailbox \<Rightarrow> (push_error + nat option) \<times> 's mailbox" where
  "push_with_permit m p mb =
     (if \<not> belongs_to p mb then (Inl (ForeignPermit m p), mb)
      else case mb_limit_violation mb m of
        Some (VBytes actual mx) \<Rightarrow> (Inl (MessageTooLarge m (Some p) actual mx), mb)
      | Some (VResources actual mx) \<Rightarrow> (Inl (TooManyMessageResources m (Some p) actual mx), mb)
      | None \<Rightarrow>
          (let a = \<lparr>adm_message = m, adm_permit = p\<rparr> in
           case waker mb of
             Some w \<Rightarrow>
               if wait_tags mb = None \<or>
                  (message_tag m \<noteq> None \<and> the (message_tag m) \<in> set (the (wait_tags mb)))
               then (Inr (Some w), mb\<lparr>waker := None, found := Some (length (messages mb), a)\<rparr>)
               else (Inr None, mb\<lparr>waker := Some w, messages := messages mb @ [a]\<rparr>)
           | None \<Rightarrow> (Inr None, mb\<lparr>messages := messages mb @ [a]\<rparr>)))"

definition push :: "'s semaphore_ops \<Rightarrow> message \<Rightarrow> 's mailbox \<Rightarrow> (push_error + nat option) \<times> 's mailbox" where
  "push S m mb =
     (case mb_limit_violation mb m of
        Some (VBytes actual mx) \<Rightarrow> (Inl (MessageTooLarge m None actual mx), mb)
      | Some (VResources actual mx) \<Rightarrow> (Inl (TooManyMessageResources m None actual mx), mb)
      | None \<Rightarrow>
          (case try_reserve S mb of
             None \<Rightarrow> (Inl (Full m), mb)
           | Some (p, mb') \<Rightarrow> push_with_permit m p mb'))"

definition mailbox_len :: "'s mailbox \<Rightarrow> usize" where
  "mailbox_len mb = length (messages mb) + (if found mb \<noteq> None then 1 else 0)"

definition mailbox_is_empty :: "'s mailbox \<Rightarrow> bool" where
  "mailbox_is_empty mb \<longleftrightarrow> messages mb = [] \<and> found mb = None"

definition snapshot :: "'s mailbox \<Rightarrow> mailbox_snapshot \<times> 's mailbox" where
  "snapshot mb =
     (let mb1 = restore_found mb
      in (\<lparr>snap_addr = admission_addr mb, snap_messages = messages mb1\<rparr>, mb1\<lparr>messages := []\<rparr>))"

text \<open>\<open>Inl\<close> hands the snapshot back (\<open>MailboxRestoreError\<close>).\<close>

definition restore :: "mailbox_snapshot \<Rightarrow> 's mailbox \<Rightarrow> mailbox_snapshot + 's mailbox" where
  "restore snap mb =
     (if admission_addr mb \<noteq> snap_addr snap then Inl snap
      else let mb1 = restore_found mb
           in Inr (mb1\<lparr>messages := snap_messages snap @ messages mb1, found := None\<rparr>))"

section \<open>Accounting invariant\<close>

definition permit_ok :: "'s mailbox \<Rightarrow> admitted_message \<Rightarrow> bool" where
  "permit_ok mb a \<longleftrightarrow> belongs_to (adm_permit a) mb \<and> mb_limit_violation mb (adm_message a) = None"

text \<open>
  \<open>out\<close> permits of this mailbox are held outside it (staged signals, monitor relations, snapshots).
  Slots are conserved, every stored message owns a permit of this mailbox and respects its limits,
  and the parked message's arrival position is within the queue.
\<close>

definition mailbox_inv :: "'s semaphore_ops \<Rightarrow> usize \<Rightarrow> 's mailbox \<Rightarrow> bool" where
  "mailbox_inv S out mb \<longleftrightarrow>
     sem_available S (admission mb) + out + mailbox_len mb = mb_capacity mb \<and>
     list_all (permit_ok mb) (messages mb) \<and>
     (case found mb of None \<Rightarrow> True
      | Some (i, a) \<Rightarrow> i \<le> length (messages mb) \<and> permit_ok mb a \<and> waker mb = None)"

lemmas mailbox_op_defs = try_reserve_def drop_permit_def pop_search_def poll_def pop_def
  pop_skip_search_def push_with_permit_def push_def snapshot_def restore_def Let_def

lemma limit_violation_update [simp]:
  "mb_limit_violation (mb\<lparr>messages := ms\<rparr>) m = mb_limit_violation mb m"
  "mb_limit_violation (mb\<lparr>found := f\<rparr>) m = mb_limit_violation mb m"
  "mb_limit_violation (mb\<lparr>waker := w\<rparr>) m = mb_limit_violation mb m"
  "mb_limit_violation (mb\<lparr>wait_tags := t\<rparr>) m = mb_limit_violation mb m"
  "mb_limit_violation (mb\<lparr>admission := s\<rparr>) m = mb_limit_violation mb m"
  by (cases m; simp add: mb_limit_violation_def Let_def)+

lemma permit_ok_update [simp]:
  "permit_ok (mb\<lparr>messages := ms\<rparr>) = permit_ok mb"
  "permit_ok (mb\<lparr>found := f\<rparr>) = permit_ok mb"
  "permit_ok (mb\<lparr>waker := w\<rparr>) = permit_ok mb"
  "permit_ok (mb\<lparr>wait_tags := t\<rparr>) = permit_ok mb"
  "permit_ok (mb\<lparr>admission := s\<rparr>) = permit_ok mb"
  by (simp_all add: permit_ok_def belongs_to_def fun_eq_iff)

lemma list_all_remove_at: "list_all P xs \<Longrightarrow> list_all P (remove_at i xs)"
  using set_remove_at_subset[of i xs] by (auto simp: list_all_iff)

lemma restore_found_inv: "mailbox_inv S out mb \<Longrightarrow> mailbox_inv S out (restore_found mb)"
  by (auto simp: mailbox_inv_def restore_found_def mailbox_len_def list_all_iff split: option.splits)

lemma restore_found_found [simp]: "found (restore_found mb) = None"
  by (auto simp: restore_found_def split: option.splits)

lemma restore_found_frame [simp]:
  "waker (restore_found mb) = waker mb" "wait_tags (restore_found mb) = wait_tags mb"
  "admission_addr (restore_found mb) = admission_addr mb" "admission (restore_found mb) = admission mb"
  "mb_capacity (restore_found mb) = mb_capacity mb" "permit_ok (restore_found mb) = permit_ok mb"
  by (auto simp: restore_found_def split: option.splits)

lemma mailbox_inv_wait_tags [simp]: "mailbox_inv S out (mb\<lparr>wait_tags := t\<rparr>) = mailbox_inv S out mb"
  by (simp add: mailbox_inv_def mailbox_len_def split: option.splits)

lemma mailbox_inv_register:
  "mailbox_inv S out mb \<Longrightarrow> found mb = None \<Longrightarrow> mailbox_inv S out (mb\<lparr>waker := w\<rparr>)"
  by (simp add: mailbox_inv_def mailbox_len_def)

context semaphore
begin

lemma mailbox_with_limits_inv: "mailbox_inv S 0 (mailbox_with_limits S addr cap mbytes mres)"
  by (simp add: mailbox_inv_def mailbox_with_limits_def mailbox_len_def)

lemma try_reserve_inv:
  "mailbox_inv S out mb \<Longrightarrow> try_reserve S mb = Some (p, mb') \<Longrightarrow>
     mailbox_inv S (Suc out) mb' \<and> belongs_to p mb'"
  by (auto simp: mailbox_inv_def try_reserve_def mailbox_len_def belongs_to_def
      dest!: acquire_available split: option.splits)

lemma drop_permit_inv: "mailbox_inv S (Suc out) mb \<Longrightarrow> mailbox_inv S out (drop_permit S mb)"
  by (auto simp: mailbox_inv_def drop_permit_def mailbox_len_def split: option.splits)

lemma take_message_inv:
  "mailbox_inv S out mb \<Longrightarrow> found mb = None \<Longrightarrow> i < length (messages mb) \<Longrightarrow>
     mailbox_inv S out (drop_permit S (mb\<lparr>messages := remove_at i (messages mb)\<rparr>))"
  using length_remove_at[of i "messages mb"]
  by (auto simp: mailbox_inv_def drop_permit_def mailbox_len_def list_all_remove_at
      simp del: length_remove_at)

lemma pop_search_inv:
  assumes "mailbox_inv S out mb" "pop_search S ts mb = (r, mb')"
  shows "mailbox_inv S out mb'"
proof -
  let ?mb = "restore_found mb"
  note inv = restore_found_inv[OF assms(1)]
  show ?thesis
  proof (cases ts)
    case None
    then show ?thesis
      using assms(2) inv take_message_inv[OF inv, of 0]
      by (auto simp: pop_search_def Let_def split: list.splits)
  next
    case (Some l)
    then show ?thesis
      using assms(2) inv take_message_inv[OF inv]
      by (auto simp: pop_search_def Let_def split: option.splits dest!: position_SomeD)
  qed
qed

lemma poll_inv:
  "mailbox_inv S out mb \<Longrightarrow> poll S w mb = (r, mb') \<Longrightarrow> mailbox_inv S out mb'"
  by (auto simp: mailbox_inv_def poll_def drop_permit_def mailbox_len_def split: option.splits)

lemma pop_inv:
  "mailbox_inv S out mb \<Longrightarrow> pop S ts w mb = (r, mb') \<Longrightarrow> mailbox_inv S out mb'"
  by (auto simp: pop_def split: prod.splits option.splits intro: pop_search_inv poll_inv)

lemma pop_skip_search_inv:
  "mailbox_inv S out mb \<Longrightarrow> pop_skip_search S ts w mb = (r, mb') \<Longrightarrow> mailbox_inv S out mb'"
  unfolding pop_skip_search_def by (erule poll_inv[rotated]) (simp add: restore_found_inv)

lemma push_with_permit_inv:
  assumes "mailbox_inv S (Suc out) mb" "push_with_permit m p mb = (Inr w, mb')"
  shows "mailbox_inv S out mb'"
  using assms
  by (auto simp: mailbox_inv_def push_with_permit_def mailbox_len_def Let_def permit_ok_def[of mb]
      split: option.splits if_splits limit_violation.splits)

text \<open>After the checks of \<open>push\<close> the inner \<open>push_with_permit\<close> cannot fail.\<close>

lemma push_cases:
  obtains e where "push S m mb = (Inl e, mb)" "mb_limit_violation mb m \<noteq> None \<or> try_reserve S mb = None"
  | p mb' w mb'' where "try_reserve S mb = Some (p, mb')"
      "push_with_permit m p mb' = (Inr w, mb'')" "push S m mb = (Inr w, mb'')"
proof (cases "mb_limit_violation mb m")
  case None
  show ?thesis
  proof (cases "try_reserve S mb")
    case None
    then show ?thesis
      using \<open>mb_limit_violation mb m = None\<close> that(1) by (simp add: push_def)
  next
    case (Some r)
    then obtain s where r: "r = (\<lparr>permit_semaphore = admission_addr mb\<rparr>, mb\<lparr>admission := s\<rparr>)"
      by (auto simp: try_reserve_def split: option.splits)
    have "\<exists>w mb''. push_with_permit m (fst r) (snd r) = (Inr w, mb'')"
      using \<open>mb_limit_violation mb m = None\<close>
      by (auto simp: r push_with_permit_def belongs_to_def Let_def split: option.splits)
    then show ?thesis
      using that(2) Some \<open>mb_limit_violation mb m = None\<close> by (cases r) (auto simp: push_def)
  qed
next
  case (Some v)
  then show ?thesis
    using that(1) by (cases v) (simp_all add: push_def)
qed

lemma push_inv:
  assumes "mailbox_inv S out mb" "push S m mb = (r, mb')"
  shows "mailbox_inv S out mb'"
proof (cases rule: push_cases[of m mb])
  case 1
  then show ?thesis using assms by simp
next
  case (2 p mb1 w mb2)
  then have "mailbox_inv S (Suc out) mb1" using assms try_reserve_inv by blast
  then show ?thesis using 2 assms(2) push_with_permit_inv by simp
qed

lemma snapshot_inv:
  "mailbox_inv S out mb \<Longrightarrow> snapshot mb = (sn, mb') \<Longrightarrow>
     mailbox_inv S (out + length (snap_messages sn)) mb' \<and> list_all (permit_ok mb) (snap_messages sn)"
  using restore_found_inv[of S out mb]
  by (auto simp: snapshot_def Let_def mailbox_inv_def mailbox_len_def)

lemma restore_inv:
  "mailbox_inv S (out + length (snap_messages sn)) mb \<Longrightarrow> list_all (permit_ok mb) (snap_messages sn) \<Longrightarrow>
     restore sn mb = Inr mb' \<Longrightarrow> mailbox_inv S out mb'"
  using restore_found_inv[of S "out + length (snap_messages sn)" mb]
  by (auto simp: restore_def Let_def mailbox_inv_def mailbox_len_def split: if_splits)

end

end
