(* ===== verification/Mailbox_Queue.thy ===== *)
theory Mailbox_Queue
  imports Mailbox
begin

text \<open>
  What a mailbox promises to the process that owns it: a bounded queue with selective receive.  The
  abstract queue keeps the messages in arrival order, the tags of the pending receive and the number
  of reserved slots; it has no wakers, no parked message and no semaphore.  \<open>queue_rel\<close> relates it to
  the mailbox of \<open>mailbox.rs\<close>, and every operation of the mailbox is simulated by the queue.
\<close>

section \<open>The abstract queue\<close>

definition tags_match :: "i64 list option \<Rightarrow> message \<Rightarrow> bool" where
  "tags_match ts m = (case ts of None \<Rightarrow> True | Some l \<Rightarrow> has_tag l m)"

definition queue_recv :: "i64 list option \<Rightarrow> message list \<Rightarrow> message option \<times> message list" where
  "queue_recv ts q =
     (case position (tags_match ts) q of
        Some i \<Rightarrow> (Some (q ! i), remove_at i q)
      | None \<Rightarrow> (None, q))"

record abs_queue =
  aq_items :: "message list"
  aq_waiting :: "i64 list option option"
  aq_reserved :: usize

datatype mail_op =
  OpPush message
| OpReserve
| OpPushReserved message
| OpDropReserved
| OpPop "i64 list option" nat
| OpPoll nat
| OpCancel

datatype mail_obs =
  Accepted | Rejected push_error_kind | Reserved | NoSlot | Received message | Waiting | Quiet

definition recv_obs :: "message option \<Rightarrow> mail_obs" where
  "recv_obs r = (case r of Some m \<Rightarrow> Received m | None \<Rightarrow> Waiting)"

text \<open>Limits and capacity are parameters of the queue, as they never change.\<close>

definition too_big :: "nat \<Rightarrow> nat \<Rightarrow> message \<Rightarrow> push_error_kind option" where
  "too_big mbytes mres m =
     (case m of
        Data d \<Rightarrow>
          if mbytes < u64_of_usize (buffer_cap d) then Some KMessageTooLarge
          else if mres < u64_of_usize (resources_cap d) then Some KTooManyMessageResources
          else None
      | _ \<Rightarrow> None)"

fun queue_step :: "usize \<Rightarrow> nat \<Rightarrow> nat \<Rightarrow> mail_op \<Rightarrow> abs_queue \<Rightarrow> mail_obs \<times> abs_queue" where
  "queue_step cap mbytes mres (OpPush m) q =
     (case too_big mbytes mres m of
        Some k \<Rightarrow> (Rejected k, q)
      | None \<Rightarrow>
          if length (aq_items q) + aq_reserved q < cap
          then (Accepted, q\<lparr>aq_items := aq_items q @ [m]\<rparr>) else (Rejected KFull, q))"
| "queue_step cap mbytes mres OpReserve q =
     (if length (aq_items q) + aq_reserved q < cap
      then (Reserved, q\<lparr>aq_reserved := Suc (aq_reserved q)\<rparr>) else (NoSlot, q))"
| "queue_step cap mbytes mres (OpPushReserved m) q =
     (case too_big mbytes mres m of
        Some k \<Rightarrow> (Rejected k, q)
      | None \<Rightarrow>
          (Accepted, q\<lparr>aq_items := aq_items q @ [m], aq_reserved := aq_reserved q - 1\<rparr>))"
| "queue_step cap mbytes mres OpDropReserved q = (Quiet, q\<lparr>aq_reserved := aq_reserved q - 1\<rparr>)"
| "queue_step cap mbytes mres (OpPop ts w) q =
     (case queue_recv ts (aq_items q) of
        (r, items) \<Rightarrow>
          (recv_obs r, q\<lparr>aq_items := items, aq_waiting := (if r = None then Some ts else None)\<rparr>))"
| "queue_step cap mbytes mres (OpPoll w) q =
     (case aq_waiting q of
        None \<Rightarrow> (Waiting, q)
      | Some ts \<Rightarrow>
          (case queue_recv ts (aq_items q) of
             (r, items) \<Rightarrow>
               (recv_obs r, q\<lparr>aq_items := items, aq_waiting := (if r = None then Some ts else None)\<rparr>)))"
| "queue_step cap mbytes mres OpCancel q = (Quiet, q\<lparr>aq_waiting := None\<rparr>)"

text \<open>A future is polled only while it exists, and a reserved slot is used only if one is held.\<close>

fun op_ok :: "mail_op \<Rightarrow> abs_queue \<Rightarrow> bool" where
  "op_ok (OpPoll _) q = (aq_waiting q \<noteq> None)"
| "op_ok (OpPushReserved _) q = (0 < aq_reserved q)"
| "op_ok OpDropReserved q = (0 < aq_reserved q)"
| "op_ok _ q = True"

section \<open>The same operations on the mailbox\<close>

definition push_obs :: "push_error + nat option \<Rightarrow> mail_obs" where
  "push_obs r = (case r of Inl e \<Rightarrow> Rejected (push_error_kind_of e) | Inr _ \<Rightarrow> Accepted)"

fun mail_step :: "'s semaphore_ops \<Rightarrow> mail_op \<Rightarrow> 's mailbox \<Rightarrow> mail_obs \<times> 's mailbox" where
  "mail_step S (OpPush m) mb = (case push S m mb of (r, mb') \<Rightarrow> (push_obs r, mb'))"
| "mail_step S OpReserve mb =
     (case try_reserve S mb of Some (p, mb') \<Rightarrow> (Reserved, mb') | None \<Rightarrow> (NoSlot, mb))"
| "mail_step S (OpPushReserved m) mb =
     (case push_with_permit m \<lparr>permit_semaphore = admission_addr mb\<rparr> mb of (r, mb') \<Rightarrow> (push_obs r, mb'))"
| "mail_step S OpDropReserved mb = (Quiet, drop_permit S mb)"
| "mail_step S (OpPop ts w) mb = (case pop S ts w mb of (r, mb') \<Rightarrow> (recv_obs r, mb'))"
| "mail_step S (OpPoll w) mb = (case poll S w mb of (r, mb') \<Rightarrow> (recv_obs r, mb'))"
| "mail_step S OpCancel mb = (Quiet, mb)"

section \<open>Abstraction\<close>

definition mb_view :: "'s mailbox \<Rightarrow> message list" where
  "mb_view mb = map adm_message (messages (restore_found mb))"

text \<open>
  The waiting invariant: while a waker is registered no queued message matches the awaited tags, and
  the parked message is the first match in arrival order.
\<close>

definition wait_inv :: "'s mailbox \<Rightarrow> bool" where
  "wait_inv mb \<longleftrightarrow>
     (waker mb \<noteq> None \<longrightarrow> list_all (\<lambda>a. \<not> tags_match (wait_tags mb) (adm_message a)) (messages mb)) \<and>
     (case found mb of None \<Rightarrow> True
      | Some (i, a) \<Rightarrow> tags_match (wait_tags mb) (adm_message a) \<and>
          list_all (\<lambda>b. \<not> tags_match (wait_tags mb) (adm_message b)) (take i (messages mb)))"

definition queue_rel :: "'s semaphore_ops \<Rightarrow> usize \<Rightarrow> nat \<Rightarrow> nat \<Rightarrow> 's mailbox \<Rightarrow> abs_queue \<Rightarrow> bool" where
  "queue_rel S cap mbytes mres mb q \<longleftrightarrow>
     mailbox_inv S (aq_reserved q) mb \<and> wait_inv mb \<and> mb_view mb = aq_items q \<and>
     mb_capacity mb = cap \<and> mb_max_bytes mb = mbytes \<and> mb_max_resources mb = mres \<and>
     (case aq_waiting q of None \<Rightarrow> True
      | Some ts \<Rightarrow> wait_tags mb = ts \<and> (waker mb \<noteq> None \<or> found mb \<noteq> None))"

text \<open>What the queue promises about order: the first matching message, the rest unchanged.\<close>

lemma position_filter:
  "position P xs = Some i \<Longrightarrow>
     filter P xs = xs ! i # filter P (remove_at i xs) \<and>
     filter (\<lambda>x. \<not> P x) (remove_at i xs) = filter (\<lambda>x. \<not> P x) xs"
  by (induction xs arbitrary: i) (auto simp: remove_at_def split: if_splits option.splits)

lemma queue_recv_Some:
  "queue_recv ts q = (Some m, q') \<Longrightarrow>
     filter (tags_match ts) q = m # filter (tags_match ts) q' \<and>
     filter (\<lambda>x. \<not> tags_match ts x) q' = filter (\<lambda>x. \<not> tags_match ts x) q"
  by (auto simp: queue_recv_def dest: position_filter split: option.splits)

lemma queue_recv_None: "queue_recv ts q = (None, q') \<longleftrightarrow> q' = q \<and> list_all (\<lambda>m. \<not> tags_match ts m) q"
  by (auto simp: queue_recv_def position_None list_all_iff split: option.splits)
    (meson position_SomeD nth_mem)

section \<open>The simulation\<close>

lemma position_map: "position P (map f xs) = position (\<lambda>x. P (f x)) xs"
  by (induction xs) auto

lemma position_tags_None: "position (tags_match None) q = (if q = [] then None else Some 0)"
  by (cases q) (auto simp: tags_match_def)

lemma mb_view_frame [simp]:
  "mb_view (mb\<lparr>waker := w\<rparr>) = mb_view mb" "mb_view (mb\<lparr>wait_tags := t\<rparr>) = mb_view mb"
  "mb_view (mb\<lparr>admission := s\<rparr>) = mb_view mb" "mb_view (drop_permit S mb) = mb_view mb"
  by (auto simp: mb_view_def restore_found_def drop_permit_def split: option.splits)

lemma mb_view_idle: "found mb = None \<Longrightarrow> mb_view mb = map adm_message (messages mb)"
  by (simp add: mb_view_def restore_found_def)

lemma length_mb_view: "length (mb_view mb) = mailbox_len mb"
  by (auto simp: mb_view_def restore_found_def mailbox_len_def split: option.splits)

lemma pop_refines:
  assumes "pop S ts w mb = (r, mb')"
  shows "queue_recv ts (mb_view mb) = (r, mb_view mb')"
proof -
  let ?ms = "messages (restore_found mb)"
  have pos: "position (tags_match ts) (mb_view mb) = position (\<lambda>a. tags_match ts (adm_message a)) ?ms"
    by (simp add: mb_view_def position_map)
  show ?thesis
  proof (cases ts)
    case None
    then show ?thesis
      using assms pos
      by (auto simp: queue_recv_def pop_def pop_search_def poll_def Let_def tags_match_def mb_view_idle
          mb_view_def[of mb] split: list.splits)
  next
    case (Some l)
    then show ?thesis
      using assms pos
      by (auto simp: queue_recv_def pop_def pop_search_def poll_def Let_def tags_match_def mb_view_idle
          mb_view_def[of mb] map_remove_at split: option.splits dest: position_SomeD)
  qed
qed

lemma push_with_permit_refines:
  assumes "push_with_permit m p mb = (Inr w, mb')" "mailbox_inv S out mb"
  shows "mb_view mb' = mb_view mb @ [m]"
  using assms
  by (auto simp: push_with_permit_def mb_view_def restore_found_def Let_def mailbox_inv_def
      insert_at_snoc split: if_splits option.splits limit_violation.splits)

text \<open>A registered receiver is woken by the first matching push, which is what it then receives.\<close>

lemma wait_tags_match:
  "(wait_tags mb = None \<or> (message_tag m \<noteq> None \<and> the (message_tag m) \<in> set (the (wait_tags mb))))
     = tags_match (wait_tags mb) m"
  by (auto simp: tags_match_def has_tag_def split: option.splits)

lemma push_with_permit_wait_inv:
  assumes "push_with_permit m p mb = (r, mb')" "wait_inv mb" "mailbox_inv S out mb"
  shows "wait_inv mb'"
  using assms unfolding push_with_permit_def wait_tags_match
  by (auto simp: wait_inv_def Let_def mailbox_inv_def
      split: if_splits option.splits limit_violation.splits)

lemma restore_found_wait_inv:
  "wait_inv mb \<Longrightarrow> mailbox_inv S out mb \<Longrightarrow> wait_inv (restore_found mb)"
  by (auto simp: wait_inv_def restore_found_def mailbox_inv_def split: option.splits)

lemma wait_inv_remove:
  "wait_inv mb \<Longrightarrow> found mb = None \<Longrightarrow> wait_inv (drop_permit S (mb\<lparr>messages := remove_at i (messages mb)\<rparr>))"
  by (auto simp: wait_inv_def drop_permit_def list_all_remove_at)

lemma wait_inv_tl:
  "wait_inv mb \<Longrightarrow> found mb = None \<Longrightarrow> messages mb = a # ms \<Longrightarrow> wait_inv (drop_permit S (mb\<lparr>messages := ms\<rparr>))"
  by (auto simp: wait_inv_def drop_permit_def)

lemma pop_search_wait_inv:
  assumes "pop_search S ts mb = (r, mb')" "wait_inv mb" "mailbox_inv S out mb"
  shows "found mb' = None \<and>
    (if r = None then wait_tags mb' = ts \<and> list_all (\<lambda>a. \<not> tags_match ts (adm_message a)) (messages mb')
     else wait_inv mb')"
  using assms(1) wait_inv_remove[OF restore_found_wait_inv[OF assms(2,3)]]
    wait_inv_tl[OF restore_found_wait_inv[OF assms(2,3)]]
  by (auto simp: pop_search_def Let_def drop_permit_def tags_match_def position_None list_all_iff
      split: option.splits list.splits)

lemma pop_wait_inv:
  assumes "pop S ts w mb = (r, mb')" "wait_inv mb" "mailbox_inv S out mb"
  shows "wait_inv mb' \<and> (r = None \<longrightarrow> wait_tags mb' = ts \<and> waker mb' \<noteq> None)"
proof -
  obtain r1 mb1 where ps: "pop_search S ts mb = (r1, mb1)" by fastforce
  from pop_search_wait_inv[OF ps assms(2,3)] show ?thesis
    using assms(1) ps by (cases r1) (auto simp: pop_def poll_def wait_inv_def)
qed

lemma poll_refines:
  assumes "poll S w mb = (r, mb')" "wait_inv mb" "mailbox_inv S out mb" "waker mb \<noteq> None \<or> found mb \<noteq> None"
  shows "queue_recv (wait_tags mb) (mb_view mb) = (r, mb_view mb')"
proof (cases "found mb")
  case None
  then show ?thesis
    using assms by (auto simp: poll_def wait_inv_def queue_recv_None mb_view_idle list_all_iff)
next
  case (Some ia)
  then obtain i a where f: "found mb = Some (i, a)" by fastforce
  then have i: "i \<le> length (messages mb)" using assms(3) by (simp add: mailbox_inv_def)
  have "position (\<lambda>a. tags_match (wait_tags mb) (adm_message a)) (take i (messages mb)) = None"
    using f assms(2) by (auto simp: wait_inv_def list_all_iff position_None)
  then have "position (\<lambda>a. tags_match (wait_tags mb) (adm_message a)) (insert_at i a (messages mb)) = Some i"
    using f i assms(2) by (simp add: insert_at_def wait_inv_def position_append min_def)
  then show ?thesis
    using f i assms(1)
    by (auto simp: poll_def queue_recv_def mb_view_def restore_found_def position_map
        drop_permit_def min_def simp flip: map_remove_at)
qed

lemma poll_wait_inv:
  assumes "poll S w mb = (r, mb')" "wait_inv mb" "mailbox_inv S out mb" "waker mb \<noteq> None \<or> found mb \<noteq> None"
  shows "wait_inv mb' \<and> (r = None \<longrightarrow> wait_tags mb' = wait_tags mb \<and> waker mb' \<noteq> None)"
  using assms by (auto simp: poll_def wait_inv_def drop_permit_def mailbox_inv_def split: option.splits)

lemma limit_violation_too_big:
  "map_option (\<lambda>v. case v of VBytes _ _ \<Rightarrow> KMessageTooLarge | VResources _ _ \<Rightarrow> KTooManyMessageResources)
     (mb_limit_violation mb m) = too_big (mb_max_bytes mb) (mb_max_resources mb) m"
  by (cases m) (auto simp: mb_limit_violation_def too_big_def Let_def)

lemma op_frame:
  "push_with_permit m p mb = (r, mb1) \<Longrightarrow>
     mb_capacity mb1 = mb_capacity mb \<and> mb_max_bytes mb1 = mb_max_bytes mb \<and>
     mb_max_resources mb1 = mb_max_resources mb \<and> wait_tags mb1 = wait_tags mb \<and>
     (waker mb1 \<noteq> None \<or> found mb1 \<noteq> None \<longleftrightarrow> waker mb \<noteq> None \<or> found mb \<noteq> None)"
  by (auto simp: push_with_permit_def Let_def split: if_splits option.splits limit_violation.splits)

lemma recv_frame:
  "pop S ts w mb = (r, mb1) \<Longrightarrow>
     mb_capacity mb1 = mb_capacity mb \<and> mb_max_bytes mb1 = mb_max_bytes mb \<and>
     mb_max_resources mb1 = mb_max_resources mb"
  "poll S w mb = (r, mb1) \<Longrightarrow>
     mb_capacity mb1 = mb_capacity mb \<and> mb_max_bytes mb1 = mb_max_bytes mb \<and>
     mb_max_resources mb1 = mb_max_resources mb"
  by (auto simp: pop_def pop_search_def poll_def drop_permit_def restore_found_def Let_def
      split: option.splits list.splits prod.splits)

context semaphore
begin

lemma sim_push_with_permit:
  assumes rel: "queue_rel S cap mbytes mres mb q" and pos: "0 < aq_reserved q"
  shows "fst (mail_step S (OpPushReserved m) mb) = fst (queue_step cap mbytes mres (OpPushReserved m) q) \<and>
     queue_rel S cap mbytes mres (snd (mail_step S (OpPushReserved m) mb))
       (snd (queue_step cap mbytes mres (OpPushReserved m) q))"
proof -
  let ?p = "\<lparr>permit_semaphore = admission_addr mb\<rparr>"
  obtain r mb' where pw: "push_with_permit m ?p mb = (r, mb')" by fastforce
  have inv: "mailbox_inv S (Suc (aq_reserved q - 1)) mb" "wait_inv mb"
    using rel pos by (auto simp: queue_rel_def)
  show ?thesis
  proof (cases "mb_limit_violation mb m")
    case None
    then obtain w where r: "r = Inr w" and "too_big mbytes mres m = None"
      using pw rel limit_violation_too_big[of mb m]
      by (auto simp: push_with_permit_def belongs_to_def Let_def queue_rel_def
          split: option.splits if_splits)
    then show ?thesis
      using pw rel op_frame[OF pw] push_with_permit_inv[OF inv(1)] push_with_permit_refines[OF _ inv(1)]
        push_with_permit_wait_inv[OF pw inv(2,1)]
      by (auto simp: queue_rel_def push_obs_def split: option.splits)
  next
    case (Some v)
    then show ?thesis
      using pw rel limit_violation_too_big[of mb m, symmetric]
      by (cases v) (auto simp: push_with_permit_def belongs_to_def queue_rel_def push_obs_def)
  qed
qed

lemma slot_free_iff:
  "queue_rel S cap mbytes mres mb q \<Longrightarrow>
     try_reserve S mb = None \<longleftrightarrow> \<not> length (aq_items q) + aq_reserved q < cap"
  using length_mb_view[of mb]
  by (auto simp: queue_rel_def mailbox_inv_def try_reserve_def acquire_None split: option.splits
      dest!: acquire_available)

lemma sim_reserve:
  assumes rel: "queue_rel S cap mbytes mres mb q" and "try_reserve S mb = Some (p, mb')"
  shows "queue_rel S cap mbytes mres mb' (q\<lparr>aq_reserved := Suc (aq_reserved q)\<rparr>) \<and>
    p = \<lparr>permit_semaphore = admission_addr mb'\<rparr>"
  using assms try_reserve_inv[of "aq_reserved q" mb]
  by (auto simp: queue_rel_def try_reserve_def wait_inv_def split: option.splits)

lemma sim_push:
  assumes rel: "queue_rel S cap mbytes mres mb q"
  shows "fst (mail_step S (OpPush m) mb) = fst (queue_step cap mbytes mres (OpPush m) q) \<and>
     queue_rel S cap mbytes mres (snd (mail_step S (OpPush m) mb))
       (snd (queue_step cap mbytes mres (OpPush m) q))"
proof (cases "mb_limit_violation mb m")
  case (Some v)
  then show ?thesis
    using rel limit_violation_too_big[of mb m, symmetric]
    by (cases v) (auto simp: push_def queue_rel_def push_obs_def)
next
  case None
  then have big: "too_big mbytes mres m = None"
    using rel limit_violation_too_big[of mb m] by (simp add: queue_rel_def)
  show ?thesis
  proof (cases "try_reserve S mb")
    case None
    then show ?thesis
      using big rel slot_free_iff[OF rel] \<open>mb_limit_violation mb m = None\<close>
      by (simp add: push_def push_obs_def)
  next
    case (Some pm)
    then obtain p mb' where tr: "try_reserve S mb = Some (p, mb')" by (cases pm) auto
    note rel' = sim_reserve[OF rel tr]
    show ?thesis
      using sim_push_with_permit[OF rel'[THEN conjunct1], of m] rel' tr big slot_free_iff[OF rel]
        \<open>mb_limit_violation mb m = None\<close>
      by (auto simp: push_def)
  qed
qed

lemma sim_pop:
  assumes rel: "queue_rel S cap mbytes mres mb q"
  shows "fst (mail_step S (OpPop ts w) mb) = fst (queue_step cap mbytes mres (OpPop ts w) q) \<and>
     queue_rel S cap mbytes mres (snd (mail_step S (OpPop ts w) mb))
       (snd (queue_step cap mbytes mres (OpPop ts w) q))"
proof -
  obtain r mb' where p: "pop S ts w mb = (r, mb')" by fastforce
  then show ?thesis
    using rel pop_refines[OF p] pop_inv[OF _ p, of "aq_reserved q"] recv_frame(1)[OF p]
      pop_wait_inv[OF p, of "aq_reserved q"]
    by (cases r) (auto simp: queue_rel_def)
qed

lemma sim_poll:
  assumes rel: "queue_rel S cap mbytes mres mb q" and "aq_waiting q \<noteq> None"
  shows "fst (mail_step S (OpPoll w) mb) = fst (queue_step cap mbytes mres (OpPoll w) q) \<and>
     queue_rel S cap mbytes mres (snd (mail_step S (OpPoll w) mb))
       (snd (queue_step cap mbytes mres (OpPoll w) q))"
proof -
  obtain r mb' where p: "poll S w mb = (r, mb')" by fastforce
  from assms have "waker mb \<noteq> None \<or> found mb \<noteq> None" "aq_waiting q = Some (wait_tags mb)"
    by (auto simp: queue_rel_def split: option.splits)
  then show ?thesis
    using rel p poll_refines[OF p, of "aq_reserved q"] poll_inv[OF _ p, of "aq_reserved q"]
      recv_frame(2)[OF p] poll_wait_inv[OF p, of "aq_reserved q"]
    by (cases r) (auto simp: queue_rel_def)
qed

lemma drop_permit_frame [simp]:
  "wait_tags (drop_permit S mb) = wait_tags mb" "waker (drop_permit S mb) = waker mb"
  "found (drop_permit S mb) = found mb" "mb_capacity (drop_permit S mb) = mb_capacity mb"
  "mb_max_bytes (drop_permit S mb) = mb_max_bytes mb"
  "mb_max_resources (drop_permit S mb) = mb_max_resources mb"
  "wait_inv (drop_permit S mb) = wait_inv mb"
  by (auto simp: drop_permit_def wait_inv_def split: option.splits)

lemma sim_drop:
  assumes "queue_rel S cap mbytes mres mb q" "0 < aq_reserved q"
  shows "queue_rel S cap mbytes mres (drop_permit S mb) (q\<lparr>aq_reserved := aq_reserved q - 1\<rparr>)"
  using assms drop_permit_inv[of "aq_reserved q - 1" mb]
  by (auto simp: queue_rel_def split: option.splits)

end

sublocale semaphore \<subseteq> queue_sim: simulation "mail_step S" "queue_step cap mbytes mres" op_ok
    "queue_rel S cap mbytes mres" for cap mbytes mres
proof
  fix c a op
  assume rel: "queue_rel S cap mbytes mres c a" and ok: "op_ok op a"
  show "fst (mail_step S op c) = fst (queue_step cap mbytes mres op a) \<and>
    queue_rel S cap mbytes mres (snd (mail_step S op c)) (snd (queue_step cap mbytes mres op a))"
  proof (cases op)
    case OpReserve
    then show ?thesis
      using rel slot_free_iff[OF rel] sim_reserve[OF rel] by (auto split: option.splits)
  next
    case OpCancel
    then show ?thesis using rel by (auto simp: queue_rel_def split: option.splits)
  qed (use rel ok sim_push[OF rel] sim_push_with_permit[OF rel] sim_drop[OF rel] sim_pop[OF rel]
      sim_poll[OF rel] in auto)
qed

section \<open>Properties of the mailbox\<close>

definition empty_queue :: abs_queue where
  "empty_queue = \<lparr>aq_items = [], aq_waiting = None, aq_reserved = 0\<rparr>"

context semaphore
begin

lemmas mail_run_sim = queue_sim.run_sim

lemma queue_rel_init:
  "queue_rel S cap mbytes mres (mailbox_with_limits S addr cap mbytes mres) empty_queue"
  using mailbox_with_limits_inv[of addr cap mbytes mres]
  by (simp add: queue_rel_def empty_queue_def mb_view_def wait_inv_def restore_found_def
      mailbox_with_limits_def)

end

text \<open>
  C1.  The mailbox is a bounded queue with selective receive.  For every sequence of pushes,
  reservations, reserved pushes, dropped reservations, receives (with or without tags), re-polls of
  the pending receive and cancellations, a fresh mailbox answers exactly as the abstract queue does:
  the same pushes are accepted, the same are rejected for size, resources or lack of a slot, and
  every receive gets the first matching message in arrival order.
\<close>

theorem mailbox_refines_queue:
  assumes "semaphore S" "run_allowed op_ok (queue_step cap mbytes mres) ops empty_queue"
  shows "fst (run_ops (mail_step S) ops (mailbox_with_limits S addr cap mbytes mres)) =
         fst (run_ops (queue_step cap mbytes mres) ops empty_queue)"
  using semaphore.mail_run_sim[OF assms(1) semaphore.queue_rel_init[OF assms(1)] assms(2)] by blast

text \<open>A trace with a full mailbox, a selective receive and a cancelled receive.\<close>

definition sample_ops :: "mail_op list" where
  "sample_ops =
     [OpPush (LinkDied (Some 7)), OpPush (LinkDied None), OpPush (LinkDied (Some 9)),
      OpPop (Some [9]) 1, OpCancel, OpPop None 1, OpReserve, OpPop (Some [9]) 1,
      OpPushReserved (LinkDied (Some 9)), OpPoll 1, OpReserve, OpPop (Some [4]) 2,
      OpPushReserved (LinkDied (Some 4)), OpCancel, OpPop None 2, OpReserve]"

theorem mailbox_refines_queue_witness:
  "fst (run_ops (mail_step counting_semaphore) sample_ops (mailbox_with_limits counting_semaphore 0 2 64 4)) =
     fst (run_ops (queue_step 2 64 4) sample_ops empty_queue) \<and>
   run_allowed op_ok (queue_step 2 64 4) sample_ops empty_queue"
proof -
  have "run_allowed op_ok (queue_step 2 64 4) sample_ops empty_queue" by code_simp
  then show ?thesis
    using mailbox_refines_queue[OF counting.semaphore_axioms] by blast
qed

text \<open>
  C2.  Slots are conserved.  After any sequence of operations the free slots, the stored messages and
  the reservations still held add up to the capacity; hence the mailbox never holds more messages
  than its capacity, and none that exceeds its limits.
\<close>

theorem mailbox_slots_conserved:
  assumes "semaphore S" "run_allowed op_ok (queue_step cap mbytes mres) ops empty_queue"
    "run_ops (mail_step S) ops (mailbox_with_limits S addr cap mbytes mres) = (obs, mb)"
    "run_ops (queue_step cap mbytes mres) ops empty_queue = (obs', q)"
  shows "mailbox_available_capacity S mb + mailbox_len mb + aq_reserved q = cap \<and>
    mb_view mb = aq_items q \<and> mailbox_len mb = length (mb_view mb) \<and>
    (\<forall>m \<in> set (mb_view mb). too_big mbytes mres m = None)"
proof -
  have rel: "queue_rel S cap mbytes mres mb q"
    using semaphore.mail_run_sim[OF assms(1) semaphore.queue_rel_init[OF assms(1)] assms(2), of addr] assms(3,4)
    by simp
  moreover have "too_big mbytes mres m = None" if "m \<in> set (mb_view mb)" for m
  proof -
    have "list_all (permit_ok mb) (messages (restore_found mb))"
      using rel restore_found_inv[of S "aq_reserved q" mb] by (simp add: queue_rel_def mailbox_inv_def)
    then show ?thesis
      using that rel limit_violation_too_big[of mb m]
      by (auto simp: mb_view_def list_all_iff permit_ok_def queue_rel_def)
  qed
  ultimately show ?thesis
    by (auto simp: queue_rel_def mailbox_inv_def mailbox_available_capacity_def simp flip: length_mb_view)
qed

theorem mailbox_slots_conserved_witness:
  "mailbox_available_capacity counting_semaphore
     (snd (run_ops (mail_step counting_semaphore) sample_ops (mailbox_with_limits counting_semaphore 0 2 64 4))) +
   mailbox_len
     (snd (run_ops (mail_step counting_semaphore) sample_ops (mailbox_with_limits counting_semaphore 0 2 64 4))) +
   aq_reserved (snd (run_ops (queue_step 2 64 4) sample_ops empty_queue)) = 2"
proof -
  have "run_allowed op_ok (queue_step 2 64 4) sample_ops empty_queue" by code_simp
  then show ?thesis
    using mailbox_slots_conserved[OF counting.semaphore_axioms _ prod.collapse[symmetric] prod.collapse[symmetric]]
    by blast
qed

text \<open>
  C3.  A receive removes the oldest message that matches its tags and disturbs nothing else: the
  other matching messages keep their order, and so do those that do not match.
\<close>

theorem pop_takes_first_match:
  assumes "pop S ts w mb = (Some m, mb')"
  shows "filter (tags_match ts) (mb_view mb) = m # filter (tags_match ts) (mb_view mb') \<and>
    filter (\<lambda>x. \<not> tags_match ts x) (mb_view mb') = filter (\<lambda>x. \<not> tags_match ts x) (mb_view mb)"
  using queue_recv_Some[OF pop_refines[OF assms]] .

definition sample_mailbox :: "nat mailbox" where
  "sample_mailbox =
     snd (push counting_semaphore (LinkDied (Some 9)) (snd (push counting_semaphore (LinkDied (Some 7))
       (mailbox_with_limits counting_semaphore 0 2 64 4))))"

theorem pop_takes_first_match_witness:
  "filter (tags_match (Some [9])) (mb_view sample_mailbox) =
     LinkDied (Some 9) # filter (tags_match (Some [9]))
       (mb_view (snd (pop counting_semaphore (Some [9]) 1 sample_mailbox)))"
proof -
  have "fst (pop counting_semaphore (Some [9]) 1 sample_mailbox) = Some (LinkDied (Some 9))" by code_simp
  then show ?thesis
    using pop_takes_first_match[of counting_semaphore "Some [9]" 1 sample_mailbox "LinkDied (Some 9)"]
    by (metis prod.collapse)
qed

text \<open>
  C4.  No wake-up is lost once the receiver is registered.  While a receive is pending with its waker
  registered, the first push of a matching message wakes that waker, and the next poll returns
  exactly that message, whatever was queued or pushed before and after it.
\<close>

theorem registered_receiver_is_woken:
  assumes "mailbox_inv S (Suc out) mb" "waker mb = Some w" "tags_match (wait_tags mb) m"
    "mb_limit_violation mb m = None" "belongs_to p mb"
  shows "\<exists>mb1. push_with_permit m p mb = (Inr (Some w), mb1) \<and> mb_view mb1 = mb_view mb @ [m] \<and>
    fst (poll S w' mb1) = Some m \<and>
    (\<forall>m' p'. fst (poll S w' (snd (push_with_permit m' p' mb1))) = Some m)"
proof -
  from assms(2-5) have "push_with_permit m p mb =
      (Inr (Some w), mb\<lparr>waker := None, found := Some (length (messages mb), \<lparr>adm_message = m, adm_permit = p\<rparr>)\<rparr>)"
    unfolding push_with_permit_def wait_tags_match by (simp add: Let_def)
  then show ?thesis
    using push_with_permit_refines[OF _ assms(1)]
    by (auto simp: push_with_permit_def[of "_ :: message" _ "_ \<lparr>found := _\<rparr>"] poll_def Let_def
        split: option.splits limit_violation.splits)
qed

definition waiting_mailbox :: "nat mailbox" where
  "waiting_mailbox =
     snd (pop counting_semaphore (Some [9]) 1 (snd (the (try_reserve counting_semaphore
       (mailbox_with_limits counting_semaphore 0 2 64 4)))))"

theorem registered_receiver_is_woken_witness:
  "\<exists>mb1. push_with_permit (LinkDied (Some 9)) \<lparr>permit_semaphore = 0\<rparr> waiting_mailbox = (Inr (Some 1), mb1) \<and>
     fst (poll counting_semaphore 5 mb1) = Some (LinkDied (Some 9))"
proof -
  have "mailbox_inv counting_semaphore (Suc 0) waiting_mailbox" "waker waiting_mailbox = Some 1"
    "tags_match (wait_tags waiting_mailbox) (LinkDied (Some 9))"
    "mb_limit_violation waiting_mailbox (LinkDied (Some 9)) = None"
    "belongs_to \<lparr>permit_semaphore = 0\<rparr> waiting_mailbox"
    by code_simp+
  from registered_receiver_is_woken[OF this] show ?thesis by blast
qed

text \<open>Pushing a batch, which must be accepted as a whole.\<close>

fun push_all :: "'s semaphore_ops \<Rightarrow> message list \<Rightarrow> 's mailbox \<Rightarrow> 's mailbox option" where
  "push_all S [] mb = Some mb"
| "push_all S (m # ms) mb =
     (case push S m mb of (Inr _, mb') \<Rightarrow> push_all S ms mb' | (Inl _, _) \<Rightarrow> None)"

context semaphore
begin

lemma push_accepted:
  assumes "mailbox_inv S out mb" "push S m mb = (Inr w, mb')"
  shows "mb_view mb' = mb_view mb @ [m] \<and> mailbox_inv S out mb' \<and>
    admission_addr mb' = admission_addr mb \<and> permit_ok mb' = permit_ok mb"
proof (cases rule: push_cases[of m mb])
  case 1
  then show ?thesis using assms by simp
next
  case (2 p mb1 w1 mb2)
  have fr: "mb_view mb1 = mb_view mb" "admission_addr mb1 = admission_addr mb" "permit_ok mb1 = permit_ok mb"
    using 2(1) by (auto simp: try_reserve_def split: option.splits)
  have "admission_addr mb2 = admission_addr mb1" "permit_ok mb2 = permit_ok mb1"
    using 2(2) by (auto simp: push_with_permit_def Let_def split: if_splits option.splits limit_violation.splits)
  then show ?thesis
    using 2 fr assms push_with_permit_refines[OF 2(2)] push_inv[OF assms]
      try_reserve_inv[OF assms(1) 2(1)] by auto
qed

lemma push_all_accepted:
  "mailbox_inv S out mb \<Longrightarrow> push_all S ms mb = Some mb' \<Longrightarrow>
     mb_view mb' = mb_view mb @ ms \<and> mailbox_inv S out mb' \<and>
     admission_addr mb' = admission_addr mb \<and> permit_ok mb' = permit_ok mb"
proof (induction ms arbitrary: mb)
  case (Cons m ms)
  then obtain w mb1 where "push S m mb = (Inr w, mb1)" "push_all S ms mb1 = Some mb'"
    by (auto split: prod.splits sum.splits)
  then show ?case using push_accepted[OF Cons.prems(1)] Cons.IH[of mb1] by auto
qed simp

end

text \<open>
  C12.  Hot reload loses and reorders no message: the snapshot empties the mailbox, messages pushed
  while it is held are accepted into the same capacity, and restoring puts the snapshot back in front
  of them, with every slot accounted for.
\<close>

theorem snapshot_restore_roundtrip:
  assumes "semaphore S" "mailbox_inv S out mb" "snapshot mb = (sn, mb1)"
    "push_all S ms mb1 = Some mb2"
  shows "mailbox_is_empty mb1 \<and>
    (\<exists>mb3. restore sn mb2 = Inr mb3 \<and> mb_view mb3 = mb_view mb @ ms \<and> mailbox_inv S out mb3)"
proof -
  have sn: "mailbox_inv S (out + length (snap_messages sn)) mb1" "list_all (permit_ok mb) (snap_messages sn)"
    "admission_addr mb1 = snap_addr sn" "permit_ok mb1 = permit_ok mb"
    "map adm_message (snap_messages sn) = mb_view mb" "mb_view mb1 = []" "mailbox_is_empty mb1"
    using semaphore.snapshot_inv[OF assms(1-3)] assms(3)
    by (auto simp: snapshot_def Let_def mb_view_def mailbox_is_empty_def restore_found_def
        split: option.splits)
  note pa = semaphore.push_all_accepted[OF assms(1) sn(1) assms(4)]
  have "\<exists>mb3. restore sn mb2 = Inr mb3 \<and> mb_view mb3 = map adm_message (snap_messages sn) @ mb_view mb2"
    using pa sn(3) by (auto simp: restore_def Let_def mb_view_def restore_found_def split: option.splits)
  then show ?thesis
    using pa sn semaphore.restore_inv[OF assms(1), of out sn mb2] by auto
qed

definition roomy_mailbox :: "nat mailbox" where
  "roomy_mailbox =
     snd (push counting_semaphore (LinkDied (Some 7)) (mailbox_with_limits counting_semaphore 0 2 64 4))"

theorem snapshot_restore_roundtrip_witness:
  "\<exists>mb3. restore (fst (snapshot roomy_mailbox))
       (the (push_all counting_semaphore [LinkDied None] (snd (snapshot roomy_mailbox)))) = Inr mb3 \<and>
     mb_view mb3 = [LinkDied (Some 7), LinkDied None]"
proof -
  have "mailbox_inv counting_semaphore 0 roomy_mailbox" "mb_view roomy_mailbox = [LinkDied (Some 7)]"
    by code_simp+
  moreover have "push_all counting_semaphore [LinkDied None] (snd (snapshot roomy_mailbox)) =
      Some (the (push_all counting_semaphore [LinkDied None] (snd (snapshot roomy_mailbox))))"
    by code_simp
  ultimately show ?thesis
    using snapshot_restore_roundtrip[OF counting.semaphore_axioms _ prod.collapse[symmetric],
        of 0 roomy_mailbox] by fastforce
qed

text \<open>
  A push fails in exactly the three documented cases and then changes nothing: the mailbox is
  as before and the error hands the original message back.
\<close>

theorem push_error_cases:
  assumes "semaphore S"
  shows "(case push S m mb of
      (Inl e, mb') \<Rightarrow> mb' = mb \<and> push_error_into_message e = m \<and>
        (too_big (mb_max_bytes mb) (mb_max_resources mb) m = Some (push_error_kind_of e) \<or>
         too_big (mb_max_bytes mb) (mb_max_resources mb) m = None \<and> push_error_kind_of e = KFull \<and>
         mailbox_available_capacity S mb = 0)
    | (Inr w, mb') \<Rightarrow> too_big (mb_max_bytes mb) (mb_max_resources mb) m = None \<and>
        Suc (mailbox_available_capacity S mb') = mailbox_available_capacity S mb)"
proof (cases rule: semaphore.push_cases[OF assms, of m mb])
  case (1 e)
  then show ?thesis
    using limit_violation_too_big[of mb m, symmetric] semaphore.acquire_None[OF assms, of "admission mb"]
    by (auto simp: push_def try_reserve_def mailbox_available_capacity_def
        split: option.splits limit_violation.splits prod.splits)
next
  case (2 p mb' w mb'')
  then show ?thesis
    using limit_violation_too_big[of mb' m, symmetric] semaphore.acquire_available[OF assms, of "admission mb"]
    by (auto simp: try_reserve_def mailbox_available_capacity_def push_with_permit_def Let_def
        split: option.splits limit_violation.splits if_splits)
qed

theorem push_error_cases_witness:
  "fst (push counting_semaphore (LinkDied None) sample_mailbox) = Inl (Full (LinkDied None)) \<and>
   snd (push counting_semaphore (LinkDied None) sample_mailbox) = sample_mailbox"
proof -
  have "fst (push counting_semaphore (LinkDied None) sample_mailbox) = Inl (Full (LinkDied None))" by code_simp
  then show ?thesis
    using push_error_cases[OF counting.semaphore_axioms, of sample_mailbox "LinkDied None"]
    by (auto split: prod.splits sum.splits)
qed

text \<open>
  C13.  The head of \<open>pop\<close> releases the mailbox lock before its \<open>.await\<close>.  A monitor notification
  delivered by the task of the dying process exactly in between finds no registered waker and is
  queued; the poll that follows does not look at the queue again.  The receive is then pending with
  a matching message in the mailbox.
\<close>

theorem notification_between_search_and_poll:
  assumes "mailbox_is_empty mb" "waker mb = None" "belongs_to p mb"
  shows "\<exists>mb1 mb2 mb3.
    pop_search S None mb = (None, mb1) \<and>
    push_with_permit (ProcessDied pid reason) p mb1 = (Inr None, mb2) \<and>
    poll S w mb2 = (None, mb3) \<and> waker mb3 = Some w \<and>
    mb_view mb3 = [ProcessDied pid reason] \<and> tags_match (wait_tags mb3) (ProcessDied pid reason)"
  using assms
  by (simp add: mailbox_is_empty_def pop_search_def restore_found_def push_with_permit_def belongs_to_def
      mb_limit_violation_def poll_def mb_view_def tags_match_def Let_def)

theorem notification_between_search_and_poll_witness:
  "\<exists>mb1 mb2 mb3.
    pop_search counting_semaphore None (mailbox_new counting_semaphore 3 4) = (None, mb1) \<and>
    push_with_permit (ProcessDied 5 Failure) \<lparr>permit_semaphore = 3\<rparr> mb1 = (Inr None, mb2) \<and>
    poll counting_semaphore 1 mb2 = (None, mb3) \<and> mb_view mb3 = [ProcessDied 5 Failure]"
  using notification_between_search_and_poll[of "mailbox_new counting_semaphore 3 4" "\<lparr>permit_semaphore = 3\<rparr>"
      counting_semaphore 5 Failure 1]
  by (auto simp: mailbox_is_empty_def mailbox_new_def mailbox_with_limits_def belongs_to_def)

end
