(* ===== verification/Dist_Registry.thy ===== *)
theory Dist_Registry
  imports Prelude "HOL-Library.Multiset" "HOL-Library.List_Lexorder" "HOL-Library.Product_Lexorder"
begin

text \<open>
  \<open>lunatic-distributed/src/distributed/registry.rs\<close> and \<open>global_process_id.rs\<close>: process names of
  the cluster.  Local and global names are two namespaces with one resource account and one reverse
  index from processes to their names.  All of it is behind one lock, so every method is one step.
  A Rust \<open>expect\<close> in the accounting is the result \<open>None\<close> of \<open>remove_scoped_registration\<close>; the
  invariant shows that it is never reached.
\<close>

section \<open>Global process identifiers\<close>

record global_process_id =
  node_id :: u64
  environment_id :: u64
  process_id :: u64

definition max_node_id :: u64 where
  "max_node_id = 0xFFFFFFFFFF"

definition gpid_is_local :: "global_process_id \<Rightarrow> u64 \<Rightarrow> bool" where
  "gpid_is_local g current \<longleftrightarrow> node_id g = current"

unbundle bit_operations_syntax

definition to_compact :: "global_process_id \<Rightarrow> 128 word" where
  "to_compact g =
     (push_bit 88 (ucast (node_id g)) OR push_bit 48 (ucast (environment_id g))) OR ucast (process_id g)"

definition from_compact :: "128 word \<Rightarrow> global_process_id" where
  "from_compact c =
     \<lparr>node_id = ucast (drop_bit 88 c AND ucast max_node_id),
      environment_id = ucast (drop_bit 48 c AND 0xFFFFFFFFFF),
      process_id = ucast (c AND 0xFFFFFFFFFFFF)\<rparr>"

section \<open>Names, limits and entries\<close>

text \<open>A Rust \<open>String\<close> as its Unicode scalar values; \<open>len\<close> is the length of its UTF-8 encoding.\<close>

type_synonym process_name = "nat list"

definition utf8_len :: "nat \<Rightarrow> nat" where
  "utf8_len c = (if c < 0x80 then 1 else if c < 0x800 then 2 else if c < 0x10000 then 3 else 4)"

definition name_len :: "process_name \<Rightarrow> usize" where
  "name_len n = sum_list (map utf8_len n)"

text \<open>\<open>char::is_control\<close>: the general category Cc.\<close>

definition is_control :: "nat \<Rightarrow> bool" where
  "is_control c \<longleftrightarrow> c < 0x20 \<or> 0x7F \<le> c \<and> c < 0xA0"

record registry_limits =
  max_name_bytes :: usize
  max_entries :: usize
  max_retained_bytes :: usize
  max_name_locks :: usize
  max_pending_responses :: usize
  max_topology_nodes :: usize

definition default_registry_limits :: registry_limits where
  "default_registry_limits =
     \<lparr>max_name_bytes = 1024, max_entries = 16384, max_retained_bytes = 4 * 1024 * 1024,
      max_name_locks = 1024, max_pending_responses = 4096, max_topology_nodes = 1024\<rparr>"

record registry_usage =
  usage_entries :: usize
  usage_bytes :: usize

datatype registration_scope = Local | Global

record registry_entry =
  global_pid :: global_process_id
  entry_scope :: registration_scope
  registered_at :: u64

type_synonym scoped_name = "registration_scope \<times> process_name"

record registry_state =
  local_reg :: "(process_name, registry_entry) hmap"
  global_reg :: "(process_name, registry_entry) hmap"
  reverse_reg :: "(global_process_id, scoped_name list) hmap"
  reg_usage :: registry_usage

definition registry_state_default :: registry_state where
  "registry_state_default =
     \<lparr>local_reg = [], global_reg = [], reverse_reg = [],
      reg_usage = \<lparr>usage_entries = 0, usage_bytes = 0\<rparr>\<rparr>"

lemma scope_not [simp]: "s \<noteq> Local \<longleftrightarrow> s = Global" "s \<noteq> Global \<longleftrightarrow> s = Local"
  by (cases s; simp)+

text \<open>The error types the callers tell apart by \<open>downcast_ref\<close>.\<close>

datatype registry_error = CapacityError | InvalidName | NameConflict | NameNotRegistered | DuplicateName

datatype audit_result = Succeeded | Denied | Failed
datatype audit_reason = Completed | QuotaExceeded | InvalidInput | Conflict | NotFound
datatype audit_action = Register | Unregister

record audit_change =
  audit_action :: audit_action
  audit_pid :: "global_process_id option"
  audit_result :: audit_result
  audit_reason :: audit_reason

definition registration_audit_outcome :: "registry_error + unit \<Rightarrow> audit_result \<times> audit_reason" where
  "registration_audit_outcome r =
     (case r of
        Inr _ \<Rightarrow> (Succeeded, Completed)
      | Inl CapacityError \<Rightarrow> (Denied, QuotaExceeded)
      | Inl InvalidName \<Rightarrow> (Denied, InvalidInput)
      | Inl _ \<Rightarrow> (Denied, Conflict))"

section \<open>Helpers\<close>

definition validate_name :: "registry_limits \<Rightarrow> process_name \<Rightarrow> registry_error + unit" where
  "validate_name L n =
     (if n = [] then Inl InvalidName
      else if list_ex is_control n then Inl InvalidName
      else if max_name_bytes L < name_len n then Inl CapacityError
      else Inr ())"

definition retained_bytes_for_name :: "process_name \<Rightarrow> registry_error + usize" where
  "retained_bytes_for_name n = ok_or CapacityError (checked_mul_usize (name_len n) 2)"

fun retained_bytes_for_names :: "usize \<Rightarrow> process_name list \<Rightarrow> registry_error + usize" where
  "retained_bytes_for_names acc [] = Inr acc"
| "retained_bytes_for_names acc (n # ns) =
     and_then (retained_bytes_for_name n) (\<lambda>b.
     and_then (ok_or CapacityError (checked_add_usize acc b)) (\<lambda>acc'. retained_bytes_for_names acc' ns))"

definition usage_after_add ::
  "registry_limits \<Rightarrow> registry_usage \<Rightarrow> process_name \<Rightarrow> registry_error + registry_usage" where
  "usage_after_add L u n =
     and_then (ok_or CapacityError (checked_add_usize (usage_entries u) 1)) (\<lambda>entries.
     and_then (ensure (entries \<le> max_entries L) CapacityError) (\<lambda>_.
     and_then (retained_bytes_for_name n) (\<lambda>b.
     and_then (ok_or CapacityError (checked_add_usize (usage_bytes u) b)) (\<lambda>retained.
     and_then (ensure (retained \<le> max_retained_bytes L) CapacityError) (\<lambda>_.
       Inr \<lparr>usage_entries = entries, usage_bytes = retained\<rparr>)))))"

definition add_to_reverse_map ::
  "(global_process_id, scoped_name list) hmap \<Rightarrow> global_process_id \<Rightarrow> registration_scope \<Rightarrow> process_name
     \<Rightarrow> (global_process_id, scoped_name list) hmap" where
  "add_to_reverse_map rv pid scope n =
     hm_insert pid (List.insert (scope, n) (case hm_get rv pid of None \<Rightarrow> [] | Some l \<Rightarrow> l)) rv"

definition add_reverse_mapping ::
  "global_process_id \<Rightarrow> registration_scope \<Rightarrow> process_name \<Rightarrow> registry_state \<Rightarrow> registry_state" where
  "add_reverse_mapping pid scope n st =
     st\<lparr>reverse_reg := add_to_reverse_map (reverse_reg st) pid scope n\<rparr>"

definition remove_reverse_mapping ::
  "global_process_id \<Rightarrow> registration_scope \<Rightarrow> process_name \<Rightarrow> registry_state \<Rightarrow> registry_state" where
  "remove_reverse_mapping pid scope n st =
     (case hm_get (reverse_reg st) pid of
        None \<Rightarrow> st
      | Some l \<Rightarrow>
          (let l' = removeAll (scope, n) l in
           st\<lparr>reverse_reg :=
                (if l' = [] then hm_remove pid (reverse_reg st) else hm_insert pid l' (reverse_reg st))\<rparr>))"

definition scoped_entries :: "registration_scope \<Rightarrow> registry_state \<Rightarrow> (process_name, registry_entry) hmap" where
  "scoped_entries scope st = (case scope of Local \<Rightarrow> local_reg st | Global \<Rightarrow> global_reg st)"

definition set_scoped_entries ::
  "registration_scope \<Rightarrow> (process_name, registry_entry) hmap \<Rightarrow> registry_state \<Rightarrow> registry_state" where
  "set_scoped_entries scope m st =
     (case scope of Local \<Rightarrow> st\<lparr>local_reg := m\<rparr> | Global \<Rightarrow> st\<lparr>global_reg := m\<rparr>)"

text \<open>\<open>None\<close>: one of the three \<open>expect\<close>s fails.\<close>

definition remove_scoped_registration ::
  "registration_scope \<Rightarrow> process_name \<Rightarrow> global_process_id option \<Rightarrow> registry_state
     \<Rightarrow> (registry_entry option \<times> registry_state) option" where
  "remove_scoped_registration scope n expected_pid st =
     (case hm_get (scoped_entries scope st) n of
        None \<Rightarrow> Some (None, st)
      | Some entry \<Rightarrow>
          if expected_pid \<noteq> None \<and> global_pid entry \<noteq> the expected_pid then Some (None, st)
          else
            (let st1 = set_scoped_entries scope (hm_remove n (scoped_entries scope st)) st;
                 st2 = remove_reverse_mapping (global_pid entry) scope n st1
             in case checked_mul_usize (name_len n) 2 of
                  None \<Rightarrow> None
                | Some b \<Rightarrow>
                    (case (checked_sub_usize (usage_entries (reg_usage st2)) 1,
                           checked_sub_usize (usage_bytes (reg_usage st2)) b) of
                       (Some e, Some r) \<Rightarrow>
                         Some (Some entry, st2\<lparr>reg_usage := \<lparr>usage_entries = e, usage_bytes = r\<rparr>\<rparr>)
                     | _ \<Rightarrow> None)))"

definition scope_order :: "registration_scope \<Rightarrow> nat" where
  "scope_order s = (case s of Local \<Rightarrow> 0 | Global \<Rightarrow> 1)"

section \<open>Operations\<close>

text \<open>Registration in either namespace; the time is read from the clock by the caller.\<close>

definition insert_local_if_absent ::
  "registry_limits \<Rightarrow> u64 \<Rightarrow> process_name \<Rightarrow> global_process_id \<Rightarrow> registry_state
     \<Rightarrow> (registry_error + unit) \<times> registry_state" where
  "insert_local_if_absent L now n pid st =
     (case and_then (validate_name L n) (\<lambda>_.
           and_then (ensure (hm_get (local_reg st) n = None) NameConflict) (\<lambda>_.
           usage_after_add L (reg_usage st) n)) of
        Inl e \<Rightarrow> (Inl e, st)
      | Inr u \<Rightarrow>
          (let entry = \<lparr>global_pid = pid, entry_scope = Local, registered_at = now\<rparr>;
               st1 = st\<lparr>local_reg := hm_insert n entry (local_reg st)\<rparr>;
               st2 = add_reverse_mapping pid Local n st1
           in (Inr (), st2\<lparr>reg_usage := u\<rparr>)))"

definition register_local ::
  "registry_limits \<Rightarrow> u64 \<Rightarrow> process_name \<Rightarrow> global_process_id \<Rightarrow> registry_state
     \<Rightarrow> (registry_error + unit) \<times> audit_change \<times> registry_state" where
  "register_local L now n pid st =
     (case insert_local_if_absent L now n pid st of
        (r, st') \<Rightarrow>
          (case registration_audit_outcome r of
             (ar, rs) \<Rightarrow>
               (r, \<lparr>audit_action = Register, audit_pid = Some pid, audit_result = ar, audit_reason = rs\<rparr>,
                st')))"

definition register_global_untracked ::
  "registry_limits \<Rightarrow> u64 \<Rightarrow> process_name \<Rightarrow> global_process_id \<Rightarrow> registry_state
     \<Rightarrow> (registry_error + unit) \<times> registry_state" where
  "register_global_untracked L now n pid st =
     (case and_then (validate_name L n) (\<lambda>_.
           and_then (ensure (hm_get (global_reg st) n = None) NameConflict) (\<lambda>_.
           usage_after_add L (reg_usage st) n)) of
        Inl e \<Rightarrow> (Inl e, st)
      | Inr u \<Rightarrow>
          (let entry = \<lparr>global_pid = pid, entry_scope = Global, registered_at = now\<rparr>;
               st1 = st\<lparr>global_reg := hm_insert n entry (global_reg st)\<rparr>;
               st2 = add_reverse_mapping pid Global n st1
           in (Inr (), st2\<lparr>reg_usage := u\<rparr>)))"

definition register_global ::
  "registry_limits \<Rightarrow> u64 \<Rightarrow> process_name \<Rightarrow> global_process_id \<Rightarrow> registry_state
     \<Rightarrow> (registry_error + unit) \<times> audit_change \<times> registry_state" where
  "register_global L now n pid st =
     (case register_global_untracked L now n pid st of
        (r, st') \<Rightarrow>
          (case registration_audit_outcome r of
             (ar, rs) \<Rightarrow>
               (r, \<lparr>audit_action = Register, audit_pid = Some pid, audit_result = ar, audit_reason = rs\<rparr>,
                st')))"

definition can_register_global ::
  "registry_limits \<Rightarrow> process_name \<Rightarrow> global_process_id \<Rightarrow> registry_state \<Rightarrow> registry_error + unit" where
  "can_register_global L n pid st =
     and_then (validate_name L n) (\<lambda>_.
       case hm_get (global_reg st) n of
         Some existing \<Rightarrow> if global_pid existing = pid then Inr () else Inl NameConflict
       | None \<Rightarrow> and_then (usage_after_add L (reg_usage st) n) (\<lambda>_. Inr ()))"

definition apply_global ::
  "registry_limits \<Rightarrow> process_name \<Rightarrow> global_process_id \<Rightarrow> u64 \<Rightarrow> registry_state
     \<Rightarrow> (registry_error + unit) \<times> registry_state" where
  "apply_global L n pid at st =
     (case and_then (validate_name L n) (\<lambda>_.
             if hm_get (global_reg st) n \<noteq> None then Inr (reg_usage st)
             else usage_after_add L (reg_usage st) n) of
        Inl e \<Rightarrow> (Inl e, st)
      | Inr u \<Rightarrow>
          (let st1 = (case hm_get (global_reg st) n of
                        None \<Rightarrow> st
                      | Some previous \<Rightarrow> remove_reverse_mapping (global_pid previous) Global n st);
               entry = \<lparr>global_pid = pid, entry_scope = Global, registered_at = at\<rparr>;
               st2 = st1\<lparr>global_reg := hm_insert n entry (global_reg st1)\<rparr>;
               st3 = add_reverse_mapping pid Global n st2
           in (Inr (), st3\<lparr>reg_usage := u\<rparr>)))"

text \<open>From here on \<open>None\<close> is the panic of \<open>remove_scoped_registration\<close>.\<close>

definition remove_global_if_owner ::
  "process_name \<Rightarrow> global_process_id \<Rightarrow> registry_state \<Rightarrow> (bool \<times> registry_state) option" where
  "remove_global_if_owner n expected st =
     map_option (\<lambda>(e, st'). (e \<noteq> None, st')) (remove_scoped_registration Global n (Some expected) st)"

text \<open>The validation loop of \<open>replace_global_snapshot\<close>.\<close>

fun build_global_snapshot ::
  "registry_limits \<Rightarrow> (process_name \<times> global_process_id \<times> u64) list
     \<Rightarrow> (process_name, registry_entry) hmap \<Rightarrow> usize
     \<Rightarrow> registry_error + (process_name, registry_entry) hmap \<times> usize" where
  "build_global_snapshot L [] new_global retained = Inr (new_global, retained)"
| "build_global_snapshot L ((n, pid, at) # es) new_global retained =
     and_then (validate_name L n) (\<lambda>_.
     and_then (retained_bytes_for_name n) (\<lambda>b.
     and_then (ok_or CapacityError (checked_add_usize retained b)) (\<lambda>retained'.
     and_then (ensure (retained' \<le> max_retained_bytes L) CapacityError) (\<lambda>_.
     and_then (ensure (hm_get new_global n = None) DuplicateName) (\<lambda>_.
       build_global_snapshot L es
         (hm_insert n \<lparr>global_pid = pid, entry_scope = Global, registered_at = at\<rparr> new_global)
         retained')))))"

definition reverse_of ::
  "registration_scope \<Rightarrow> (process_name, registry_entry) hmap
     \<Rightarrow> (global_process_id, scoped_name list) hmap \<Rightarrow> (global_process_id, scoped_name list) hmap" where
  "reverse_of scope m rv = fold (\<lambda>(n, e) r. add_to_reverse_map r (global_pid e) scope n) m rv"

definition replace_global_snapshot ::
  "registry_limits \<Rightarrow> (process_name \<times> global_process_id \<times> u64) list \<Rightarrow> registry_state
     \<Rightarrow> (registry_error + unit) \<times> registry_state" where
  "replace_global_snapshot L es st =
     (case and_then (ensure (length es \<le> max_entries L) CapacityError) (\<lambda>_.
           and_then (build_global_snapshot L es [] 0) (\<lambda>(new_global, global_retained).
           and_then (ok_or CapacityError (checked_add_usize (length (local_reg st)) (length new_global))) (\<lambda>entries.
           and_then (ensure (entries \<le> max_entries L) CapacityError) (\<lambda>_.
           and_then (retained_bytes_for_names 0 (map fst (local_reg st))) (\<lambda>local_retained.
           and_then (ok_or CapacityError (checked_add_usize local_retained global_retained)) (\<lambda>retained.
           and_then (ensure (retained \<le> max_retained_bytes L) CapacityError) (\<lambda>_.
             Inr (new_global, entries, retained)))))))) of
        Inl e \<Rightarrow> (Inl e, st)
      | Inr (new_global, entries, retained) \<Rightarrow>
          (Inr (), st\<lparr>global_reg := new_global,
                     reverse_reg := reverse_of Global new_global (reverse_of Local (local_reg st) []),
                     reg_usage := \<lparr>usage_entries = entries, usage_bytes = retained\<rparr>\<rparr>))"

definition global_snapshot :: "registry_state \<Rightarrow> (process_name \<times> global_process_id \<times> u64) list" where
  "global_snapshot st =
     sort_key fst (map (\<lambda>(n, e). (n, global_pid e, registered_at e)) (global_reg st))"

definition unregister ::
  "process_name \<Rightarrow> registry_state \<Rightarrow> ((registry_error + unit) \<times> audit_change \<times> registry_state) option" where
  "unregister n st =
     (case remove_scoped_registration Local n None st of
        None \<Rightarrow> None
      | Some (removed_local, st1) \<Rightarrow>
          (case remove_scoped_registration Global n None st1 of
             None \<Rightarrow> None
           | Some (removed_global, st2) \<Rightarrow>
               Some (case (if removed_local \<noteq> None then removed_local else removed_global) of
                  Some e \<Rightarrow>
                    (Inr (), \<lparr>audit_action = Unregister, audit_pid = Some (global_pid e),
                             audit_result = Succeeded, audit_reason = Completed\<rparr>, st2)
                | None \<Rightarrow>
                    (Inl NameNotRegistered, \<lparr>audit_action = Unregister, audit_pid = None,
                             audit_result = Failed, audit_reason = NotFound\<rparr>, st2))))"

text \<open>The removal loops: owner-conditional removal of each listed registration.\<close>

fun remove_registrations ::
  "(scoped_name \<times> global_process_id) list \<Rightarrow> registry_state
     \<Rightarrow> ((process_name \<times> registry_entry) list \<times> registry_state) option" where
  "remove_registrations [] st = Some ([], st)"
| "remove_registrations (((scope, n), pid) # rs) st =
     (case remove_scoped_registration scope n (Some pid) st of
        None \<Rightarrow> None
      | Some (r, st1) \<Rightarrow>
          (case remove_registrations rs st1 of
             None \<Rightarrow> None
           | Some (removed, st2) \<Rightarrow>
               Some (case r of None \<Rightarrow> removed | Some e \<Rightarrow> (n, e) # removed, st2)))"

definition registrations_of :: "registry_state \<Rightarrow> global_process_id \<Rightarrow> scoped_name list" where
  "registrations_of st pid = (case hm_get (reverse_reg st) pid of None \<Rightarrow> [] | Some l \<Rightarrow> l)"

definition unregister_process ::
  "global_process_id \<Rightarrow> registry_state \<Rightarrow> ((process_name \<times> registry_entry) list \<times> registry_state) option" where
  "unregister_process pid st =
     (case remove_registrations (map (\<lambda>r. (r, pid)) (registrations_of st pid)) st of
        None \<Rightarrow> None
      | Some (removed, st1) \<Rightarrow>
          Some (sort_key (\<lambda>(n, e). (n, scope_order (entry_scope e))) removed,
                st1\<lparr>reverse_reg := hm_remove pid (reverse_reg st1)\<rparr>))"

definition remove_local_registrations ::
  "global_process_id \<Rightarrow> registry_state \<Rightarrow> (process_name list \<times> registry_state) option" where
  "remove_local_registrations pid st =
     map_option (\<lambda>(removed, st1). (sort (map fst removed), st1))
       (remove_registrations
          (map (\<lambda>r. ((Local, snd r), pid)) (filter (\<lambda>r. fst r = Local) (registrations_of st pid))) st)"

definition remove_node_registrations ::
  "u64 \<Rightarrow> registry_state \<Rightarrow> (process_name list \<times> registry_state) option" where
  "remove_node_registrations nid st =
     map_option (\<lambda>(removed, st1). (map fst (sort_key fst removed), st1))
       (remove_registrations
          (map (\<lambda>(n, e). ((Global, n), global_pid e))
             (filter (\<lambda>(n, e). node_id (global_pid e) = nid) (global_reg st))) st)"

definition reg_lookup :: "process_name \<Rightarrow> registry_state \<Rightarrow> registry_entry option" where
  "reg_lookup n st =
     (case hm_get (local_reg st) n of Some e \<Rightarrow> Some e | None \<Rightarrow> hm_get (global_reg st) n)"

definition lookup_local :: "process_name \<Rightarrow> registry_state \<Rightarrow> registry_entry option" where
  "lookup_local n st = hm_get (local_reg st) n"

definition lookup_global :: "process_name \<Rightarrow> registry_state \<Rightarrow> registry_entry option" where
  "lookup_global n st = hm_get (global_reg st) n"

definition get_names :: "global_process_id \<Rightarrow> registry_state \<Rightarrow> process_name list" where
  "get_names pid st = sort (map snd (registrations_of st pid))"

definition global_names_for_process :: "global_process_id \<Rightarrow> registry_state \<Rightarrow> process_name list" where
  "global_names_for_process pid st =
     sort (map snd (filter (\<lambda>r. fst r = Global) (registrations_of st pid)))"

definition local_names :: "registry_state \<Rightarrow> process_name list" where
  "local_names st = sort (map fst (local_reg st))"

definition global_names :: "registry_state \<Rightarrow> process_name list" where
  "global_names st = sort (map fst (global_reg st))"

definition local_count :: "registry_state \<Rightarrow> usize" where
  "local_count st = length (local_reg st)"

definition global_count :: "registry_state \<Rightarrow> usize" where
  "global_count st = length (global_reg st)"

definition reg_clear :: "registry_state \<Rightarrow> registry_state" where
  "reg_clear st = registry_state_default"

section \<open>Invariant\<close>

definition reg_bytes :: "(process_name, 'v) hmap \<Rightarrow> nat" where
  "reg_bytes m = hm_weight (\<lambda>n. 2 * name_len n) m"

text \<open>The two namespaces as one map, the abstract content of the registry.\<close>

definition reg_abs :: "registry_state \<Rightarrow> scoped_name \<Rightarrow> registry_entry option" where
  "reg_abs st sn = hm_get (scoped_entries (fst sn) st) (snd sn)"

text \<open>Entries carry the scope of their namespace and a valid name.\<close>

definition entries_ok :: "registry_limits \<Rightarrow> (scoped_name \<Rightarrow> registry_entry option) \<Rightarrow> bool" where
  "entries_ok L f \<longleftrightarrow>
     (\<forall>sn e. f sn = Some e \<longrightarrow> entry_scope e = fst sn \<and> validate_name L (snd sn) = Inr ())"

text \<open>The reverse index lists exactly the registrations each process owns, and no empty sets.\<close>

definition rev_get :: "(global_process_id, scoped_name list) hmap \<Rightarrow> global_process_id \<Rightarrow> scoped_name list" where
  "rev_get rv pid = (case hm_get rv pid of None \<Rightarrow> [] | Some l \<Rightarrow> l)"

definition index_ok ::
  "(global_process_id, scoped_name list) hmap \<Rightarrow> (scoped_name \<Rightarrow> registry_entry option) \<Rightarrow> bool" where
  "index_ok rv f \<longleftrightarrow> hm_wf rv \<and>
     (\<forall>pid sn. sn \<in> set (rev_get rv pid) \<longleftrightarrow> (\<exists>e. f sn = Some e \<and> global_pid e = pid)) \<and>
     (\<forall>pid l. hm_get rv pid = Some l \<longrightarrow> l \<noteq> [] \<and> distinct l)"

definition usage_ok :: "registry_limits \<Rightarrow> registry_state \<Rightarrow> bool" where
  "usage_ok L st \<longleftrightarrow>
     usage_entries (reg_usage st) = length (local_reg st) + length (global_reg st) \<and>
     usage_bytes (reg_usage st) = reg_bytes (local_reg st) + reg_bytes (global_reg st) \<and>
     usage_entries (reg_usage st) \<le> max_entries L \<and> usage_bytes (reg_usage st) \<le> max_retained_bytes L \<and>
     usage_entries (reg_usage st) \<le> usize_max \<and> usage_bytes (reg_usage st) \<le> usize_max"

definition reg_inv :: "registry_limits \<Rightarrow> registry_state \<Rightarrow> bool" where
  "reg_inv L st \<longleftrightarrow> hm_wf (local_reg st) \<and> hm_wf (global_reg st) \<and> entries_ok L (reg_abs st) \<and>
     index_ok (reverse_reg st) (reg_abs st) \<and> usage_ok L st"

lemma reg_inv_default: "reg_inv L registry_state_default"
  by (simp add: reg_inv_def registry_state_default_def entries_ok_def index_ok_def usage_ok_def
      reg_abs_def scoped_entries_def rev_get_def reg_bytes_def split: registration_scope.splits)

lemma registrations_of_rev_get: "registrations_of st = rev_get (reverse_reg st)"
  by (simp add: registrations_of_def rev_get_def fun_eq_iff)

lemma rev_get_add:
  "rev_get (add_to_reverse_map rv pid s n) p =
     (if p = pid then List.insert (s, n) (rev_get rv pid) else rev_get rv p)"
  by (simp add: rev_get_def add_to_reverse_map_def hmap_simps)

lemma index_ok_add:
  assumes "index_ok rv f" "f (s, n) = None"
  shows "index_ok (add_to_reverse_map rv (global_pid e) s n) (f((s, n) \<mapsto> e))"
proof -
  have "hm_wf (add_to_reverse_map rv (global_pid e) s n)"
    using assms by (simp add: index_ok_def add_to_reverse_map_def hmap_simps)
  moreover have "l \<noteq> [] \<and> distinct l" if "hm_get (add_to_reverse_map rv (global_pid e) s n) pid = Some l" for pid l
    using assms that
    by (auto simp: index_ok_def add_to_reverse_map_def hmap_simps List.insert_def split: if_splits option.splits)
  moreover have "(s, n) \<notin> set (rev_get rv pid)" for pid
    using assms by (auto simp: index_ok_def)
  ultimately show ?thesis
    using assms(1) unfolding index_ok_def by (auto simp: rev_get_add)
qed

definition rev_remove ::
  "(global_process_id, scoped_name list) hmap \<Rightarrow> global_process_id \<Rightarrow> scoped_name
     \<Rightarrow> (global_process_id, scoped_name list) hmap" where
  "rev_remove rv pid sn =
     (case hm_get rv pid of None \<Rightarrow> rv
      | Some l \<Rightarrow> if removeAll sn l = [] then hm_remove pid rv else hm_insert pid (removeAll sn l) rv)"

lemma remove_reverse_mapping_eq:
  "remove_reverse_mapping pid s n st = st\<lparr>reverse_reg := rev_remove (reverse_reg st) pid (s, n)\<rparr>"
  by (simp add: remove_reverse_mapping_def rev_remove_def Let_def split: option.splits)

lemma rev_get_remove:
  "rev_get (rev_remove rv pid sn) p = (if p = pid then removeAll sn (rev_get rv pid) else rev_get rv p)"
  by (auto simp: rev_get_def rev_remove_def hm_get_insert hm_get_remove split: option.splits)

lemma index_ok_remove:
  assumes "index_ok rv f" "f sn = Some e"
  shows "index_ok (rev_remove rv (global_pid e) sn) (f(sn := None))"
proof -
  have "hm_wf (rev_remove rv (global_pid e) sn)"
    using assms by (auto simp: index_ok_def rev_remove_def split: option.splits)
  moreover have "l \<noteq> [] \<and> distinct l" if "hm_get (rev_remove rv (global_pid e) sn) pid = Some l" for pid l
    using assms that
    by (auto simp: index_ok_def rev_remove_def hmap_simps distinct_removeAll split: if_splits option.splits)
  ultimately show ?thesis
    using assms unfolding index_ok_def by (auto simp: rev_get_remove)
qed

lemma scoped_set_scoped:
  "scoped_entries s' (set_scoped_entries s m st) = (if s' = s then m else scoped_entries s' st)"
  by (cases s; cases s') (simp_all add: set_scoped_entries_def scoped_entries_def)

lemma reg_abs_frame [simp]:
  "reg_abs (st\<lparr>reverse_reg := rv\<rparr>) = reg_abs st" "reg_abs (st\<lparr>reg_usage := u\<rparr>) = reg_abs st"
  by (auto simp: reg_abs_def scoped_entries_def fun_eq_iff split: registration_scope.splits)

lemma usage_after_add_Inr:
  "usage_after_add L u n = Inr u' \<longleftrightarrow>
     usage_entries u' = Suc (usage_entries u) \<and> usage_bytes u' = usage_bytes u + 2 * name_len n \<and>
     usage_entries u' \<le> usize_max \<and> usage_bytes u' \<le> usize_max \<and>
     usage_entries u' \<le> max_entries L \<and> usage_bytes u' \<le> max_retained_bytes L"
  by (cases u') (auto simp: usage_after_add_def retained_bytes_for_name_def result_simps checked_simps)

section \<open>The two primitive changes\<close>

definition put_registration :: "process_name \<Rightarrow> registry_entry \<Rightarrow> registry_usage \<Rightarrow> registry_state \<Rightarrow> registry_state" where
  "put_registration n e u st =
     (add_reverse_mapping (global_pid e) (entry_scope e) n
        (set_scoped_entries (entry_scope e) (hm_insert n e (scoped_entries (entry_scope e) st)) st))
     \<lparr>reg_usage := u\<rparr>"

lemma reg_abs_put: "reg_abs (put_registration n e u st) = (reg_abs st)((entry_scope e, n) \<mapsto> e)"
  by (simp add: put_registration_def add_reverse_mapping_def)
    (auto simp: reg_abs_def scoped_set_scoped hm_get_insert fun_eq_iff)

lemma put_registration_inv:
  assumes "reg_inv L st" "validate_name L n = Inr ()" "reg_abs st (entry_scope e, n) = None"
    "usage_after_add L (reg_usage st) n = Inr u"
  shows "reg_inv L (put_registration n e u st)"
proof -
  have fresh: "n \<notin> hm_keys (scoped_entries (entry_scope e) st)"
    using assms(3) by (simp add: reg_abs_def hm_get_None)
  have "entries_ok L (reg_abs (put_registration n e u st))"
    using assms(1,2) by (auto simp: reg_abs_put entries_ok_def reg_inv_def)
  moreover have "index_ok (reverse_reg (put_registration n e u st)) (reg_abs (put_registration n e u st))"
    using index_ok_add[of "reverse_reg st" "reg_abs st" "entry_scope e" n e] assms(1,3)
    by (simp add: reg_abs_put reg_inv_def)
      (auto simp: put_registration_def add_reverse_mapping_def set_scoped_entries_def split: registration_scope.splits)
  moreover have "usage_ok L (put_registration n e u st)"
    using assms(1,4) fresh
    by (auto simp: usage_ok_def reg_inv_def put_registration_def add_reverse_mapping_def set_scoped_entries_def
        scoped_entries_def usage_after_add_Inr hmap_simps reg_bytes_def split: registration_scope.splits)
  ultimately show ?thesis
    using assms(1)
    by (auto simp: reg_inv_def put_registration_def add_reverse_mapping_def set_scoped_entries_def
        scoped_entries_def split: registration_scope.splits)
qed

text \<open>Under the invariant removal cannot panic.\<close>

definition owner_matches :: "global_process_id option \<Rightarrow> registry_entry \<Rightarrow> bool" where
  "owner_matches ex e \<longleftrightarrow> (case ex of None \<Rightarrow> True | Some p \<Rightarrow> global_pid e = p)"

lemma reg_bytes_member:
  "n \<in> hm_keys m \<Longrightarrow> hm_wf m \<Longrightarrow> reg_bytes m = 2 * name_len n + reg_bytes (hm_remove n m)"
  using hm_weight_remove[of m n "\<lambda>n. 2 * name_len n"] by (simp add: reg_bytes_def)

lemma remove_scoped_absent:
  assumes "\<nexists>e. reg_abs st (s, n) = Some e \<and> owner_matches ex e"
  shows "remove_scoped_registration s n ex st = Some (None, st)"
  using assms
  by (auto simp: remove_scoped_registration_def reg_abs_def owner_matches_def split: option.splits)

lemma remove_scoped_present:
  assumes inv: "reg_inv L st" and e: "reg_abs st (s, n) = Some e" "owner_matches ex e"
  obtains st' where "remove_scoped_registration s n ex st = Some (Some e, st')" "reg_inv L st'"
    "reg_abs st' = (reg_abs st)((s, n) := None)"
proof -
  let ?m = "scoped_entries s st"
  have key: "n \<in> hm_keys ?m" and wf: "hm_wf ?m" and get: "hm_get ?m n = Some e"
    using inv e by (auto simp: reg_abs_def reg_inv_def scoped_entries_def dest: hm_get_SomeD
        split: registration_scope.splits)
  note bytes = reg_bytes_member[OF key wf] and len = hm_len_remove[OF wf get]
  define st' where "st' = (remove_reverse_mapping (global_pid e) s n
      (set_scoped_entries s (hm_remove n ?m) st))
      \<lparr>reg_usage := \<lparr>usage_entries = usage_entries (reg_usage st) - 1,
                    usage_bytes = usage_bytes (reg_usage st) - 2 * name_len n\<rparr>\<rparr>"
  have small: "2 * name_len n \<le> usage_bytes (reg_usage st)" "1 \<le> usage_entries (reg_usage st)"
    "2 * name_len n \<le> usize_max"
    using inv bytes len by (auto simp: reg_inv_def usage_ok_def scoped_entries_def split: registration_scope.splits)
  have frame: "reg_usage (remove_reverse_mapping p s n (set_scoped_entries s m st)) = reg_usage st" for p m
    by (simp add: remove_reverse_mapping_eq set_scoped_entries_def split: registration_scope.splits)
  have step: "remove_scoped_registration s n ex st = Some (Some e, st')"
    using get e(2) small
    by (auto simp: remove_scoped_registration_def owner_matches_def Let_def frame st'_def mult.commute
        checked_mul_usize_def checked_sub_usize_def split: option.splits)
  have abs: "reg_abs st' = (reg_abs st)((s, n) := None)"
    by (simp add: st'_def remove_reverse_mapping_eq)
      (auto simp: reg_abs_def scoped_set_scoped hm_get_remove fun_eq_iff)
  have "index_ok (reverse_reg st') (reg_abs st')"
    using index_ok_remove[of "reverse_reg st" "reg_abs st" "(s, n)" e] inv e(1)
    by (simp add: abs reg_inv_def)
      (auto simp: st'_def remove_reverse_mapping_eq set_scoped_entries_def split: registration_scope.splits)
  moreover have "usage_ok L st'"
    using inv bytes len
    by (auto simp: st'_def remove_reverse_mapping_eq usage_ok_def reg_inv_def set_scoped_entries_def
        scoped_entries_def split: registration_scope.splits)
  moreover have "entries_ok L (reg_abs st')"
    using inv by (auto simp: abs entries_ok_def reg_inv_def)
  moreover have "hm_wf (local_reg st')" "hm_wf (global_reg st')"
    using inv by (auto simp: st'_def remove_reverse_mapping_eq set_scoped_entries_def scoped_entries_def
        reg_inv_def split: registration_scope.splits)
  ultimately have "reg_inv L st'" by (simp add: reg_inv_def)
  then show ?thesis using that step abs by blast
qed

text \<open>Both cases in one equation, for the loops.\<close>

lemma remove_scoped:
  assumes "reg_inv L st"
  obtains r st' where "remove_scoped_registration s n ex st = Some (r, st')" "reg_inv L st'"
    "r = (case reg_abs st (s, n) of Some e \<Rightarrow> if owner_matches ex e then Some e else None | None \<Rightarrow> None)"
    "reg_abs st' = (if r = None then reg_abs st else (reg_abs st)((s, n) := None))"
proof (cases "\<exists>e. reg_abs st (s, n) = Some e \<and> owner_matches ex e")
  case True
  then obtain e where e: "reg_abs st (s, n) = Some e" "owner_matches ex e" by blast
  from remove_scoped_present[OF assms e] obtain st' where st':
    "remove_scoped_registration s n ex st = Some (Some e, st')" "reg_inv L st'"
    "reg_abs st' = (reg_abs st)((s, n) := None)" .
  show ?thesis by (rule that[OF st'(1,2)]) (simp_all add: e st'(3))
next
  case False
  then show ?thesis using that[OF remove_scoped_absent[OF False] assms] by (auto split: option.splits)
qed

section \<open>Operations on the invariant and on the abstract content\<close>

lemma insert_local_eq:
  "insert_local_if_absent L now n pid st =
     (case and_then (validate_name L n) (\<lambda>_.
           and_then (ensure (reg_abs st (Local, n) = None) NameConflict) (\<lambda>_.
           usage_after_add L (reg_usage st) n)) of
        Inl e \<Rightarrow> (Inl e, st)
      | Inr u \<Rightarrow>
          (Inr (), put_registration n \<lparr>global_pid = pid, entry_scope = Local, registered_at = now\<rparr> u st))"
  by (auto simp: insert_local_if_absent_def put_registration_def Let_def reg_abs_def scoped_entries_def
      set_scoped_entries_def split: sum.splits)

lemma register_global_eq:
  "register_global_untracked L now n pid st =
     (case and_then (validate_name L n) (\<lambda>_.
           and_then (ensure (reg_abs st (Global, n) = None) NameConflict) (\<lambda>_.
           usage_after_add L (reg_usage st) n)) of
        Inl e \<Rightarrow> (Inl e, st)
      | Inr u \<Rightarrow>
          (Inr (), put_registration n \<lparr>global_pid = pid, entry_scope = Global, registered_at = now\<rparr> u st))"
  by (auto simp: register_global_untracked_def put_registration_def Let_def reg_abs_def scoped_entries_def
      set_scoped_entries_def split: sum.splits)

text \<open>A registration in either namespace succeeds on a free, valid name within the limits.\<close>

definition can_add :: "registry_limits \<Rightarrow> registry_state \<Rightarrow> scoped_name \<Rightarrow> bool" where
  "can_add L st sn \<longleftrightarrow> validate_name L (snd sn) = Inr () \<and> reg_abs st sn = None \<and>
     (\<exists>u. usage_after_add L (reg_usage st) (snd sn) = Inr u)"

lemma register_result:
  assumes "reg_inv L st"
    "(r, st') = insert_local_if_absent L now n pid st \<and> s = Local \<or>
     (r, st') = register_global_untracked L now n pid st \<and> s = Global"
  shows "reg_inv L st' \<and> (r = Inr () \<longleftrightarrow> can_add L st (s, n)) \<and>
    reg_abs st' =
      (if r = Inr () then (reg_abs st)((s, n) \<mapsto> \<lparr>global_pid = pid, entry_scope = s, registered_at = now\<rparr>)
       else reg_abs st)"
  using assms
  by (auto simp: insert_local_eq register_global_eq can_add_def result_simps reg_abs_put split: sum.splits
      intro!: put_registration_inv)

lemma apply_global_result:
  assumes inv: "reg_inv L st" and app: "apply_global L n pid at st = (r, st')"
  shows "reg_inv L st' \<and>
    reg_abs st' =
      (if r = Inr () then (reg_abs st)((Global, n) \<mapsto> \<lparr>global_pid = pid, entry_scope = Global, registered_at = at\<rparr>)
       else reg_abs st)"
proof (cases "r = Inr ()")
  case False
  then have "st' = st" using app by (auto simp: apply_global_def Let_def split: sum.splits)
  then show ?thesis using inv False by simp
next
  case ok: True
  let ?e = "\<lparr>global_pid = pid, entry_scope = Global, registered_at = at\<rparr>"
  have v: "validate_name L n = Inr ()"
    using app ok by (auto simp: apply_global_def result_simps split: sum.splits)
  show ?thesis
  proof (cases "reg_abs st (Global, n)")
    case None
    then have "st' = put_registration n ?e (reg_usage st') st" "usage_after_add L (reg_usage st) n = Inr (reg_usage st')"
      using app ok
      by (auto simp: apply_global_def result_simps put_registration_def Let_def reg_abs_def scoped_entries_def
          set_scoped_entries_def split: sum.splits)
    then show ?thesis
      using put_registration_inv[OF inv v, of ?e "reg_usage st'"] None ok reg_abs_put[of n ?e "reg_usage st'" st]
      by simp
  next
    case (Some old)
    then have get: "hm_get (global_reg st) n = Some old" by (simp add: reg_abs_def scoped_entries_def)
    have st': "st' = st\<lparr>global_reg := hm_insert n ?e (global_reg st),
        reverse_reg := add_to_reverse_map (rev_remove (reverse_reg st) (global_pid old) (Global, n)) pid Global n\<rparr>"
      using app ok get v by (simp add: apply_global_def remove_reverse_mapping_eq add_reverse_mapping_def Let_def)
    have abs: "reg_abs st' = (reg_abs st)((Global, n) \<mapsto> ?e)"
      by (auto simp: st' reg_abs_def scoped_entries_def hm_get_insert fun_eq_iff split: registration_scope.splits)
    have "index_ok (reverse_reg st') (reg_abs st')"
      using index_ok_add[OF index_ok_remove[of "reverse_reg st" "reg_abs st" "(Global, n)" old], of Global n ?e] inv Some
      by (simp add: abs reg_inv_def) (simp add: st')
    moreover have "usage_ok L st'"
      using inv get hm_get_SomeD[OF get] by (simp add: st' usage_ok_def reg_inv_def hmap_simps reg_bytes_def)
    moreover have "entries_ok L (reg_abs st')"
      using inv v by (auto simp: abs entries_ok_def reg_inv_def)
    ultimately show ?thesis
      using inv ok by (simp add: reg_inv_def abs) (simp add: st')
  qed
qed

text \<open>What a removal loop takes away: the listed registrations that are still owned as listed.\<close>

definition owned_in :: "(scoped_name \<times> global_process_id) list \<Rightarrow> registry_state \<Rightarrow> scoped_name \<Rightarrow> registry_entry \<Rightarrow> bool" where
  "owned_in rs st sn e \<longleftrightarrow> reg_abs st sn = Some e \<and> (sn, global_pid e) \<in> set rs"

lemma remove_registrations_result:
  assumes "reg_inv L st"
  shows "\<exists>removed st'. remove_registrations rs st = Some (removed, st') \<and> reg_inv L st' \<and>
    reg_abs st' = (\<lambda>sn. if \<exists>e. owned_in rs st sn e then None else reg_abs st sn) \<and>
    set removed = {(n, e). \<exists>s. owned_in rs st (s, n) e}"
  using assms
proof (induction rs arbitrary: st)
  case Nil
  then show ?case by (simp add: owned_in_def)
next
  case (Cons x rs)
  obtain s n pid where x: "x = ((s, n), pid)" by (metis surj_pair)
  from remove_scoped[OF Cons.prems, of s n "Some pid"] obtain r st1 where
    st1: "remove_scoped_registration s n (Some pid) st = Some (r, st1)" "reg_inv L st1" and
    r: "r = (case reg_abs st (s, n) of Some e \<Rightarrow> if owner_matches (Some pid) e then Some e else None | None \<Rightarrow> None)"
    and abs: "reg_abs st1 = (if r = None then reg_abs st else (reg_abs st)((s, n) := None))" .
  from Cons.IH[OF st1(2)] obtain removed st2 where
    st2: "remove_registrations rs st1 = Some (removed, st2)" "reg_inv L st2"
    "reg_abs st2 = (\<lambda>sn. if \<exists>e. owned_in rs st1 sn e then None else reg_abs st1 sn)"
    "set removed = {(n, e). \<exists>s. owned_in rs st1 (s, n) e}" by blast
  show ?case
  proof (cases "\<exists>e. reg_abs st (s, n) = Some e \<and> global_pid e = pid")
    case True
    then obtain e where e: "reg_abs st (s, n) = Some e" "global_pid e = pid" by blast
    then have r: "r = Some e" and a1: "reg_abs st1 = (reg_abs st)((s, n) := None)"
      using r abs by (simp_all add: owner_matches_def)
    have o: "owned_in (x # rs) st sn e' \<longleftrightarrow> sn = (s, n) \<and> e' = e \<or> owned_in rs st1 sn e'" for sn e'
      using a1 e x by (cases "sn = (s, n)") (auto simp: owned_in_def)
    have "remove_registrations (x # rs) st = Some ((n, e) # removed, st2)"
      using x st1(1) st2(1) r by simp
    moreover have "reg_abs st2 = (\<lambda>sn. if \<exists>e. owned_in (x # rs) st sn e then None else reg_abs st sn)"
      by (rule ext) (auto simp: o st2(3) a1)
    moreover have "set ((n, e) # removed) = {(n, e). \<exists>s. owned_in (x # rs) st (s, n) e}"
      by (auto simp: o st2(4))
    ultimately show ?thesis using st2(2) by blast
  next
    case False
    then have "r = None" "reg_abs st1 = reg_abs st"
      using r abs by (auto simp: owner_matches_def split: option.splits)
    moreover have "owned_in (x # rs) st sn e \<longleftrightarrow> owned_in rs st1 sn e" for sn e
      using calculation(2) False x by (auto simp: owned_in_def)
    ultimately show ?thesis
      using x st1(1) st2 by (simp add: if_distrib cong: if_cong)
  qed
qed

lemma registrations_iff:
  "reg_inv L st \<Longrightarrow> sn \<in> set (rev_get (reverse_reg st) pid) \<longleftrightarrow> (\<exists>e. reg_abs st sn = Some e \<and> global_pid e = pid)"
  unfolding reg_inv_def index_ok_def by blast

lemma no_registrations_no_key:
  assumes "index_ok rv f" "\<And>sn. sn \<notin> set (rev_get rv pid)"
  shows "pid \<notin> hm_keys rv"
proof
  assume "pid \<in> hm_keys rv"
  then obtain l where l: "hm_get rv pid = Some l" by (rule hm_keysE)
  moreover from l assms(1) have "l \<noteq> []" unfolding index_ok_def by blast
  ultimately show False using assms(2)[of "hd l"] by (simp add: rev_get_def)
qed

lemma unregister_process_result:
  assumes inv: "reg_inv L st"
  obtains removed st' where "unregister_process pid st = Some (removed, st')" "reg_inv L st'"
    "reg_abs st' = (\<lambda>sn. case reg_abs st sn of Some e \<Rightarrow> if global_pid e = pid then None else Some e | None \<Rightarrow> None)"
    "set removed = {(n, e). \<exists>s. reg_abs st (s, n) = Some e \<and> global_pid e = pid}"
proof -
  let ?rs = "map (\<lambda>r. (r, pid)) (registrations_of st pid)"
  have owned: "owned_in ?rs st sn e \<longleftrightarrow> reg_abs st sn = Some e \<and> global_pid e = pid" for sn e
    using registrations_iff[OF inv, of sn pid] by (auto simp: owned_in_def registrations_of_rev_get)
  from remove_registrations_result[OF inv, of ?rs] obtain removed st1 where
    st1: "remove_registrations ?rs st = Some (removed, st1)" "reg_inv L st1"
    "reg_abs st1 = (\<lambda>sn. if \<exists>e. reg_abs st sn = Some e \<and> global_pid e = pid then None else reg_abs st sn)"
    "set removed = {(n, e). \<exists>s. reg_abs st (s, n) = Some e \<and> global_pid e = pid}"
    unfolding owned by blast
  have "sn \<notin> set (rev_get (reverse_reg st1) pid)" for sn
    unfolding registrations_iff[OF st1(2)] st1(3) by auto
  then have "pid \<notin> hm_keys (reverse_reg st1)"
    using st1(2) by (intro no_registrations_no_key) (auto simp: reg_inv_def)
  then have "st1\<lparr>reverse_reg := hm_remove pid (reverse_reg st1)\<rparr> = st1"
    by (simp add: hm_remove_absent hm_get_None)
  then have "unregister_process pid st =
      Some (sort_key (\<lambda>(n, e). (n, scope_order (entry_scope e))) removed, st1)"
    using st1(1) by (simp add: unregister_process_def)
  moreover have "reg_abs st1 =
      (\<lambda>sn. case reg_abs st sn of Some e \<Rightarrow> if global_pid e = pid then None else Some e | None \<Rightarrow> None)"
    using st1(3) by (auto simp: fun_eq_iff split: option.splits)
  ultimately show ?thesis
    using that st1(2,4) by simp
qed

lemma remove_node_result:
  assumes inv: "reg_inv L st"
  obtains removed st' where "remove_node_registrations nid st = Some (removed, st')" "reg_inv L st'"
    "reg_abs st' = (\<lambda>sn. case reg_abs st sn of
        Some e \<Rightarrow> if fst sn = Global \<and> node_id (global_pid e) = nid then None else Some e | None \<Rightarrow> None)"
proof -
  let ?rs = "map (\<lambda>(n, e). ((Global, n), global_pid e))
      (filter (\<lambda>(n, e). node_id (global_pid e) = nid) (global_reg st))"
  have mem: "(n, e) \<in> set (global_reg st) \<longleftrightarrow> reg_abs st (Global, n) = Some e" for n e
    using inv by (simp add: reg_inv_def reg_abs_def scoped_entries_def hm_get_mem)
  have owned: "owned_in ?rs st sn e \<longleftrightarrow>
      fst sn = Global \<and> reg_abs st sn = Some e \<and> node_id (global_pid e) = nid" for sn e
    by (cases sn) (force simp: owned_in_def mem)
  from remove_registrations_result[OF inv, of ?rs] obtain removed st1 where
    st1: "remove_registrations ?rs st = Some (removed, st1)" "reg_inv L st1"
    "reg_abs st1 = (\<lambda>sn. if \<exists>e. fst sn = Global \<and> reg_abs st sn = Some e \<and> node_id (global_pid e) = nid
       then None else reg_abs st sn)"
    unfolding owned by blast
  then show ?thesis
    by (intro that[of "map fst (sort_key fst removed)" st1])
      (auto simp: remove_node_registrations_def fun_eq_iff split: option.splits)
qed

lemma remove_scoped_any:
  assumes inv: "reg_inv L st"
  obtains st' where "remove_scoped_registration s n None st = Some (reg_abs st (s, n), st')" "reg_inv L st'"
    "reg_abs st' = (reg_abs st)((s, n) := None)"
proof (cases "reg_abs st (s, n)")
  case None
  then have "remove_scoped_registration s n None st = Some (None, st)" by (intro remove_scoped_absent) simp
  then show ?thesis using that[of st] inv None by (simp add: fun_upd_idem)
next
  case (Some e)
  from remove_scoped_present[OF inv Some, of None] obtain st' where
    "remove_scoped_registration s n None st = Some (Some e, st')" "reg_inv L st'"
    "reg_abs st' = (reg_abs st)((s, n) := None)"
    by (auto simp: owner_matches_def)
  then show ?thesis using that Some by metis
qed

lemma unregister_result:
  assumes inv: "reg_inv L st"
  obtains r a st' where "unregister n st = Some (r, a, st')" "reg_inv L st'"
    "r = (if reg_abs st (Local, n) = None \<and> reg_abs st (Global, n) = None then Inl NameNotRegistered else Inr ())"
    "reg_abs st' = (reg_abs st)((Local, n) := None, (Global, n) := None)"
proof -
  from remove_scoped_any[OF inv, of Local n] obtain st1 where 1:
    "remove_scoped_registration Local n None st = Some (reg_abs st (Local, n), st1)" "reg_inv L st1"
    "reg_abs st1 = (reg_abs st)((Local, n) := None)" .
  from remove_scoped_any[OF 1(2), of Global n] obtain st2 where 2:
    "remove_scoped_registration Global n None st1 = Some (reg_abs st1 (Global, n), st2)" "reg_inv L st2"
    "reg_abs st2 = (reg_abs st1)((Global, n) := None)" .
  have "reg_abs st1 (Global, n) = reg_abs st (Global, n)" using 1(3) by simp
  moreover have "reg_abs st2 = (reg_abs st)((Local, n) := None, (Global, n) := None)"
    using 2(3) 1(3) by simp
  moreover have "\<exists>a. unregister n st = Some
      (if reg_abs st (Local, n) = None \<and> reg_abs st (Global, n) = None then Inl NameNotRegistered else Inr (), a, st2)"
    using 1(1) 2(1) calculation(1) by (auto simp: unregister_def split: option.splits)
  ultimately show ?thesis
    using 2(2) that by blast
qed

lemma remove_local_result:
  assumes inv: "reg_inv L st"
  obtains removed st' where "remove_local_registrations pid st = Some (removed, st')" "reg_inv L st'"
    "reg_abs st' = (\<lambda>sn. case reg_abs st sn of
        Some e \<Rightarrow> if fst sn = Local \<and> global_pid e = pid then None else Some e | None \<Rightarrow> None)"
proof -
  let ?rs = "map (\<lambda>r. ((Local, snd r), pid)) (filter (\<lambda>r. fst r = Local) (registrations_of st pid))"
  have owned: "owned_in ?rs st sn e \<longleftrightarrow> fst sn = Local \<and> reg_abs st sn = Some e \<and> global_pid e = pid" for sn e
    using registrations_iff[OF inv, of sn pid]
    by (cases sn) (force simp: owned_in_def registrations_of_rev_get)
  from remove_registrations_result[OF inv, of ?rs] obtain removed st1 where
    st1: "remove_registrations ?rs st = Some (removed, st1)" "reg_inv L st1"
    "reg_abs st1 = (\<lambda>sn. if \<exists>e. fst sn = Local \<and> reg_abs st sn = Some e \<and> global_pid e = pid
       then None else reg_abs st sn)"
    unfolding owned by blast
  then show ?thesis
    by (intro that[of "sort (map fst removed)" st1])
      (auto simp: remove_local_registrations_def fun_eq_iff split: option.splits)
qed

section \<open>Coordinator snapshots\<close>

definition snapshot_entry :: "global_process_id \<Rightarrow> u64 \<Rightarrow> registry_entry" where
  "snapshot_entry pid at = \<lparr>global_pid = pid, entry_scope = Global, registered_at = at\<rparr>"

definition snapshot_map :: "(process_name \<times> global_process_id \<times> u64) list \<Rightarrow> process_name \<Rightarrow> registry_entry option" where
  "snapshot_map es = map_of (map (\<lambda>(n, pid, at). (n, snapshot_entry pid at)) es)"

lemma build_global_snapshot_fresh:
  "build_global_snapshot L es m b = Inr r \<Longrightarrow> n \<in> fst ` set es \<Longrightarrow> hm_get m n = None"
proof (induction es arbitrary: m b)
  case (Cons x es)
  obtain k pid at where x: "x = (k, pid, at)" by (metis surj_pair)
  from Cons.prems(1) obtain e b' where fresh: "hm_get m k = None"
    and rec: "build_global_snapshot L es (hm_insert k e m) b' = Inr r"
    by (auto simp: x result_simps)
  show ?case
    using Cons.prems(2) fresh Cons.IH[OF rec] by (cases "n = k") (auto simp: x hm_get_insert)
qed simp

lemma build_global_snapshot_Inr:
  "build_global_snapshot L es m b = Inr (m', b') \<Longrightarrow> hm_wf m \<Longrightarrow> reg_bytes m = b \<Longrightarrow>
     hm_wf m' \<and> reg_bytes m' = b' \<and> hm_get m' = hm_get m ++ snapshot_map es \<and>
     length m' = length m + length es \<and> (\<forall>n \<in> fst ` set es. validate_name L n = Inr ())"
proof (induction es arbitrary: m b)
  case Nil
  then show ?case by (simp add: snapshot_map_def)
next
  case (Cons x es)
  obtain n pid at where x: "x = (n, pid, at)" by (metis surj_pair)
  let ?m = "hm_insert n (snapshot_entry pid at) m"
  from Cons.prems(1) have v: "validate_name L n = Inr ()" "hm_get m n = None"
    and rec: "build_global_snapshot L es ?m (b + 2 * name_len n) = Inr (m', b')"
    by (auto simp: x result_simps checked_simps retained_bytes_for_name_def snapshot_entry_def mult.commute)
  have m: "reg_bytes ?m = b + 2 * name_len n" "hm_wf ?m" "length ?m = Suc (length m)"
    using Cons.prems(2,3) v(2) by (simp_all add: reg_bytes_def hmap_simps)
  have "n \<notin> fst ` set es"
    using build_global_snapshot_fresh[OF rec, of n] by (simp add: hm_get_insert) blast
  then have "snapshot_map es n = None"
    by (force simp: snapshot_map_def map_of_eq_None_iff)
  with Cons.IH[OF rec m(2,1)] v m(3) show ?case
    by (auto simp: x snapshot_map_def hm_get_insert map_add_def fun_eq_iff split: option.splits)
qed

text \<open>Every snapshot with distinct valid names that fits the byte limit is built.\<close>

lemma build_global_snapshot_ok:
  "distinct (map fst es) \<Longrightarrow> (\<forall>n \<in> fst ` set es. validate_name L n = Inr () \<and> hm_get m n = None) \<Longrightarrow>
     b + (\<Sum>x\<leftarrow>es. 2 * name_len (fst x)) \<le> max_retained_bytes L \<Longrightarrow>
     b + (\<Sum>x\<leftarrow>es. 2 * name_len (fst x)) \<le> usize_max \<Longrightarrow>
     \<exists>m'. build_global_snapshot L es m b = Inr (m', b + (\<Sum>x\<leftarrow>es. 2 * name_len (fst x)))"
proof (induction es arbitrary: m b)
  case (Cons x es)
  obtain n pid at where x: "x = (n, pid, at)" by (metis surj_pair)
  let ?m = "hm_insert n (snapshot_entry pid at) m" and ?b = "b + 2 * name_len n"
  have "\<exists>m'. build_global_snapshot L es ?m ?b = Inr (m', ?b + (\<Sum>x\<leftarrow>es. 2 * name_len (fst x)))"
    using Cons.prems by (intro Cons.IH) (auto simp: x hm_get_insert add.assoc image_iff)
  then show ?case
    using Cons.prems
    by (simp add: x retained_bytes_for_name_def checked_mul_usize_def checked_add_usize_def ok_or_def ensure_def
        snapshot_entry_def mult.commute add.assoc)
qed simp

lemma retained_bytes_for_names_eq:
  "retained_bytes_for_names acc ns =
     (if acc + (\<Sum>n\<leftarrow>ns. 2 * name_len n) \<le> usize_max then Inr (acc + (\<Sum>n\<leftarrow>ns. 2 * name_len n))
      else if ns = [] then Inr acc else Inl CapacityError)"
proof (induction ns arbitrary: acc)
  case (Cons n ns)
  then show ?case
    by (auto simp: retained_bytes_for_name_def checked_mul_usize_def checked_add_usize_def ok_or_def mult.commute
        add.assoc)
qed simp

lemma index_ok_reverse_of:
  "index_ok rv f \<Longrightarrow> distinct (map fst m) \<Longrightarrow> (\<forall>n. f (s, n) = None) \<or> (\<forall>n \<in> fst ` set m. f (s, n) = None) \<Longrightarrow>
     index_ok (reverse_of s m rv)
       (\<lambda>sn. if fst sn = s then (case map_of m (snd sn) of None \<Rightarrow> f sn | Some e \<Rightarrow> Some e) else f sn)"
proof (induction m arbitrary: rv f)
  case Nil
  then show ?case by (simp add: reverse_of_def if_distrib cong: if_cong)
next
  case (Cons x m)
  obtain n e where x: "x = (n, e)" by (metis surj_pair)
  let ?f = "f((s, n) \<mapsto> e)"
  have idx: "index_ok (add_to_reverse_map rv (global_pid e) s n) ?f"
    using Cons.prems by (intro index_ok_add) (auto simp: x)
  have "index_ok (reverse_of s m (add_to_reverse_map rv (global_pid e) s n))
      (\<lambda>sn. if fst sn = s then (case map_of m (snd sn) of None \<Rightarrow> ?f sn | Some e \<Rightarrow> Some e) else ?f sn)"
    using Cons.prems by (intro Cons.IH[OF idx]) (auto simp: x image_iff)
  moreover have "(\<lambda>sn. if fst sn = s then (case map_of m (snd sn) of None \<Rightarrow> ?f sn | Some e \<Rightarrow> Some e) else ?f sn) =
      (\<lambda>sn. if fst sn = s then (case map_of (x # m) (snd sn) of None \<Rightarrow> f sn | Some e \<Rightarrow> Some e) else f sn)"
  proof -
    have "map_of m n = None" using Cons.prems(2) by (simp add: x map_of_eq_None_iff)
    then show ?thesis by (auto simp: x fun_eq_iff split: option.splits)
  qed
  ultimately show ?case by (simp add: x reverse_of_def)
qed

lemma index_ok_replace:
  assumes "hm_wf l" "hm_wf m"
  shows "index_ok (reverse_of Global m (reverse_of Local l []))
    (\<lambda>(s, n). if s = Global then hm_get m n else hm_get l n)"
proof -
  have "index_ok [] (\<lambda>_. None)" by (simp add: index_ok_def rev_get_def)
  from index_ok_reverse_of[OF this, of l Local] assms(1)
  have 1: "index_ok (reverse_of Local l []) (\<lambda>sn. if fst sn = Local then (case map_of l (snd sn) of None \<Rightarrow> None | Some e \<Rightarrow> Some e) else None)"
    by (simp add: hm_wf_def)
  from index_ok_reverse_of[OF this, of m Global] assms(2)
  have "index_ok (reverse_of Global m (reverse_of Local l [])) (\<lambda>sn. if fst sn = Global then (case map_of m (snd sn) of None \<Rightarrow> None | Some e \<Rightarrow> Some e)
      else if fst sn = Local then (case map_of l (snd sn) of None \<Rightarrow> None | Some e \<Rightarrow> Some e) else None)"
    by (simp add: hm_wf_def cong: if_cong option.case_cong)
  then show ?thesis
    by (rule back_subst[of "index_ok _"]) (auto simp: fun_eq_iff split: option.splits)
qed

lemma replace_global_snapshot_result:
  assumes inv: "reg_inv L st" and rep: "replace_global_snapshot L es st = (r, st')"
  shows "(r \<noteq> Inr () \<longrightarrow> st' = st) \<and>
    (r = Inr () \<longrightarrow> reg_inv L st' \<and>
       reg_abs st' = (\<lambda>(s, n). if s = Global then snapshot_map es n else reg_abs st (s, n)))"
proof (cases "r = Inr ()")
  case False
  then show ?thesis using rep by (auto simp: replace_global_snapshot_def split: sum.splits)
next
  case True
  then obtain m b where build: "build_global_snapshot L es [] 0 = Inr (m, b)"
    and st': "st' = st\<lparr>global_reg := m, reverse_reg := reverse_of Global m (reverse_of Local (local_reg st) []),
        reg_usage := \<lparr>usage_entries = length (local_reg st) + length m,
                      usage_bytes = reg_bytes (local_reg st) + b\<rparr>\<rparr>"
    and lim: "length (local_reg st) + length m \<le> max_entries L" "length (local_reg st) + length m \<le> usize_max"
      "reg_bytes (local_reg st) + b \<le> max_retained_bytes L" "reg_bytes (local_reg st) + b \<le> usize_max"
    using rep
    by (auto simp: replace_global_snapshot_def result_simps checked_simps retained_bytes_for_names_eq
        reg_bytes_def hm_weight_def comp_def split: sum.splits if_splits prod.splits)
  from build_global_snapshot_Inr[OF build] have m: "hm_wf m" "reg_bytes m = b" "hm_get m = snapshot_map es"
    "\<forall>n \<in> fst ` set es. validate_name L n = Inr ()"
    by (simp_all add: reg_bytes_def)
  have abs: "reg_abs st' = (\<lambda>(s, n). if s = Global then snapshot_map es n else reg_abs st (s, n))"
    by (auto simp: st' reg_abs_def scoped_entries_def m(3) fun_eq_iff split: registration_scope.splits)
  have "index_ok (reverse_reg st') (reg_abs st')"
  proof -
    have "index_ok (reverse_reg st') (\<lambda>(s, n). if s = Global then hm_get m n else hm_get (local_reg st) n)"
      using index_ok_replace[of "local_reg st" m] inv m(1) by (simp add: st' reg_inv_def)
    then show ?thesis
      unfolding abs
      by (rule back_subst[of "index_ok _"]) (auto simp: fun_eq_iff m(3) reg_abs_def scoped_entries_def)
  qed
  moreover have "entry_scope e = Global \<and> validate_name L n = Inr ()" if "snapshot_map es n = Some e" for n e
    using that m(4) by (force simp: snapshot_map_def snapshot_entry_def dest!: map_of_SomeD)
  then have "entries_ok L (reg_abs st')"
    using inv by (auto simp: abs reg_inv_def entries_ok_def split: if_splits)
  ultimately show ?thesis
    using True abs inv lim m by (simp add: reg_inv_def usage_ok_def) (simp add: st')
qed

section \<open>The registry as a machine\<close>

datatype registry_op =
  RegisterLocal u64 process_name global_process_id
| RegisterGlobal u64 process_name global_process_id
| ApplyGlobal process_name global_process_id u64
| RemoveGlobalIfOwner process_name global_process_id
| ReplaceGlobalSnapshot "(process_name \<times> global_process_id \<times> u64) list"
| UnregisterName process_name
| UnregisterProcess global_process_id
| RemoveLocalRegistrations global_process_id
| RemoveNodeRegistrations u64
| ClearRegistry

text \<open>One call under the write lock; \<open>None\<close> if it panics.\<close>

fun reg_step :: "registry_limits \<Rightarrow> registry_op \<Rightarrow> registry_state \<Rightarrow> registry_state option" where
  "reg_step L (RegisterLocal now n pid) st = Some (snd (snd (register_local L now n pid st)))"
| "reg_step L (RegisterGlobal now n pid) st = Some (snd (snd (register_global L now n pid st)))"
| "reg_step L (ApplyGlobal n pid at) st = Some (snd (apply_global L n pid at st))"
| "reg_step L (RemoveGlobalIfOwner n pid) st = map_option snd (remove_global_if_owner n pid st)"
| "reg_step L (ReplaceGlobalSnapshot es) st = Some (snd (replace_global_snapshot L es st))"
| "reg_step L (UnregisterName n) st = map_option (\<lambda>(r, a, st'). st') (unregister n st)"
| "reg_step L (UnregisterProcess pid) st = map_option snd (unregister_process pid st)"
| "reg_step L (RemoveLocalRegistrations pid) st = map_option snd (remove_local_registrations pid st)"
| "reg_step L (RemoveNodeRegistrations nid) st = map_option snd (remove_node_registrations nid st)"
| "reg_step L ClearRegistry st = Some (reg_clear st)"

fun reg_run :: "registry_limits \<Rightarrow> registry_op list \<Rightarrow> registry_state \<Rightarrow> registry_state option" where
  "reg_run L [] st = Some st"
| "reg_run L (op # ops) st = (case reg_step L op st of None \<Rightarrow> None | Some st' \<Rightarrow> reg_run L ops st')"

lemma register_local_state: "snd (snd (register_local L now n pid st)) = snd (insert_local_if_absent L now n pid st)"
  by (simp add: register_local_def split: prod.splits)

lemma register_global_state:
  "snd (snd (register_global L now n pid st)) = snd (register_global_untracked L now n pid st)"
  by (simp add: register_global_def split: prod.splits)

lemma reg_step_inv:
  assumes inv: "reg_inv L st"
  shows "\<exists>st'. reg_step L op st = Some st' \<and> reg_inv L st'"
proof (cases op)
  case (RegisterLocal now n pid)
  then show ?thesis
    using register_result[OF inv, of "fst (insert_local_if_absent L now n pid st)"
        "snd (insert_local_if_absent L now n pid st)" now n pid Local] by (simp add: register_local_state)
next
  case (RegisterGlobal now n pid)
  then show ?thesis
    using register_result[OF inv, of "fst (register_global_untracked L now n pid st)"
        "snd (register_global_untracked L now n pid st)" now n pid Global] by (simp add: register_global_state)
next
  case (ApplyGlobal n pid at)
  then show ?thesis using apply_global_result[OF inv, of n pid at] by (cases "apply_global L n pid at st") auto
next
  case (RemoveGlobalIfOwner n pid)
  obtain r st' where "remove_scoped_registration Global n (Some pid) st = Some (r, st')" "reg_inv L st'"
    using remove_scoped[OF inv] by blast
  then show ?thesis using RemoveGlobalIfOwner by (simp add: remove_global_if_owner_def)
next
  case (ReplaceGlobalSnapshot es)
  obtain r st' where "replace_global_snapshot L es st = (r, st')" by (metis surj_pair)
  then show ?thesis
    using ReplaceGlobalSnapshot inv replace_global_snapshot_result[OF inv, of es r st'] by (cases "r = Inr ()") auto
next
  case (UnregisterName n)
  then show ?thesis using unregister_result[OF inv, of n] by fastforce
next
  case (UnregisterProcess pid)
  then show ?thesis using unregister_process_result[OF inv, of pid] by fastforce
next
  case (RemoveLocalRegistrations pid)
  then show ?thesis using remove_local_result[OF inv, of pid] by fastforce
next
  case (RemoveNodeRegistrations nid)
  then show ?thesis using remove_node_result[OF inv, of nid] by fastforce
next
  case ClearRegistry
  then show ?thesis by (simp add: reg_clear_def reg_inv_default)
qed

lemma reg_step_SomeD: "reg_inv L st \<Longrightarrow> reg_step L op st = Some st' \<Longrightarrow> reg_inv L st'"
  using reg_step_inv[of L st op] by auto

interpretation registry: inductive_invariant "\<lambda>st. st = registry_state_default"
  "\<lambda>st st'. \<exists>op. reg_step L op st = Some st'" "reg_inv L" for L
  by unfold_locales (auto intro: reg_inv_default reg_step_SomeD)

section \<open>Compact process identifiers\<close>

lemma bit_below: "unat w < 2 ^ k \<Longrightarrow> bit w n \<Longrightarrow> n < k" for w :: "'w::len word"
  by (metis bit_take_bit_iff bit_unsigned_iff take_bit_nat_eq_self possible_bit_nat)

lemma unat_ucast_mask: "unat (ucast (w AND mask k) :: 'v::len word) < 2 ^ k" for w :: "'w::len word"
proof -
  have "ucast (w AND mask k) = take_bit k (ucast (w AND mask k) :: 'v word)"
    by (rule bit_eqI) (auto simp: bit_simps)
  then have "unat (ucast (w AND mask k) :: 'v word) = take_bit k (unat (ucast (w AND mask k) :: 'v word))"
    by (metis unsigned_take_bit_eq)
  then show ?thesis by (metis take_bit_nat_less_exp)
qed

lemma compact_masks:
  "(0xFFFFFFFFFF :: 128 word) = mask 40" "(0xFFFFFFFFFFFF :: 128 word) = mask 48"
  "ucast max_node_id = (mask 40 :: 128 word)"
  by (simp_all add: mask_eq_exp_minus_1 max_node_id_def)

lemma to_from_compact:
  assumes "unat (node_id g) < 2 ^ 40" "unat (environment_id g) < 2 ^ 40" "unat (process_id g) < 2 ^ 48"
  shows "from_compact (to_compact g) = g"
proof -
  have "ucast (drop_bit 88 (to_compact g) AND mask 40) = node_id g"
  proof (rule bit_eqI)
    fix n assume "possible_bit TYPE(64 word) n"
    then show "bit (ucast (drop_bit 88 (to_compact g) AND mask 40) :: 64 word) n = bit (node_id g) n"
      using bit_below[OF assms(1), of n] bit_below[OF assms(2), of "40 + n"] bit_below[OF assms(3), of "88 + n"]
      by (auto simp: to_compact_def bit_simps)
  qed
  moreover have "ucast (drop_bit 48 (to_compact g) AND mask 40) = environment_id g"
  proof (rule bit_eqI)
    fix n assume "possible_bit TYPE(64 word) n"
    then show "bit (ucast (drop_bit 48 (to_compact g) AND mask 40) :: 64 word) n = bit (environment_id g) n"
      using bit_below[OF assms(2), of n] bit_below[OF assms(3), of "48 + n"]
      by (auto simp: to_compact_def bit_simps)
  qed
  moreover have "ucast (to_compact g AND mask 48) = process_id g"
  proof (rule bit_eqI)
    fix n assume "possible_bit TYPE(64 word) n"
    then show "bit (ucast (to_compact g AND mask 48) :: 64 word) n = bit (process_id g) n"
      using bit_below[OF assms(3), of n] by (auto simp: to_compact_def bit_simps)
  qed
  ultimately show ?thesis by (simp add: from_compact_def compact_masks)
qed

text \<open>
  The compact encoding of a global process identifier loses nothing exactly when the node and
  the environment fit 40 bits and the process fits 48 bits.
\<close>

theorem compact_roundtrip_iff:
  "from_compact (to_compact g) = g \<longleftrightarrow>
     unat (node_id g) < 2 ^ 40 \<and> unat (environment_id g) < 2 ^ 40 \<and> unat (process_id g) < 2 ^ 48"
proof
  assume "from_compact (to_compact g) = g"
  then obtain c where "g = from_compact c" by metis
  then show "unat (node_id g) < 2 ^ 40 \<and> unat (environment_id g) < 2 ^ 40 \<and> unat (process_id g) < 2 ^ 48"
    using unat_ucast_mask[where 'v = 64, of "drop_bit 88 c" 40] unat_ucast_mask[where 'v = 64, of "drop_bit 48 c" 40]
      unat_ucast_mask[where 'v = 64, of c 48]
    by (simp add: from_compact_def compact_masks)
qed (simp add: to_from_compact)

section \<open>Properties of the registry\<close>

text \<open>
  C18.  The registry never panics and never loses count.  After any sequence of calls that were made
  on an empty registry, every further call returns; the reverse index lists exactly the names each
  process owns; and the accounted entries and bytes are those of the stored names and within the
  limits.
\<close>

theorem registry_never_panics:
  assumes "reachable (\<lambda>st. st = registry_state_default) (\<lambda>st st'. \<exists>op. reg_step L op st = Some st') st"
  shows "reg_step L op st \<noteq> None \<and>
    (sn \<in> set (registrations_of st pid) \<longleftrightarrow> (\<exists>e. reg_abs st sn = Some e \<and> global_pid e = pid)) \<and>
    usage_entries (reg_usage st) = local_count st + global_count st \<and> usage_entries (reg_usage st) \<le> max_entries L \<and>
    usage_bytes (reg_usage st) = (\<Sum>n\<leftarrow>local_names st @ global_names st. 2 * name_len n) \<and>
    usage_bytes (reg_usage st) \<le> max_retained_bytes L"
proof -
  have sum_sort: "sum_list (map f (sort xs)) = sum_list (map f xs)" for f :: "nat list \<Rightarrow> nat" and xs
    by (metis mset_map mset_sort sum_mset_sum_list)
  have inv: "reg_inv L st" using registry.reachable_inv[OF assms] .
  then show ?thesis
    using reg_step_inv[OF inv, of op] registrations_iff[OF inv, of sn pid]
    by (auto simp: registrations_of_rev_get reg_inv_def usage_ok_def local_count_def global_count_def
        local_names_def global_names_def sum_sort reg_bytes_def hm_weight_def comp_def)
qed

definition sample_pid :: global_process_id where
  "sample_pid = \<lparr>node_id = 1, environment_id = 2, process_id = 3\<rparr>"

definition sample_registry :: registry_state where
  "sample_registry = snd (apply_global default_registry_limits [97] sample_pid 7
     (snd (snd (register_local default_registry_limits 5 [97] sample_pid registry_state_default))))"

lemma sample_registry_reachable:
  "reachable (\<lambda>st. st = registry_state_default)
     (\<lambda>st st'. \<exists>op. reg_step default_registry_limits op st = Some st') sample_registry"
  unfolding sample_registry_def
  by (rule reach_step[OF reach_step[OF reach_start]], rule refl,
      rule exI[of _ "RegisterLocal 5 [97] sample_pid"], simp,
      rule exI[of _ "ApplyGlobal [97] sample_pid 7"], simp)

text \<open>Evaluating calls on concrete inputs by simplification.\<close>

lemmas reg_eval = register_local_def insert_local_if_absent_def apply_global_def validate_name_def is_control_def
  default_registry_limits_def name_len_def utf8_len_def usage_after_add_def retained_bytes_for_name_def
  registry_state_default_def checked_add_usize_def checked_mul_usize_def ok_or_def ensure_def usize_max_def
  add_reverse_mapping_def add_to_reverse_map_def hm_insert_def sample_pid_def registration_audit_outcome_def
  sample_registry_def

lemma sample_registry_eq:
  "sample_registry =
     \<lparr>local_reg = [([97], \<lparr>global_pid = sample_pid, entry_scope = Local, registered_at = 5\<rparr>)],
      global_reg = [([97], \<lparr>global_pid = sample_pid, entry_scope = Global, registered_at = 7\<rparr>)],
      reverse_reg = [(sample_pid, [(Global, [97]), (Local, [97])])],
      reg_usage = \<lparr>usage_entries = 2, usage_bytes = 4\<rparr>\<rparr>"
  by (simp add: reg_eval Let_def)

theorem registry_never_panics_witness:
  "reg_step default_registry_limits (UnregisterProcess sample_pid) sample_registry \<noteq> None \<and>
   usage_entries (reg_usage sample_registry) = 2"
proof -
  have "local_count sample_registry + global_count sample_registry = 2"
    by (simp add: sample_registry_eq local_count_def global_count_def)
  then show ?thesis
    using registry_never_panics[OF sample_registry_reachable, of "UnregisterProcess sample_pid"] by simp
qed

text \<open>
  C19.  Cleaning up after a process removes exactly its names.  Of the names in both namespaces those
  it still owns disappear, all others keep their entries, nothing of the process is left in the index,
  and the returned list has exactly the removed entries.
\<close>

theorem unregister_process_exact:
  assumes "reg_inv L st"
  shows "\<exists>removed st'. unregister_process pid st = Some (removed, st') \<and> reg_inv L st' \<and>
    (\<forall>sn. reg_abs st' sn = (case reg_abs st sn of
        Some e \<Rightarrow> if global_pid e = pid then None else Some e | None \<Rightarrow> None)) \<and>
    get_names pid st' = [] \<and>
    set removed = {(n, e). \<exists>s. reg_abs st (s, n) = Some e \<and> global_pid e = pid}"
proof -
  from unregister_process_result[OF assms, of pid] obtain removed st' where
    u: "unregister_process pid st = Some (removed, st')" "reg_inv L st'"
    "reg_abs st' = (\<lambda>sn. case reg_abs st sn of Some e \<Rightarrow> if global_pid e = pid then None else Some e | None \<Rightarrow> None)"
    "set removed = {(n, e). \<exists>s. reg_abs st (s, n) = Some e \<and> global_pid e = pid}" .
  have "sn \<notin> set (registrations_of st' pid)" for sn
    using registrations_iff[OF u(2), of sn pid] by (auto simp: u(3) registrations_of_rev_get split: option.splits if_splits)
  then have "registrations_of st' pid = []" by (metis list.set_intros(1) neq_Nil_conv)
  then show ?thesis using u by (simp add: get_names_def)
qed

theorem unregister_process_exact_witness:
  "\<exists>removed st'. unregister_process sample_pid sample_registry = Some (removed, st') \<and>
     get_names sample_pid st' = []"
  using unregister_process_exact[OF registry.reachable_inv[OF sample_registry_reachable]] by blast

text \<open>
  A delayed cleanup by a former owner is harmless: removing a global name on behalf of a process
  that does not own it reports false and changes nothing; on behalf of its owner it removes that name
  from the global namespace only.
\<close>

theorem remove_global_if_owner_safe:
  assumes "reg_inv L st"
  shows "\<exists>b st'. remove_global_if_owner n pid st = Some (b, st') \<and> reg_inv L st' \<and>
    (b \<longleftrightarrow> (\<exists>e. lookup_global n st = Some e \<and> global_pid e = pid)) \<and>
    (if b then reg_abs st' = (reg_abs st)((Global, n) := None) else st' = st)"
proof (cases "\<exists>e. reg_abs st (Global, n) = Some e \<and> owner_matches (Some pid) e")
  case True
  then obtain e where e: "reg_abs st (Global, n) = Some e" "owner_matches (Some pid) e" by blast
  obtain st' where "remove_scoped_registration Global n (Some pid) st = Some (Some e, st')" "reg_inv L st'"
    "reg_abs st' = (reg_abs st)((Global, n) := None)"
    using remove_scoped_present[OF assms e] .
  then show ?thesis
    using e by (auto simp: remove_global_if_owner_def lookup_global_def reg_abs_def[of st] scoped_entries_def
        owner_matches_def)
next
  case False
  then show ?thesis
    using remove_scoped_absent[OF False] assms
    by (auto simp: remove_global_if_owner_def lookup_global_def reg_abs_def scoped_entries_def owner_matches_def)
qed

theorem remove_global_if_owner_safe_witness:
  "\<exists>b st'. remove_global_if_owner [97] (sample_pid\<lparr>process_id := 9\<rparr>) sample_registry = Some (b, st') \<and>
     \<not> b \<and> st' = sample_registry"
  using remove_global_if_owner_safe[OF registry.reachable_inv[OF sample_registry_reachable], of "[97]"
      "sample_pid\<lparr>process_id := 9\<rparr>"]
  by (auto simp: lookup_global_def sample_registry_eq sample_pid_def)

lemma entry_ok:
  "reg_inv L st \<Longrightarrow> reg_abs st (s, n) = Some e \<Longrightarrow> entry_scope e = s \<and> validate_name L n = Inr ()"
  unfolding reg_inv_def entries_ok_def by fastforce

lemma reg_abs_Global: "reg_abs st (Global, n) = hm_get (global_reg st) n"
  by (simp add: reg_abs_def scoped_entries_def)

lemma names_of_global_snapshot: "mset (map fst (global_snapshot st)) = mset (map fst (global_reg st))"
  by (simp add: global_snapshot_def case_prod_unfold image_mset.compositionality comp_def)

lemma global_snapshot_names:
  assumes "reg_inv L st"
  shows "distinct (map fst (global_snapshot st))" "fst ` set (global_snapshot st) = hm_keys (global_reg st)"
    "(\<Sum>x\<leftarrow>global_snapshot st. 2 * name_len (fst x)) = reg_bytes (global_reg st)"
    "length (global_snapshot st) = length (global_reg st)"
proof -
  show "distinct (map fst (global_snapshot st))"
    using mset_eq_imp_distinct_iff[OF names_of_global_snapshot] assms by (simp add: reg_inv_def hm_wf_def)
  show "fst ` set (global_snapshot st) = hm_keys (global_reg st)"
    using arg_cong[OF names_of_global_snapshot[of st], of set_mset] by (simp add: hm_keys_def)
  show "(\<Sum>x\<leftarrow>global_snapshot st. 2 * name_len (fst x)) = reg_bytes (global_reg st)"
    using arg_cong[OF names_of_global_snapshot[of st], of "\<lambda>M. sum_mset (image_mset (\<lambda>n. 2 * name_len n) M)"]
    by (simp add: reg_bytes_def hm_weight_def comp_def image_mset.compositionality flip: mset_map sum_mset_sum_list)
  show "length (global_snapshot st) = length (global_reg st)"
    by (simp add: global_snapshot_def)
qed

lemma snapshot_map_self:
  assumes inv: "reg_inv L st"
  shows "snapshot_map (global_snapshot st) = hm_get (global_reg st)"
proof -
  let ?es = "map (\<lambda>(n, pid, at). (n, snapshot_entry pid at)) (global_snapshot st)"
  have "distinct (map fst ?es)"
    using global_snapshot_names(1)[OF inv] by (simp add: case_prod_unfold comp_def)
  moreover have "snapshot_entry (global_pid e) (registered_at e) = e" if "(n, e) \<in> set (global_reg st)" for n e
  proof -
    have "reg_abs st (Global, n) = Some e"
      using that inv by (simp add: reg_abs_def scoped_entries_def reg_inv_def hm_get_mem)
    from entry_ok[OF inv this] show ?thesis by (cases e) (simp add: snapshot_entry_def)
  qed
  then have "set ?es = set (global_reg st)"
    by (force simp: global_snapshot_def image_iff)
  ultimately show ?thesis
    using inv by (simp add: snapshot_map_def reg_inv_def hm_wf_def map_of_inject_set)
qed

lemma replace_self_snapshot:
  assumes inv: "reg_inv L st"
  shows "\<exists>st'. replace_global_snapshot L (global_snapshot st) st = (Inr (), st')"
proof -
  note names = global_snapshot_names[OF inv]
  have lim: "reg_bytes (local_reg st) + reg_bytes (global_reg st) \<le> max_retained_bytes L"
    "reg_bytes (local_reg st) + reg_bytes (global_reg st) \<le> usize_max"
    "length (local_reg st) + length (global_reg st) \<le> max_entries L"
    "length (local_reg st) + length (global_reg st) \<le> usize_max"
    using inv by (auto simp: reg_inv_def usage_ok_def)
  have "validate_name L n = Inr ()" if "n \<in> hm_keys (global_reg st)" for n
    using that entry_ok[OF inv] by (metis hm_keysE reg_abs_Global)
  then obtain m where m: "build_global_snapshot L (global_snapshot st) [] 0 = Inr (m, reg_bytes (global_reg st))"
    using build_global_snapshot_ok[OF names(1), of L "[]" 0] names(2,3) lim by auto
  then have "length m = length (global_reg st)"
    using build_global_snapshot_Inr[OF m] names(4) by (simp add: reg_bytes_def)
  moreover have "retained_bytes_for_names 0 (map fst (local_reg st)) = Inr (reg_bytes (local_reg st))"
    using lim by (simp add: retained_bytes_for_names_eq reg_bytes_def hm_weight_def comp_def)
  ultimately show ?thesis
    using m lim names(4)
    by (simp add: replace_global_snapshot_def ensure_def ok_or_def checked_add_usize_def)
qed

text \<open>
  C20.  Coordinator snapshots are applied atomically.  A rejected snapshot changes nothing; an accepted
  one makes the global namespace exactly the snapshot and leaves the local one alone; and the snapshot
  a registry takes of itself is always accepted back and changes no entry.
\<close>

theorem global_snapshot_roundtrip:
  assumes inv: "reg_inv L st"
  shows "(case replace_global_snapshot L es st of
      (Inl e, st') \<Rightarrow> st' = st
    | (Inr u, st') \<Rightarrow> reg_inv L st' \<and> lookup_global n st' = snapshot_map es n \<and> lookup_local n st' = lookup_local n st) \<and>
    (\<exists>st'. replace_global_snapshot L (global_snapshot st) st = (Inr (), st') \<and> reg_abs st' = reg_abs st)"
proof
  obtain r st' where rep: "replace_global_snapshot L es st = (r, st')" by (metis surj_pair)
  have "lookup_global n s = reg_abs s (Global, n)" "lookup_local n s = reg_abs s (Local, n)" for s
    by (simp_all add: reg_abs_def scoped_entries_def lookup_global_def lookup_local_def)
  then show "case replace_global_snapshot L es st of
      (Inl e, st') \<Rightarrow> st' = st
    | (Inr u, st') \<Rightarrow> reg_inv L st' \<and> lookup_global n st' = snapshot_map es n \<and> lookup_local n st' = lookup_local n st"
    using replace_global_snapshot_result[OF inv rep] rep by (auto split: sum.splits)
next
  show "\<exists>st'. replace_global_snapshot L (global_snapshot st) st = (Inr (), st') \<and> reg_abs st' = reg_abs st"
  proof -
    obtain st' where st': "replace_global_snapshot L (global_snapshot st) st = (Inr (), st')"
      using replace_self_snapshot[OF inv] by blast
    then have "reg_abs st' = (\<lambda>(s, n). if s = Global then hm_get (global_reg st) n else reg_abs st (s, n))"
      using replace_global_snapshot_result[OF inv st'] unfolding snapshot_map_self[OF inv] by simp
    then show ?thesis
      using st' by (auto simp: fun_eq_iff reg_abs_def scoped_entries_def)
  qed
qed

theorem global_snapshot_roundtrip_witness:
  "\<exists>st'. replace_global_snapshot default_registry_limits (global_snapshot sample_registry) sample_registry = (Inr (), st') \<and>
     reg_abs st' = reg_abs sample_registry"
  using global_snapshot_roundtrip[OF registry.reachable_inv[OF sample_registry_reachable]] by blast

text \<open>
  C21.  The admission check a coordinator makes before committing agrees with the commit: it passes
  exactly if the name already belongs to the process or registering it now would succeed, and a
  committed registration is found by lookups while the local name hides it.
\<close>

theorem can_register_global_agrees:
  assumes inv: "reg_inv L st"
  shows "(can_register_global L n pid st = Inr () \<longleftrightarrow>
      (\<exists>e. lookup_global n st = Some e \<and> global_pid e = pid) \<and> validate_name L n = Inr () \<or>
      fst (register_global_untracked L now n pid st) = Inr ()) \<and>
    (fst (register_global_untracked L now n pid st) = Inr () \<longrightarrow>
      lookup_global n (snd (register_global_untracked L now n pid st)) =
        Some \<lparr>global_pid = pid, entry_scope = Global, registered_at = now\<rparr> \<and>
      lookup_local n (snd (register_global_untracked L now n pid st)) = lookup_local n st)"
proof
  have lg: "lookup_global n s = reg_abs s (Global, n)" "lookup_local n s = reg_abs s (Local, n)" for s
    by (simp_all add: reg_abs_def scoped_entries_def lookup_global_def lookup_local_def)
  note reg = register_result[OF inv, of "fst (register_global_untracked L now n pid st)"
      "snd (register_global_untracked L now n pid st)" now n pid Global, simplified]
  show "can_register_global L n pid st = Inr () \<longleftrightarrow>
      (\<exists>e. lookup_global n st = Some e \<and> global_pid e = pid) \<and> validate_name L n = Inr () \<or>
      fst (register_global_untracked L now n pid st) = Inr ()"
    using reg
    by (auto simp: can_register_global_def can_add_def result_simps lookup_global_def reg_abs_def scoped_entries_def
        split: option.splits)
  show "fst (register_global_untracked L now n pid st) = Inr () \<longrightarrow>
      lookup_global n (snd (register_global_untracked L now n pid st)) =
        Some \<lparr>global_pid = pid, entry_scope = Global, registered_at = now\<rparr> \<and>
      lookup_local n (snd (register_global_untracked L now n pid st)) = lookup_local n st"
    using reg by (simp add: lg)
qed

theorem can_register_global_agrees_witness:
  "can_register_global default_registry_limits [97] sample_pid sample_registry = Inr ()"
  using can_register_global_agrees[OF registry.reachable_inv[OF sample_registry_reachable], of "[97]" sample_pid]
  by (simp add: lookup_global_def sample_registry_eq validate_name_def is_control_def name_len_def utf8_len_def
      default_registry_limits_def)

end
