(* ===== verification/Environment.thy ===== *)
theory Environment
  imports Prelude
begin

text \<open>
  \<open>lunatic-process/src/env.rs\<close>: environments and the bounded registry of a node.  A process takes a
  slot of its environment and a lease of the node-wide quota; an environment takes a slot of the
  node.  The registry holds environments weakly, so an environment dies when its last owner drops
  it, and its identifier may be recreated as a new generation while the destructor of the old one is
  still waiting.  Reference counts are a heap of live objects; a destructor that has started but not
  yet locked the registry is a pending release.

  The \<open>expect\<close>s on the counters and on the identifier allocator are results \<open>None\<close>.
\<close>

section \<open>Counters\<close>

text \<open>\<open>fetch_update\<close> with a bound, with \<open>checked_add\<close>, and with \<open>checked_sub\<close>.\<close>

definition reserve_below :: "usize \<Rightarrow> usize \<Rightarrow> usize option" where
  "reserve_below limit count = (if count < limit then Some (count + 1) else None)"

definition release_one :: "usize \<Rightarrow> usize option" where
  "release_one count = checked_sub_usize count 1"

definition first_process_id :: u64 where
  "first_process_id = 1"

text \<open>\<open>ProcessIdAllocator::next\<close>: the allocated identifier and the new counter.\<close>

definition allocator_next :: "u64 \<Rightarrow> (u64 \<times> u64) option" where
  "allocator_next counter = map_option (\<lambda>c. (counter, c)) (checked_succ counter)"

section \<open>Environments\<close>

datatype env_error =
  ProcessLimitReached u64 usize
| NodeProcessLimitReached u64 usize
| EnvironmentLimitReached u64 usize
| AlreadyRegistered u64 u64
| ProcessCountOverflow u64
| GenerationsExhausted
| OtherModuleRegistry u64
| NoModuleRegistry u64

record node_process_quota =
  quota_count :: usize
  quota_limit :: usize

text \<open>A registered process with its node lease, if the environment belongs to a node.\<close>

record 'p process_entry =
  entry_process :: 'p
  node_lease :: bool

record 'p environment =
  env_id :: u64
  processes :: "(u64, 'p process_entry) hmap"
  process_count :: usize
  max_processes :: "usize option"
  has_quota :: bool
  module_registry :: "nat option"
  lifecycle :: "u64 option"

definition environment_with_node_options ::
  "u64 \<Rightarrow> usize option \<Rightarrow> bool \<Rightarrow> nat option \<Rightarrow> u64 option \<Rightarrow> 'p environment" where
  "environment_with_node_options i max_procs quota registry life =
     \<lparr>env_id = i, processes = [], process_count = 0, max_processes = max_procs, has_quota = quota,
      module_registry = registry, lifecycle = life\<rparr>"

definition quota_reserve :: "u64 \<Rightarrow> node_process_quota \<Rightarrow> env_error + node_process_quota" where
  "quota_reserve eid q =
     (case reserve_below (quota_limit q) (quota_count q) of
        None \<Rightarrow> Inl (NodeProcessLimitReached eid (quota_limit q))
      | Some c \<Rightarrow> Inr (q\<lparr>quota_count := c\<rparr>))"

text \<open>Dropping a \<open>NodeProcessLease\<close>.\<close>

definition lease_drop :: "node_process_quota \<Rightarrow> node_process_quota option" where
  "lease_drop q = map_option (\<lambda>c. q\<lparr>quota_count := c\<rparr>) (release_one (quota_count q))"

definition reserve_process_slot :: "'p environment \<Rightarrow> env_error + 'p environment" where
  "reserve_process_slot e =
     (case max_processes e of
        Some limit \<Rightarrow>
          (case reserve_below limit (process_count e) of
             None \<Rightarrow> Inl (ProcessLimitReached (env_id e) limit)
           | Some c \<Rightarrow> Inr (e\<lparr>process_count := c\<rparr>))
      | None \<Rightarrow>
          (case checked_add_usize (process_count e) 1 of
             None \<Rightarrow> Inl (ProcessCountOverflow (env_id e))
           | Some c \<Rightarrow> Inr (e\<lparr>process_count := c\<rparr>)))"

definition release_process_slot :: "'p environment \<Rightarrow> 'p environment option" where
  "release_process_slot e = map_option (\<lambda>c. e\<lparr>process_count := c\<rparr>) (release_one (process_count e))"

definition get_process :: "u64 \<Rightarrow> 'p environment \<Rightarrow> 'p option" where
  "get_process i e = map_option entry_process (hm_get (processes e) i)"

definition add_process ::
  "u64 \<Rightarrow> 'p \<Rightarrow> 'p environment \<Rightarrow> node_process_quota
     \<Rightarrow> ((env_error + unit) \<times> 'p environment \<times> node_process_quota) option" where
  "add_process i p e q =
     (case hm_get (processes e) i of
        Some _ \<Rightarrow> Some (Inl (AlreadyRegistered i (env_id e)), e, q)
      | None \<Rightarrow>
          (case reserve_process_slot e of
             Inl err \<Rightarrow> Some (Inl err, e, q)
           | Inr e1 \<Rightarrow>
               if has_quota e1 then
                 (case quota_reserve (env_id e1) q of
                    Inl err \<Rightarrow> map_option (\<lambda>e2. (Inl err, e2, q)) (release_process_slot e1)
                  | Inr q1 \<Rightarrow>
                      Some (Inr (), e1\<lparr>processes :=
                        hm_insert i \<lparr>entry_process = p, node_lease = True\<rparr> (processes e1)\<rparr>, q1))
               else
                 Some (Inr (), e1\<lparr>processes :=
                   hm_insert i \<lparr>entry_process = p, node_lease = False\<rparr> (processes e1)\<rparr>, q)))"

definition remove_process ::
  "u64 \<Rightarrow> 'p environment \<Rightarrow> node_process_quota \<Rightarrow> (bool \<times> 'p environment \<times> node_process_quota) option" where
  "remove_process i e q =
     (case hm_get (processes e) i of
        None \<Rightarrow> Some (False, e, q)
      | Some removed \<Rightarrow>
          (case release_process_slot (e\<lparr>processes := hm_remove i (processes e)\<rparr>) of
             None \<Rightarrow> None
           | Some e1 \<Rightarrow>
               if node_lease removed then map_option (\<lambda>q1. (True, e1, q1)) (lease_drop q)
               else Some (True, e1, q)))"

definition can_spawn_next_process :: "'p environment \<Rightarrow> node_process_quota \<Rightarrow> env_error + unit" where
  "can_spawn_next_process e q =
     and_then (case max_processes e of
                 None \<Rightarrow> Inr ()
               | Some limit \<Rightarrow> ensure (process_count e < limit) (ProcessLimitReached (env_id e) limit)) (\<lambda>_.
       if has_quota e
       then ensure (quota_count q < quota_limit q) (NodeProcessLimitReached (env_id e) (quota_limit q))
       else Inr ())"

text \<open>
  \<open>ProcessRegistration\<close>: the environment and the exit hook are taken by the first unregistration, so
  a guard acts once.  The hook's calls are counted.
\<close>

record registration =
  reg_environment :: bool
  reg_process_id :: u64
  reg_exit_hook :: bool

definition register_with_exit_hook ::
  "u64 \<Rightarrow> 'p \<Rightarrow> bool \<Rightarrow> 'p environment \<Rightarrow> node_process_quota
     \<Rightarrow> ((env_error + registration) \<times> 'p environment \<times> node_process_quota) option" where
  "register_with_exit_hook i p hook e q =
     map_option (\<lambda>(r, e', q').
       (case r of Inl err \<Rightarrow> Inl err
        | Inr _ \<Rightarrow> Inr \<lparr>reg_environment = True, reg_process_id = i, reg_exit_hook = hook\<rparr>, e', q'))
     (add_process i p e q)"

definition unregister_inner ::
  "registration \<Rightarrow> 'p environment \<Rightarrow> node_process_quota
     \<Rightarrow> (bool \<times> nat \<times> registration \<times> 'p environment \<times> node_process_quota) option" where
  "unregister_inner r e q =
     (let r' = r\<lparr>reg_environment := False, reg_exit_hook := False\<rparr>;
          hook_calls = (if reg_exit_hook r then 1 else 0)
      in if reg_environment r
         then map_option (\<lambda>(removed, e', q'). (removed, hook_calls, r', e', q'))
                (remove_process (reg_process_id r) e q)
         else Some (False, hook_calls, r', e, q))"

section \<open>The registry of a node\<close>

text \<open>
  \<open>StoredEnvironment\<close> with the addresses its two weak pointers refer to.  \<open>outers\<close> are the live
  \<open>Arc<LunaticEnvironment>\<close>s (with the inner they share), \<open>inners\<close> the live inner environments.
\<close>

record stored_environment =
  stored_generation :: u64
  stored_canonical :: nat
  stored_inner :: nat

record 'p node =
  envs :: "(u64, stored_environment) hmap"
  environment_count :: usize
  max_environments :: usize
  max_processes_per_environment :: usize
  node_quota :: node_process_quota
  next_process_id :: u64
  next_generation :: u64
  outers :: "(nat, nat) hmap"
  inners :: "(nat, 'p environment) hmap"
  dying :: "(u64 \<times> u64) list"
  next_addr :: nat

definition environments_with_limits :: "usize \<Rightarrow> usize \<Rightarrow> usize \<Rightarrow> 'p node" where
  "environments_with_limits max_envs max_procs max_node =
     \<lparr>envs = [], environment_count = 0, max_environments = max_envs,
      max_processes_per_environment = max_procs,
      node_quota = \<lparr>quota_count = 0, quota_limit = max_node\<rparr>,
      next_process_id = first_process_id, next_generation = 1,
      outers = [], inners = [], dying = [], next_addr = 0\<rparr>"

definition reserve_environment_slot :: "u64 \<Rightarrow> 'p node \<Rightarrow> env_error + 'p node" where
  "reserve_environment_slot eid n =
     (case reserve_below (max_environments n) (environment_count n) of
        None \<Rightarrow> Inl (EnvironmentLimitReached eid (max_environments n))
      | Some c \<Rightarrow> Inr (n\<lparr>environment_count := c\<rparr>))"

definition release_environment_slot :: "'p node \<Rightarrow> 'p node option" where
  "release_environment_slot n =
     map_option (\<lambda>c. n\<lparr>environment_count := c\<rparr>) (release_one (environment_count n))"

definition take_generation :: "'p node \<Rightarrow> env_error + u64 \<times> 'p node" where
  "take_generation n =
     (case checked_succ (next_generation n) of
        None \<Rightarrow> Inl GenerationsExhausted
      | Some g \<Rightarrow> Inr (next_generation n, n\<lparr>next_generation := g\<rparr>))"

definition release_generation :: "u64 \<Rightarrow> u64 \<Rightarrow> 'p node \<Rightarrow> (bool \<times> 'p node) option" where
  "release_generation eid g n =
     (case hm_get (envs n) eid of
        Some s \<Rightarrow>
          if stored_generation s = g
          then map_option (\<lambda>n'. (True, n'\<lparr>envs := hm_remove eid (envs n')\<rparr>)) (release_environment_slot n)
          else Some (False, n)
      | None \<Rightarrow> Some (False, n))"

definition validate_registry :: "'p environment \<Rightarrow> nat option \<Rightarrow> env_error + unit" where
  "validate_registry e registry =
     (case registry of
        None \<Rightarrow> Inr ()
      | Some requested \<Rightarrow>
          (case module_registry e of
             Some existing \<Rightarrow> if existing = requested then Inr () else Inl (OtherModuleRegistry (env_id e))
           | None \<Rightarrow> Inl (NoModuleRegistry (env_id e))))"

text \<open>Allocates the inner environment and one outer \<open>Arc\<close>; their addresses are returned.\<close>

definition build_environment ::
  "u64 \<Rightarrow> u64 \<Rightarrow> nat option \<Rightarrow> bool \<Rightarrow> 'p node \<Rightarrow> env_error + (nat \<times> nat) \<times> 'p node" where
  "build_environment eid g registry reserve_slot n =
     and_then (if reserve_slot then reserve_environment_slot eid n else Inr n) (\<lambda>n1.
       let ia = next_addr n1; oa = next_addr n1 + 1 in
       Inr ((oa, ia),
            n1\<lparr>inners := hm_insert ia
                 (environment_with_node_options eid (Some (max_processes_per_environment n1)) True registry (Some g))
                 (inners n1),
               outers := hm_insert oa ia (outers n1), next_addr := next_addr n1 + 2\<rparr>))"

definition store_environment :: "u64 \<Rightarrow> u64 \<Rightarrow> nat \<Rightarrow> nat \<Rightarrow> 'p node \<Rightarrow> 'p node" where
  "store_environment eid g oa ia n =
     n\<lparr>envs := hm_insert eid \<lparr>stored_generation = g, stored_canonical = oa, stored_inner = ia\<rparr> (envs n)\<rparr>"

text \<open>A new canonical outer for a live inner environment.\<close>

definition rebuild_outer :: "u64 \<Rightarrow> stored_environment \<Rightarrow> 'p node \<Rightarrow> nat \<times> 'p node" where
  "rebuild_outer eid s n =
     (let oa = next_addr n in
      (oa, n\<lparr>outers := hm_insert oa (stored_inner s) (outers n), next_addr := next_addr n + 1,
             envs := hm_insert eid (s\<lparr>stored_canonical := oa\<rparr>) (envs n)\<rparr>))"

text \<open>
  An outer keeps its inner alive, so the inner of a live outer is found.  A rebuilt outer that fails
  validation is dropped on return.
\<close>

definition create_atomic :: "u64 \<Rightarrow> nat option \<Rightarrow> 'p node \<Rightarrow> (env_error + nat) \<times> 'p node" where
  "create_atomic eid registry n =
     (case hm_get (envs n) eid of
        Some s \<Rightarrow>
          (case hm_get (outers n) (stored_canonical s) of
             Some ia \<Rightarrow>
               (case hm_get (inners n) ia of
                  Some e \<Rightarrow> (and_then (validate_registry e registry) (\<lambda>_. Inr (stored_canonical s)), n)
                | None \<Rightarrow> (Inr (stored_canonical s), n))
           | None \<Rightarrow>
               (case hm_get (inners n) (stored_inner s) of
                  Some e \<Rightarrow>
                    (case rebuild_outer eid s n of
                       (oa, n') \<Rightarrow>
                         (case validate_registry e registry of
                            Inl err \<Rightarrow> (Inl err, n'\<lparr>outers := hm_remove oa (outers n')\<rparr>)
                          | Inr _ \<Rightarrow> (Inr oa, n')))
                | None \<Rightarrow>
                    (case take_generation n of
                       Inl err \<Rightarrow> (Inl err, n)
                     | Inr (g, n1) \<Rightarrow>
                         (case build_environment eid g registry False n1 of
                            Inl err \<Rightarrow> (Inl err, n1)
                          | Inr ((oa, ia), n2) \<Rightarrow> (Inr oa, store_environment eid g oa ia n2)))))
      | None \<Rightarrow>
          (case take_generation n of
             Inl err \<Rightarrow> (Inl err, n)
           | Inr (g, n1) \<Rightarrow>
               (case build_environment eid g registry True n1 of
                  Inl err \<Rightarrow> (Inl err, n1)
                | Inr ((oa, ia), n2) \<Rightarrow> (Inr oa, store_environment eid g oa ia n2))))"

definition env_get :: "u64 \<Rightarrow> 'p node \<Rightarrow> nat option \<times> 'p node" where
  "env_get eid n =
     (case hm_get (envs n) eid of
        None \<Rightarrow> (None, n)
      | Some s \<Rightarrow>
          (case hm_get (outers n) (stored_canonical s) of
             Some _ \<Rightarrow> (Some (stored_canonical s), n)
           | None \<Rightarrow>
               (case hm_get (inners n) (stored_inner s) of
                  None \<Rightarrow> (None, n)
                | Some e \<Rightarrow> (case rebuild_outer eid s n of (oa, n') \<Rightarrow> (Some oa, n')))))"

section \<open>Owners, destructors and the machine\<close>

text \<open>Dropping the process map of a dying environment returns the leases of its entries.\<close>

fun drop_entries :: "(u64, 'p process_entry) hmap \<Rightarrow> node_process_quota \<Rightarrow> node_process_quota option" where
  "drop_entries [] q = Some q"
| "drop_entries ((i, e) # es) q =
     (if node_lease e then Option.bind (lease_drop q) (drop_entries es) else drop_entries es q)"

text \<open>
  The last owner of an inner environment goes away: its fields are dropped in declaration order, the
  process map before the lifetime, whose \<open>drop\<close> then waits for the registry entry.
\<close>

definition drop_inner :: "nat \<Rightarrow> 'p node \<Rightarrow> 'p node option" where
  "drop_inner ia n =
     (case hm_get (inners n) ia of
        None \<Rightarrow> Some n
      | Some e \<Rightarrow>
          map_option (\<lambda>q. n\<lparr>inners := hm_remove ia (inners n), node_quota := q,
                           dying := (case lifecycle e of None \<Rightarrow> dying n | Some g \<Rightarrow> (env_id e, g) # dying n)\<rparr>)
            (drop_entries (processes e) (node_quota n)))"

datatype 'p node_op =
  CreateEnv u64 "nat option"
| GetEnv u64
| DropOuter nat
| DropInner nat
| RunDestructor u64 u64
| AddProcess nat u64 'p
| RemoveProcess nat u64
| AllocProcessId

text \<open>
  One atomic action; \<open>None\<close> is a panic.  An inner environment is dropped only when no outer refers
  to it, and a destructor runs only once it is pending; other requests are no steps.
\<close>

fun node_enabled :: "'p node_op \<Rightarrow> 'p node \<Rightarrow> bool" where
  "node_enabled (DropInner ia) n = (ia \<notin> snd ` set (outers n))"
| "node_enabled (RunDestructor eid g) n = ((eid, g) \<in> set (dying n))"
| "node_enabled (AddProcess ia i p) n = (hm_get (inners n) ia \<noteq> None)"
| "node_enabled (RemoveProcess ia i) n = (hm_get (inners n) ia \<noteq> None)"
| "node_enabled AllocProcessId n = (next_process_id n \<noteq> - 1)"
| "node_enabled _ n = True"

definition update_env :: "nat \<Rightarrow> 'p environment \<Rightarrow> node_process_quota \<Rightarrow> 'p node \<Rightarrow> 'p node" where
  "update_env ia e q n = n\<lparr>inners := hm_insert ia e (inners n), node_quota := q\<rparr>"

fun node_step :: "'p node_op \<Rightarrow> 'p node \<Rightarrow> 'p node option" where
  "node_step (CreateEnv eid registry) n = Some (snd (create_atomic eid registry n))"
| "node_step (GetEnv eid) n = Some (snd (env_get eid n))"
| "node_step (DropOuter oa) n = Some (n\<lparr>outers := hm_remove oa (outers n)\<rparr>)"
| "node_step (DropInner ia) n = drop_inner ia n"
| "node_step (RunDestructor eid g) n =
     map_option snd (release_generation eid g (n\<lparr>dying := remove1 (eid, g) (dying n)\<rparr>))"
| "node_step (AddProcess ia i p) n =
     (case hm_get (inners n) ia of
        None \<Rightarrow> Some n
      | Some e \<Rightarrow> map_option (\<lambda>(r, e', q'). update_env ia e' q' n) (add_process i p e (node_quota n)))"
| "node_step (RemoveProcess ia i) n =
     (case hm_get (inners n) ia of
        None \<Rightarrow> Some n
      | Some e \<Rightarrow> map_option (\<lambda>(r, e', q'). update_env ia e' q' n) (remove_process i e (node_quota n)))"
| "node_step AllocProcessId n =
     map_option (\<lambda>(i, c). n\<lparr>next_process_id := c\<rparr>) (allocator_next (next_process_id n))"

section \<open>Invariant\<close>

text \<open>An environment of the node: exact process count within its limit, every entry leased.\<close>

definition env_ok :: "'p node \<Rightarrow> nat \<Rightarrow> 'p environment \<Rightarrow> bool" where
  "env_ok n ia e \<longleftrightarrow>
     hm_wf (processes e) \<and> process_count e = length (processes e) \<and>
     max_processes e = Some (max_processes_per_environment n) \<and>
     process_count e \<le> max_processes_per_environment n \<and> has_quota e \<and>
     list_all (\<lambda>x. node_lease (snd x)) (processes e) \<and>
     (\<exists>g s. lifecycle e = Some g \<and> hm_get (envs n) (env_id e) = Some s \<and> stored_generation s = g \<and>
            stored_inner s = ia)"

definition stored_ok :: "'p node \<Rightarrow> u64 \<Rightarrow> stored_environment \<Rightarrow> bool" where
  "stored_ok n eid s \<longleftrightarrow>
     stored_generation s < next_generation n \<and> stored_inner s < next_addr n \<and> stored_canonical s < next_addr n \<and>
     ((\<exists>e. hm_get (inners n) (stored_inner s) = Some e \<and> env_id e = eid) \<or>
      hm_get (inners n) (stored_inner s) = None \<and> (eid, stored_generation s) \<in> set (dying n))"

definition addrs_ok :: "'p node \<Rightarrow> bool" where
  "addrs_ok n \<longleftrightarrow> hm_wf (envs n) \<and> hm_wf (outers n) \<and> hm_wf (inners n) \<and>
     (\<forall>a \<in> hm_keys (outers n) \<union> hm_keys (inners n). a < next_addr n) \<and>
     (\<forall>oa ia. hm_get (outers n) oa = Some ia \<longrightarrow> ia \<in> hm_keys (inners n))"

definition counts_ok :: "'p node \<Rightarrow> bool" where
  "counts_ok n \<longleftrightarrow> environment_count n = length (envs n) \<and> environment_count n \<le> max_environments n \<and>
     quota_count (node_quota n) = hm_total (\<lambda>e. length (processes e)) (inners n) \<and>
     quota_count (node_quota n) \<le> quota_limit (node_quota n)"

definition live_ok :: "'p node \<Rightarrow> bool" where
  "live_ok n \<longleftrightarrow> (\<forall>ia e. hm_get (inners n) ia = Some e \<longrightarrow> env_ok n ia e)"

definition registered_ok :: "'p node \<Rightarrow> bool" where
  "registered_ok n \<longleftrightarrow> (\<forall>eid s. hm_get (envs n) eid = Some s \<longrightarrow> stored_ok n eid s)"

text \<open>A pending release never belongs to a live environment.\<close>

definition dying_ok :: "'p node \<Rightarrow> bool" where
  "dying_ok n \<longleftrightarrow> (\<forall>eid g. (eid, g) \<in> set (dying n) \<longrightarrow> g < next_generation n \<and>
     (\<forall>ia e. hm_get (inners n) ia = Some e \<and> env_id e = eid \<longrightarrow> lifecycle e \<noteq> Some g))"

definition node_inv :: "'p node \<Rightarrow> bool" where
  "node_inv n \<longleftrightarrow> addrs_ok n \<and> counts_ok n \<and> live_ok n \<and> registered_ok n \<and> dying_ok n"

text \<open>The part of \<open>env_ok\<close> that does not mention the registry.\<close>

definition env_counts_ok :: "usize \<Rightarrow> 'p environment \<Rightarrow> bool" where
  "env_counts_ok limit e \<longleftrightarrow>
     hm_wf (processes e) \<and> process_count e = length (processes e) \<and> max_processes e = Some limit \<and>
     process_count e \<le> limit \<and> has_quota e \<and> list_all (\<lambda>x. node_lease (snd x)) (processes e)"

lemma env_ok_iff:
  "env_ok n ia e \<longleftrightarrow> env_counts_ok (max_processes_per_environment n) e \<and>
     (\<exists>g s. lifecycle e = Some g \<and> hm_get (envs n) (env_id e) = Some s \<and> stored_generation s = g \<and> stored_inner s = ia)"
  by (auto simp: env_ok_def env_counts_ok_def)

text \<open>Admission either fails and changes nothing, or takes one slot and one lease.\<close>

lemma add_process_cases:
  assumes "env_counts_ok limit e"
  obtains (rejected) err where "add_process i p e q = Some (Inl err, e, q)"
      "hm_get (processes e) i \<noteq> None \<or> limit \<le> process_count e \<or> quota_limit q \<le> quota_count q"
  | (admitted) e' where "add_process i p e q = Some (Inr (), e', q\<lparr>quota_count := Suc (quota_count q)\<rparr>)"
      "hm_get (processes e) i = None" "process_count e < limit" "quota_count q < quota_limit q"
      "e' = e\<lparr>process_count := Suc (process_count e),
             processes := hm_insert i \<lparr>entry_process = p, node_lease = True\<rparr> (processes e)\<rparr>"
      "env_counts_ok limit e'"
proof (cases "hm_get (processes e) i = None \<and> process_count e < limit \<and> quota_count q < quota_limit q")
  case True
  let ?e = "e\<lparr>process_count := Suc (process_count e),
      processes := hm_insert i \<lparr>entry_process = p, node_lease = True\<rparr> (processes e)\<rparr>"
  have "env_counts_ok limit ?e"
    using assms True hm_insert_subset[of i "\<lparr>entry_process = p, node_lease = True\<rparr>" "processes e"]
    by (auto simp: env_counts_ok_def hm_len_insert list_all_iff)
  then show ?thesis
    using assms True admitted[of ?e]
    by (simp add: add_process_def env_counts_ok_def reserve_process_slot_def reserve_below_def quota_reserve_def)
next
  case False
  have "\<exists>err. add_process i p e q = Some (Inl err, e, q)"
    using assms False
    by (auto simp: add_process_def env_counts_ok_def reserve_process_slot_def reserve_below_def quota_reserve_def
        release_process_slot_def release_one_def checked_sub_usize_def split: option.splits)
  then show ?thesis using False rejected by (auto simp: not_less)
qed

lemma remove_process_cases:
  assumes "env_counts_ok limit e"
  obtains (absent) "remove_process i e q = Some (False, e, q)" "hm_get (processes e) i = None"
  | (present) e' x where "hm_get (processes e) i = Some x"
      "e' = e\<lparr>processes := hm_remove i (processes e), process_count := process_count e - 1\<rparr>"
      "0 < process_count e" "env_counts_ok limit e'"
      "remove_process i e q = map_option (\<lambda>q1. (True, e', q1)) (lease_drop q)"
proof (cases "hm_get (processes e) i")
  case None
  then show ?thesis using absent by (simp add: remove_process_def)
next
  case (Some x)
  let ?e = "e\<lparr>processes := hm_remove i (processes e), process_count := process_count e - 1\<rparr>"
  have len: "Suc (length (hm_remove i (processes e))) = length (processes e)"
    using hm_len_remove[OF _ Some] assms by (simp add: env_counts_ok_def)
  have leased: "node_lease x"
    using assms map_of_SomeD[OF Some] by (auto simp: env_counts_ok_def list_all_iff)
  have "env_counts_ok limit ?e"
    using assms len hm_remove_subset[of i "processes e"]
    by (auto simp: env_counts_ok_def list_all_iff)
  moreover have "0 < process_count e" using len assms by (cases "processes e") (auto simp: env_counts_ok_def)
  ultimately show ?thesis
    using present[OF Some refl] leased Some
    by (simp add: remove_process_def release_process_slot_def release_one_def checked_sub_usize_def)
qed

lemma node_inv_update_env:
  assumes inv: "node_inv n" and e: "hm_get (inners n) ia = Some e"
    and e': "env_id e' = env_id e" "lifecycle e' = lifecycle e" "env_counts_ok (max_processes_per_environment n) e'"
    and q: "quota_count q' + length (processes e) = quota_count (node_quota n) + length (processes e')"
      "quota_limit q' = quota_limit (node_quota n)" "quota_count q' \<le> quota_limit q'"
  shows "node_inv (update_env ia e' q' n)"
proof -
  let ?n = "update_env ia e' q' n"
  have key: "ia \<in> hm_keys (inners n)" using e by (rule hm_get_SomeD)
  have ok: "env_ok n ia e'"
    using inv e e' by (auto simp: node_inv_def live_ok_def env_ok_iff)
  have frame: "envs ?n = envs n" "max_processes_per_environment ?n = max_processes_per_environment n"
    "hm_get (inners ?n) = (hm_get (inners n))(ia \<mapsto> e')" "outers ?n = outers n" "dying ?n = dying n"
    "next_generation ?n = next_generation n" "next_addr ?n = next_addr n" "hm_keys (inners ?n) = hm_keys (inners n)"
    using key by (auto simp: update_env_def hm_get_insert hm_keys_insert)
  have "hm_total (\<lambda>e. length (processes e)) (hm_insert ia e' (inners n)) = quota_count q'"
    using hm_total_insert_present[OF e, of "\<lambda>e. length (processes e)" e'] q(1) inv
    by (simp add: node_inv_def counts_ok_def)
  then have "counts_ok ?n" using inv q by (simp add: node_inv_def counts_ok_def update_env_def)
  moreover have "addrs_ok ?n"
    using inv unfolding node_inv_def addrs_ok_def frame by (auto simp: update_env_def)
  moreover have "live_ok ?n"
    using inv ok unfolding node_inv_def live_ok_def env_ok_iff frame by (auto split: if_splits)
  moreover have "registered_ok ?n"
    unfolding registered_ok_def
  proof (intro allI impI)
    fix k s
    assume "hm_get (envs ?n) k = Some s"
    then have "stored_ok n k s" using inv by (simp add: frame node_inv_def registered_ok_def)
    then show "stored_ok ?n k s"
      using e e'(1) by (cases "stored_inner s = ia") (simp_all add: stored_ok_def frame)
  qed
  moreover have "dying_ok ?n"
    using inv e e'(1,2) unfolding node_inv_def dying_ok_def frame by (auto split: if_splits)
  ultimately show ?thesis by (simp add: node_inv_def)
qed

text \<open>Installing a fresh environment under a vacant identifier, or one whose environment is dead.\<close>

lemma install_inv:
  assumes inv: "node_inv n" and gen: "next_generation n \<noteq> - 1"
    and dead: "\<And>s. hm_get (envs n) eid = Some s \<Longrightarrow> hm_get (inners n) (stored_inner s) = None"
    and cnt: "cnt = length (hm_insert eid snew (envs n))" "cnt \<le> max_environments n"
    and new: "ia = next_addr n" "oa = next_addr n + 1"
      "snew = \<lparr>stored_generation = next_generation n, stored_canonical = oa, stored_inner = ia\<rparr>"
      "enew = environment_with_node_options eid (Some (max_processes_per_environment n)) True registry (Some (next_generation n))"
  shows "node_inv (n\<lparr>next_generation := next_generation n + 1, environment_count := cnt,
      inners := hm_insert ia enew (inners n), outers := hm_insert oa ia (outers n),
      next_addr := next_addr n + 2, envs := hm_insert eid snew (envs n)\<rparr>)" (is "node_inv ?n")
proof -
  note parts = inv[unfolded node_inv_def]
  have fresh: "ia \<notin> hm_keys (inners n)"
    using parts new(1) unfolding addrs_ok_def by blast
  have "addrs_ok ?n"
    using parts new(1,2) unfolding addrs_ok_def by (auto simp: hm_get_insert hm_keys_insert less_SucI)
  moreover have "counts_ok ?n"
    using parts cnt fresh unfolding counts_ok_def
    by (simp add: hm_total_insert_absent new(4) environment_with_node_options_def)
  moreover have "live_ok ?n"
    unfolding live_ok_def
  proof (intro allI impI)
    fix ia' e
    assume e: "hm_get (inners ?n) ia' = Some e"
    show "env_ok ?n ia' e"
    proof (cases "ia' = ia")
      case True
      then show ?thesis
        using e by (auto simp: env_ok_def new(3,4) hm_get_insert environment_with_node_options_def)
    next
      case False
      then have old: "env_ok n ia' e" "hm_get (inners n) ia' = Some e"
        using e parts by (auto simp: hm_get_insert live_ok_def)
      then obtain s where "hm_get (envs n) (env_id e) = Some s" "stored_inner s = ia'"
        unfolding env_ok_def by blast
      with old(2) have "env_id e \<noteq> eid" using dead[of s] by auto
      then show ?thesis using old(1) by (simp add: env_ok_def hm_get_insert)
    qed
  qed
  moreover have "registered_ok ?n"
    unfolding registered_ok_def
  proof (intro allI impI)
    fix k s
    assume s: "hm_get (envs ?n) k = Some s"
    show "stored_ok ?n k s"
    proof (cases "k = eid")
      case True
      then show ?thesis
        using s gen by (auto simp: stored_ok_def hm_get_insert new environment_with_node_options_def less_succ_word self_less_succ_word)
    next
      case False
      then have old: "stored_ok n k s" using s parts by (simp add: hm_get_insert registered_ok_def)
      then have "stored_inner s \<noteq> ia" using new(1) by (simp add: stored_ok_def)
      then show ?thesis using old gen by (simp add: stored_ok_def hm_get_insert less_succ_word self_less_succ_word)
    qed
  qed
  moreover have "dying_ok ?n"
    unfolding dying_ok_def
  proof (intro allI impI)
    fix k g
    assume "(k, g) \<in> set (dying ?n)"
    then have "g < next_generation n"
      "\<forall>ia e. hm_get (inners n) ia = Some e \<and> env_id e = k \<longrightarrow> lifecycle e \<noteq> Some g"
      using parts by (auto simp: dying_ok_def)
    then show "g < next_generation ?n \<and>
        (\<forall>ia e. hm_get (inners ?n) ia = Some e \<and> env_id e = k \<longrightarrow> lifecycle e \<noteq> Some g)"
      using gen by (auto simp: hm_get_insert new(4) environment_with_node_options_def less_succ_word self_less_succ_word)
  qed
  ultimately show ?thesis by (simp add: node_inv_def)
qed

text \<open>What the parts of the invariant do not depend on.\<close>

lemma addrs_ok_update [simp]:
  "addrs_ok (n\<lparr>next_generation := x_next_generation\<rparr>) = addrs_ok n"
  "addrs_ok (n\<lparr>dying := x_dying\<rparr>) = addrs_ok n"
  "addrs_ok (n\<lparr>node_quota := x_node_quota\<rparr>) = addrs_ok n"
  "addrs_ok (n\<lparr>environment_count := x_environment_count\<rparr>) = addrs_ok n"
  "addrs_ok (n\<lparr>next_process_id := x_next_process_id\<rparr>) = addrs_ok n"
  by (simp_all add: addrs_ok_def)

lemma counts_ok_update [simp]:
  "counts_ok (n\<lparr>outers := x_outers\<rparr>) = counts_ok n"
  "counts_ok (n\<lparr>next_addr := x_next_addr\<rparr>) = counts_ok n"
  "counts_ok (n\<lparr>next_generation := x_next_generation\<rparr>) = counts_ok n"
  "counts_ok (n\<lparr>dying := x_dying\<rparr>) = counts_ok n"
  "counts_ok (n\<lparr>next_process_id := x_next_process_id\<rparr>) = counts_ok n"
  by (simp_all add: counts_ok_def)

lemma live_ok_update [simp]:
  "live_ok (n\<lparr>outers := x_outers\<rparr>) = live_ok n"
  "live_ok (n\<lparr>next_addr := x_next_addr\<rparr>) = live_ok n"
  "live_ok (n\<lparr>next_generation := x_next_generation\<rparr>) = live_ok n"
  "live_ok (n\<lparr>dying := x_dying\<rparr>) = live_ok n"
  "live_ok (n\<lparr>node_quota := x_node_quota\<rparr>) = live_ok n"
  "live_ok (n\<lparr>environment_count := x_environment_count\<rparr>) = live_ok n"
  "live_ok (n\<lparr>next_process_id := x_next_process_id\<rparr>) = live_ok n"
  by (simp_all add: live_ok_def env_ok_def)

lemma registered_ok_update [simp]:
  "registered_ok (n\<lparr>outers := x_outers\<rparr>) = registered_ok n"
  "registered_ok (n\<lparr>node_quota := x_node_quota\<rparr>) = registered_ok n"
  "registered_ok (n\<lparr>environment_count := x_environment_count\<rparr>) = registered_ok n"
  "registered_ok (n\<lparr>next_process_id := x_next_process_id\<rparr>) = registered_ok n"
  by (simp_all add: registered_ok_def stored_ok_def)

lemma dying_ok_update [simp]:
  "dying_ok (n\<lparr>outers := x_outers\<rparr>) = dying_ok n"
  "dying_ok (n\<lparr>next_addr := x_next_addr\<rparr>) = dying_ok n"
  "dying_ok (n\<lparr>envs := x_envs\<rparr>) = dying_ok n"
  "dying_ok (n\<lparr>node_quota := x_node_quota\<rparr>) = dying_ok n"
  "dying_ok (n\<lparr>environment_count := x_environment_count\<rparr>) = dying_ok n"
  "dying_ok (n\<lparr>next_process_id := x_next_process_id\<rparr>) = dying_ok n"
  by (simp_all add: dying_ok_def)

lemma stored_ok_mono:
  "stored_ok n k s \<Longrightarrow> inners n' = inners n \<Longrightarrow> dying n' = dying n \<Longrightarrow> next_addr n \<le> next_addr n' \<Longrightarrow>
   next_generation n \<le> next_generation n' \<Longrightarrow> stored_ok n' k s"
  by (auto simp: stored_ok_def)

lemma registered_ok_addr: "registered_ok n \<Longrightarrow> next_addr n \<le> na \<Longrightarrow> registered_ok (n\<lparr>next_addr := na\<rparr>)"
  unfolding registered_ok_def using stored_ok_mono[of n _ _ "n\<lparr>next_addr := na\<rparr>"] by simp

text \<open>Changes to the outer pointers only.\<close>

lemma outers_inv:
  assumes inv: "node_inv n" and "hm_wf os" "\<And>oa ia. hm_get os oa = Some ia \<Longrightarrow> oa < na \<and> ia \<in> hm_keys (inners n)"
    "next_addr n \<le> na"
  shows "node_inv (n\<lparr>outers := os, next_addr := na\<rparr>)"
proof -
  have "a < na" if "a \<in> hm_keys os \<union> hm_keys (inners n)" for a
    using that
  proof
    assume "a \<in> hm_keys os"
    then show ?thesis using assms(3) by (meson hm_keysE)
  next
    assume "a \<in> hm_keys (inners n)"
    then have "a < next_addr n" using inv unfolding node_inv_def addrs_ok_def by blast
    then show ?thesis using assms(4) by simp
  qed
  then have "addrs_ok (n\<lparr>outers := os, next_addr := na\<rparr>)"
    using assms by (auto simp: node_inv_def addrs_ok_def)
  then show ?thesis
    using inv registered_ok_addr[of "n\<lparr>outers := os\<rparr>" na] assms(4) by (simp add: node_inv_def)
qed

lemma outer_live:
  assumes "node_inv n" "hm_get (outers n) oa = Some ia"
  shows "oa < next_addr n \<and> ia \<in> hm_keys (inners n)"
  using assms hm_get_SomeD[OF assms(2)] unfolding node_inv_def addrs_ok_def by blast

lemma drop_outer_inv:
  assumes inv: "node_inv n"
  shows "node_inv (n\<lparr>outers := hm_remove oa (outers n)\<rparr>)"
proof -
  have "node_inv (n\<lparr>outers := hm_remove oa (outers n), next_addr := next_addr n\<rparr>)"
  proof (rule outers_inv[OF inv])
    show "hm_wf (hm_remove oa (outers n))" using inv by (simp add: node_inv_def addrs_ok_def)
    show "oa' < next_addr n \<and> ia \<in> hm_keys (inners n)" if "hm_get (hm_remove oa (outers n)) oa' = Some ia" for oa' ia
      using that outer_live[OF inv] by (simp add: hm_get_remove split: if_splits)
  qed simp
  then show ?thesis by simp
qed

lemma canonical_inv:
  assumes inv: "node_inv n" and s: "hm_get (envs n) eid = Some s" and oa: "oa < next_addr n"
  shows "node_inv (n\<lparr>envs := hm_insert eid (s\<lparr>stored_canonical := oa\<rparr>) (envs n)\<rparr>)" (is "node_inv ?n")
proof -
  have get: "hm_get (envs ?n) = (hm_get (envs n))(eid \<mapsto> s\<lparr>stored_canonical := oa\<rparr>)"
    by (simp add: hm_get_insert)
  have "env_ok ?n ia e" if "env_ok n ia e" for ia e
    using that s unfolding env_ok_def get by auto
  then have "live_ok ?n" using inv by (simp add: node_inv_def live_ok_def)
  moreover have "registered_ok ?n"
    using inv s oa unfolding node_inv_def registered_ok_def get by (auto simp: stored_ok_def)
  moreover have "addrs_ok ?n" using inv by (simp add: node_inv_def addrs_ok_def)
  moreover have "counts_ok ?n" using inv s by (simp add: node_inv_def counts_ok_def hm_len_insert)
  ultimately show ?thesis
    using inv by (simp add: node_inv_def)
qed

lemma rebuild_outer_inv:
  assumes inv: "node_inv n" and s: "hm_get (envs n) eid = Some s" and e: "hm_get (inners n) (stored_inner s) = Some e"
    and r: "rebuild_outer eid s n = (oa, n')"
  shows "node_inv n'"
proof -
  let ?n = "n\<lparr>outers := hm_insert (next_addr n) (stored_inner s) (outers n), next_addr := next_addr n + 1\<rparr>"
  have "node_inv ?n"
    using inv outer_live[OF inv] hm_get_SomeD[OF e]
    by (intro outers_inv) (auto simp: hm_get_insert node_inv_def addrs_ok_def less_SucI split: if_splits)
  then have "node_inv (?n\<lparr>envs := hm_insert eid (s\<lparr>stored_canonical := next_addr n\<rparr>) (envs ?n)\<rparr>)"
    using s by (intro canonical_inv) auto
  then show ?thesis using r by (auto simp: rebuild_outer_def Let_def)
qed

lemma generation_inv:
  assumes "node_inv n" "next_generation n \<noteq> - 1"
  shows "node_inv (n\<lparr>next_generation := next_generation n + 1\<rparr>)"
proof -
  have le: "next_generation n < next_generation n + 1" using self_less_succ_word[OF assms(2)] .
  have "registered_ok (n\<lparr>next_generation := next_generation n + 1\<rparr>)"
    using assms(1) le stored_ok_mono[of n _ _ "n\<lparr>next_generation := next_generation n + 1\<rparr>"]
    unfolding node_inv_def registered_ok_def by simp
  moreover have "dying_ok (n\<lparr>next_generation := next_generation n + 1\<rparr>)"
    using assms(1) le unfolding node_inv_def dying_ok_def by (auto intro: less_trans)
  ultimately show ?thesis using assms(1) by (simp add: node_inv_def)
qed

lemma create_atomic_inv:
  assumes inv: "node_inv n" and c: "create_atomic eid registry n = (r, n')"
  shows "node_inv n'"
proof (cases "hm_get (envs n) eid")
  case None
  have len: "length (hm_insert eid x (envs n)) = Suc (environment_count n)" for x
    using inv None by (simp add: hm_len_insert node_inv_def counts_ok_def)
  show ?thesis
  proof (cases "next_generation n = - 1 \<or> max_environments n \<le> environment_count n")
    case True
    then show ?thesis
      using c None inv generation_inv[OF inv]
      by (auto simp: create_atomic_def take_generation_def checked_succ_def build_environment_def
          reserve_environment_slot_def reserve_below_def split: if_splits)
  next
    case False
    then show ?thesis
      using install_inv[OF inv, of eid "Suc (environment_count n)"] None c len
      by (auto simp: create_atomic_def take_generation_def checked_succ_def build_environment_def
          reserve_environment_slot_def reserve_below_def store_environment_def Let_def)
  qed
next
  case (Some s)
  show ?thesis
  proof (cases "hm_get (outers n) (stored_canonical s)")
    case None
    show ?thesis
    proof (cases "hm_get (inners n) (stored_inner s)")
      case dead: None
      have "length (hm_insert eid x (envs n)) = environment_count n" "environment_count n \<le> max_environments n" for x
        using inv Some by (simp_all add: hm_len_insert node_inv_def counts_ok_def)
      then show ?thesis
        using install_inv[OF inv, of eid "environment_count n"] Some None dead c inv
        by (auto simp: create_atomic_def take_generation_def checked_succ_def build_environment_def
            store_environment_def Let_def split: if_splits)
    next
      case (Some e)
      then show ?thesis
        using rebuild_outer_inv[OF inv \<open>hm_get (envs n) eid = Some s\<close> Some] drop_outer_inv c None
          \<open>hm_get (envs n) eid = Some s\<close>
        by (auto simp: create_atomic_def split: prod.splits sum.splits)
    qed
  next
    case (Some ia)
    then show ?thesis
      using c inv \<open>hm_get (envs n) eid = Some s\<close> by (auto simp: create_atomic_def split: option.splits)
  qed
qed

lemma env_get_inv: "node_inv n \<Longrightarrow> env_get eid n = (r, n') \<Longrightarrow> node_inv n'"
  by (auto simp: env_get_def split: option.splits prod.splits dest: rebuild_outer_inv)

text \<open>Dropping the entries of an environment returns exactly their leases.\<close>

lemma drop_entries_leased:
  "list_all (\<lambda>x. node_lease (snd x)) es \<Longrightarrow> length es \<le> quota_count q \<Longrightarrow>
     drop_entries es q = Some (q\<lparr>quota_count := quota_count q - length es\<rparr>)"
proof (induction es arbitrary: q)
  case (Cons x es)
  then show ?case
    by (cases x) (auto simp: lease_drop_def release_one_def checked_sub_usize_def)
qed simp

lemma live_environment:
  assumes "node_inv n" "hm_get (inners n) ia = Some e"
  shows "env_counts_ok (max_processes_per_environment n) e"
    "\<exists>g s. lifecycle e = Some g \<and> hm_get (envs n) (env_id e) = Some s \<and> stored_generation s = g \<and> stored_inner s = ia"
    "length (processes e) \<le> quota_count (node_quota n)"
  using assms hm_total_member[OF assms(2), of "\<lambda>e. length (processes e)"]
  by (auto simp: node_inv_def live_ok_def env_ok_iff counts_ok_def)

text \<open>An identifier names at most one live environment.\<close>

lemma live_unique:
  assumes "node_inv n" "hm_get (inners n) a = Some e" "hm_get (inners n) b = Some f" "env_id e = env_id f"
  shows "a = b"
  using live_environment(2)[OF assms(1,2)] live_environment(2)[OF assms(1,3)] assms(4) by auto

lemma drop_inner_inv:
  assumes inv: "node_inv n" and e: "hm_get (inners n) ia = Some e" and free: "ia \<notin> snd ` set (outers n)"
  obtains n' where "drop_inner ia n = Some n'" "node_inv n'"
proof -
  obtain g s where g: "lifecycle e = Some g" and s: "hm_get (envs n) (env_id e) = Some s" "stored_generation s = g"
      "stored_inner s = ia"
    using live_environment(2)[OF inv e] by blast
  let ?q = "(node_quota n)\<lparr>quota_count := quota_count (node_quota n) - length (processes e)\<rparr>"
  let ?n = "n\<lparr>inners := hm_remove ia (inners n), node_quota := ?q, dying := (env_id e, g) # dying n\<rparr>"
  have drop: "drop_inner ia n = Some ?n"
    using live_environment(1,3)[OF inv e] e g by (simp add: drop_inner_def drop_entries_leased env_counts_ok_def)
  note parts = inv[unfolded node_inv_def]
  have wf: "hm_wf (inners n)" "hm_wf (outers n)" using parts by (simp_all add: addrs_ok_def)
  have ne: "ia' \<noteq> ia" if "hm_get (outers n) oa = Some ia'" for oa ia'
    using that free map_of_SomeD[OF that] by force
  have "addrs_ok ?n"
    using parts ne unfolding addrs_ok_def by (auto simp: hm_keys_remove)
  moreover have "counts_ok ?n"
    using parts hm_total_remove[OF wf(1) e, of "\<lambda>e. length (processes e)"] by (auto simp: counts_ok_def)
  moreover have "live_ok ?n"
    using parts unfolding live_ok_def env_ok_iff by (auto simp: hm_get_remove split: if_splits)
  moreover have "registered_ok ?n"
    unfolding registered_ok_def
  proof (intro allI impI)
    fix k t
    assume "hm_get (envs ?n) k = Some t"
    then have t: "hm_get (envs n) k = Some t" "stored_ok n k t" using parts by (auto simp: registered_ok_def)
    then show "stored_ok ?n k t"
      using e s by (cases "stored_inner t = ia") (auto simp: stored_ok_def hm_get_remove)
  qed
  moreover have "dying_ok ?n"
    unfolding dying_ok_def
  proof (intro allI impI)
    fix k h
    assume d: "(k, h) \<in> set (dying ?n)"
    show "h < next_generation ?n \<and>
        (\<forall>a f. hm_get (inners ?n) a = Some f \<and> env_id f = k \<longrightarrow> lifecycle f \<noteq> Some h)"
    proof (cases "(k, h) \<in> set (dying n)")
      case True
      then show ?thesis using parts by (auto simp: dying_ok_def hm_get_remove split: if_splits)
    next
      case False
      then have "k = env_id e" "h = g" using d by auto
      moreover have "g < next_generation n" using parts s by (auto simp: registered_ok_def stored_ok_def)
      ultimately show ?thesis
        using live_unique[OF inv e] by (auto simp: hm_get_remove split: if_splits)
    qed
  qed
  ultimately show ?thesis using that[OF drop] by (simp add: node_inv_def)
qed

lemma dying_ok_subset: "dying_ok n \<Longrightarrow> set d \<subseteq> set (dying n) \<Longrightarrow> dying_ok (n\<lparr>dying := d\<rparr>)"
  unfolding dying_ok_def by auto

text \<open>
  A destructor that runs late removes only its own generation: the charge of a replacement is left
  alone.
\<close>

lemma release_generation_inv:
  assumes inv: "node_inv n" and d: "(eid, g) \<in> set (dying n)"
  obtains b n' where "release_generation eid g (n\<lparr>dying := remove1 (eid, g) (dying n)\<rparr>) = Some (b, n')" "node_inv n'"
    "\<And>k s e. hm_get (envs n) k = Some s \<Longrightarrow> hm_get (inners n) (stored_inner s) = Some e \<Longrightarrow> hm_get (envs n') k = Some s"
    "inners n' = inners n"
proof (cases "\<exists>s. hm_get (envs n) eid = Some s \<and> stored_generation s = g")
  case True
  then obtain s where s: "hm_get (envs n) eid = Some s" "stored_generation s = g" by blast
  let ?n = "n\<lparr>dying := remove1 (eid, g) (dying n), environment_count := environment_count n - 1,
      envs := hm_remove eid (envs n)\<rparr>"
  note parts = inv[unfolded node_inv_def]
  have wf: "hm_wf (envs n)" using parts by (simp add: addrs_ok_def)
  note len = hm_len_remove[OF wf s(1)]
  then have pos: "1 \<le> environment_count n" using parts by (cases "envs n") (auto simp: counts_ok_def)
  then have rel: "release_generation eid g (n\<lparr>dying := remove1 (eid, g) (dying n)\<rparr>) = Some (True, ?n)"
    using s by (simp add: release_generation_def release_environment_slot_def release_one_def checked_sub_usize_def)
  have dead: "env_id e \<noteq> eid" if "hm_get (inners n) a = Some e" for a e
    using live_environment(2)[OF inv that] that s d parts unfolding dying_ok_def by auto
  have "live_ok ?n"
    using parts dead unfolding live_ok_def env_ok_iff by (auto simp: hm_get_remove)
  moreover have "registered_ok ?n"
    unfolding registered_ok_def
  proof (intro allI impI)
    fix k t
    assume "hm_get (envs ?n) k = Some t"
    then have "k \<noteq> eid" "stored_ok n k t"
      using parts by (auto simp: registered_ok_def hm_get_remove split: if_splits)
    then show "stored_ok ?n k t" by (auto simp: stored_ok_def in_set_remove1)
  qed
  moreover have "dying_ok ?n"
    using parts dying_ok_subset[of n "remove1 (eid, g) (dying n)"] by (simp add: set_remove1_subset)
  moreover have "addrs_ok ?n" "counts_ok ?n"
    using parts len by (auto simp: addrs_ok_def counts_ok_def)
  ultimately have "node_inv ?n" by (simp add: node_inv_def)
  moreover have "hm_get (envs ?n) k = Some t"
    if "hm_get (envs n) k = Some t" "hm_get (inners n) (stored_inner t) = Some e" for k t e
  proof -
    have "stored_ok n k t" using parts that(1) by (simp add: registered_ok_def)
    then have "k \<noteq> eid" using that(2) dead by (auto simp: stored_ok_def)
    then show ?thesis using that(1) by (simp add: hm_get_remove)
  qed
  ultimately show ?thesis using that[OF rel] by simp
next
  case False
  let ?n = "n\<lparr>dying := remove1 (eid, g) (dying n)\<rparr>"
  note parts = inv[unfolded node_inv_def]
  have "registered_ok ?n"
    unfolding registered_ok_def
  proof (intro allI impI)
    fix k t
    assume "hm_get (envs ?n) k = Some t"
    then have "(k, stored_generation t) \<noteq> (eid, g)" "stored_ok n k t"
      using parts False by (auto simp: registered_ok_def)
    then show "stored_ok ?n k t" by (auto simp: stored_ok_def in_set_remove1)
  qed
  moreover have "dying_ok ?n"
    using parts dying_ok_subset[of n "remove1 (eid, g) (dying n)"] by (simp add: set_remove1_subset)
  ultimately have "node_inv ?n" using parts by (simp add: node_inv_def)
  moreover have "release_generation eid g ?n = Some (False, ?n)"
    using False by (auto simp: release_generation_def split: option.splits)
  ultimately show ?thesis using that[of False ?n] by simp
qed

lemma quota_bound: "node_inv n \<Longrightarrow> quota_count (node_quota n) \<le> quota_limit (node_quota n)"
  by (simp add: node_inv_def counts_ok_def)

text \<open>No step of the node panics, and every step keeps the invariant.\<close>

lemma node_step_inv:
  assumes inv: "node_inv n" and en: "node_enabled op n"
  obtains n' where "node_step op n = Some n'" "node_inv n'"
proof (cases op)
  case (CreateEnv eid r)
  then show ?thesis using that create_atomic_inv[OF inv prod.collapse[symmetric]] by simp
next
  case (GetEnv eid)
  then show ?thesis using that env_get_inv[OF inv prod.collapse[symmetric]] by simp
next
  case (DropOuter oa)
  then show ?thesis using that drop_outer_inv[OF inv] by simp
next
  case (DropInner ia)
  show ?thesis
  proof (cases "hm_get (inners n) ia")
    case None
    then show ?thesis using that[of n] inv DropInner by (simp add: drop_inner_def)
  next
    case (Some e)
    then show ?thesis using drop_inner_inv[OF inv Some] en DropInner that by auto
  qed
next
  case (RunDestructor eid g)
  then have "(eid, g) \<in> set (dying n)" using en by simp
  from release_generation_inv[OF inv this] show ?thesis using that RunDestructor by fastforce
next
  case (AddProcess ia i p)
  then obtain e where e: "hm_get (inners n) ia = Some e" using en by auto
  show ?thesis
  proof (cases rule: add_process_cases[OF live_environment(1)[OF inv e], of i p "node_quota n"])
    case 1
    then have "node_step op n = Some (update_env ia e (node_quota n) n)" using AddProcess e by simp
    then show ?thesis
      using that node_inv_update_env[OF inv e refl refl live_environment(1)[OF inv e], of "node_quota n"] inv
      by (simp add: node_inv_def counts_ok_def)
  next
    case admitted: (2 e')
    then show ?thesis
      using that node_inv_update_env[OF inv e _ _ admitted(6)] AddProcess e
      by (simp add: hm_len_insert)
  qed
next
  case (RemoveProcess ia i)
  then obtain e where e: "hm_get (inners n) ia = Some e" using en by auto
  show ?thesis
  proof (cases rule: remove_process_cases[OF live_environment(1)[OF inv e], of i "node_quota n"])
    case 1
    then have "node_step op n = Some (update_env ia e (node_quota n) n)" using RemoveProcess e by simp
    then show ?thesis
      using that node_inv_update_env[OF inv e refl refl live_environment(1)[OF inv e], of "node_quota n"] inv
      by (simp add: node_inv_def counts_ok_def)
  next
    case present: (2 e' x)
    have len: "Suc (length (processes e')) = length (processes e)"
      using hm_len_remove[OF _ present(1)] live_environment(1)[OF inv e] present(2) by (simp add: env_counts_ok_def)
    then have q: "1 \<le> quota_count (node_quota n)" using live_environment(3)[OF inv e] by simp
    let ?q = "(node_quota n)\<lparr>quota_count := quota_count (node_quota n) - 1\<rparr>"
    have "node_step op n = Some (update_env ia e' ?q n)"
      using present(5) q RemoveProcess e by (simp add: lease_drop_def release_one_def checked_sub_usize_def)
    moreover have "node_inv (update_env ia e' ?q n)"
      by (rule node_inv_update_env[OF inv e _ _ present(4)]) (use len q quota_bound[OF inv] present(2) in auto)
    ultimately show ?thesis using that by blast
  qed
next
  case AllocProcessId
  then show ?thesis
    using that en inv by (simp add: allocator_next_def checked_succ_def node_inv_def)
qed

interpretation node: inductive_invariant
  "\<lambda>n. \<exists>a b c. n = environments_with_limits a b c"
  "\<lambda>n n'. \<exists>op. node_enabled op n \<and> node_step op n = Some n'" node_inv
proof
  fix n :: "'a node"
  assume "\<exists>a b c. n = environments_with_limits a b c"
  then show "node_inv n"
    by (auto simp: environments_with_limits_def node_inv_def addrs_ok_def counts_ok_def live_ok_def
        registered_ok_def dying_ok_def)
next
  fix n n' :: "'a node"
  assume "node_inv n" "\<exists>op. node_enabled op n \<and> node_step op n = Some n'"
  then show "node_inv n'" using node_step_inv by (metis option.inject)
qed

section \<open>Properties\<close>

abbreviation node_reachable :: "'p node \<Rightarrow> bool" where
  "node_reachable \<equiv> reachable (\<lambda>n. \<exists>a b c. n = environments_with_limits a b c)
     (\<lambda>n n'. \<exists>op. node_enabled op n \<and> node_step op n = Some n')"

text \<open>
  C22.  The admission counters of a node are exact.  In every reachable state no further action
  panics, the environment counter is the number of registry entries and within the limit, every live
  environment counts exactly its processes within its limit, and the node-wide counter is the sum of
  the processes of all live environments and within the node limit.
\<close>

theorem node_counters_exact:
  assumes "node_reachable n"
  shows "(node_enabled op n \<longrightarrow> node_step op n \<noteq> None) \<and>
    environment_count n = length (envs n) \<and> environment_count n \<le> max_environments n \<and>
    (hm_get (inners n) ia = Some e \<longrightarrow>
       process_count e = length (processes e) \<and> process_count e \<le> max_processes_per_environment n) \<and>
    quota_count (node_quota n) = (\<Sum>x\<leftarrow>inners n. length (processes (snd x))) \<and>
    quota_count (node_quota n) \<le> quota_limit (node_quota n)"
proof -
  have inv: "node_inv n" using node.reachable_inv[OF assms] .
  have "node_enabled op n \<longrightarrow> node_step op n \<noteq> None" using node_step_inv[OF inv] by (metis option.distinct(1))
  moreover have "hm_get (inners n) ia = Some e \<longrightarrow>
      process_count e = length (processes e) \<and> process_count e \<le> max_processes_per_environment n"
    using live_environment(1)[OF inv, of ia e] by (auto simp: env_counts_ok_def)
  ultimately show ?thesis
    using inv unfolding node_inv_def counts_ok_def hm_total_def by blast
qed

definition sample_node :: "nat node" where
  "sample_node = snd (create_atomic 4 None (environments_with_limits 1 2 2))"

lemma sample_node_reachable: "node_reachable sample_node"
  unfolding sample_node_def
  by (rule reach_step[OF reach_start], blast, rule exI[of _ "CreateEnv 4 None"], simp)

theorem node_counters_exact_witness:
  "node_step (AddProcess 0 7 (3::nat)) sample_node \<noteq> None \<and> environment_count sample_node = length (envs sample_node)"
proof -
  have "node_enabled (AddProcess 0 7 (3::nat)) sample_node" by code_simp
  then show ?thesis using node_counters_exact[OF sample_node_reachable] by blast
qed

text \<open>
  C23.  Recreating an environment cannot confuse its generations.  In every reachable state an
  identifier names at most one live environment, a live environment is found under its identifier,
  and running the late destructor of a dead generation leaves the registration of every live
  environment as it was.
\<close>

theorem generations_do_not_interfere:
  assumes "node_reachable n" "hm_get (inners n) ia = Some e"
  shows "(\<exists>s. hm_get (envs n) (env_id e) = Some s \<and> stored_inner s = ia) \<and>
    (\<forall>ib f. hm_get (inners n) ib = Some f \<and> env_id f = env_id e \<longrightarrow> ib = ia) \<and>
    (\<forall>eid g n'. (eid, g) \<in> set (dying n) \<and> node_step (RunDestructor eid g) n = Some n' \<longrightarrow>
       hm_get (envs n') (env_id e) = hm_get (envs n) (env_id e) \<and> hm_get (inners n') ia = Some e)"
proof -
  have inv: "node_inv n" using node.reachable_inv[OF assms(1)] .
  obtain s where s: "hm_get (envs n) (env_id e) = Some s" "stored_inner s = ia"
    using live_environment(2)[OF inv assms(2)] by blast
  have "hm_get (envs n') (env_id e) = Some s \<and> hm_get (inners n') ia = Some e"
    if "(eid, g) \<in> set (dying n)" "node_step (RunDestructor eid g) n = Some n'" for eid g n'
    using release_generation_inv[OF inv that(1)] that(2) s assms(2) by fastforce
  then show ?thesis using s live_unique[OF inv assms(2)] by metis
qed

definition recreated_node :: "nat node" where
  "recreated_node = snd (create_atomic 4 None (the (drop_inner 0 (sample_node\<lparr>outers := hm_remove 1 (outers sample_node)\<rparr>))))"

lemma recreated_node_reachable: "node_reachable recreated_node"
proof -
  let ?n1 = "sample_node\<lparr>outers := hm_remove 1 (outers sample_node)\<rparr>"
  have 1: "node_reachable ?n1"
    by (rule reach_step[OF sample_node_reachable], rule exI[of _ "DropOuter 1"]) simp
  have "node_enabled (DropInner 0) ?n1" "drop_inner 0 ?n1 \<noteq> None" by code_simp+
  then have "node_reachable (the (drop_inner 0 ?n1))"
    by (intro reach_step[OF 1] exI[of _ "DropInner 0"]) auto
  then show ?thesis
    unfolding recreated_node_def by (rule reach_step, intro exI[of _ "CreateEnv 4 None"]) simp
qed

theorem generations_do_not_interfere_witness:
  "hm_get (envs (the (node_step (RunDestructor 4 1) recreated_node))) 4 = hm_get (envs recreated_node) 4 \<and>
   hm_get (envs recreated_node) 4 \<noteq> None"
proof -
  let ?e = "the (hm_get (inners recreated_node) 2)"
  have "hm_get (inners recreated_node) 2 = Some ?e" "env_id ?e = 4" "(4, 1) \<in> set (dying recreated_node)"
    "node_step (RunDestructor 4 1) recreated_node = Some (the (node_step (RunDestructor 4 1) recreated_node))"
    by code_simp+
  then show ?thesis
    using generations_do_not_interfere[OF recreated_node_reachable, of 2 ?e] by (metis option.distinct(1))
qed

text \<open>
  Admission is all or nothing and removal undoes it.  A process is admitted exactly if its
  identifier is free and both the environment and the node have room; a rejected admission leaves
  both counters as they were; removing an admitted process restores the counters and the process map.
\<close>

theorem admission_all_or_nothing:
  assumes "env_counts_ok limit e"
  shows "\<exists>r e' q'. add_process i p e q = Some (r, e', q') \<and>
    (r = Inr () \<longleftrightarrow> get_process i e = None \<and> process_count e < limit \<and> quota_count q < quota_limit q) \<and>
    (r \<noteq> Inr () \<longrightarrow> e' = e \<and> q' = q) \<and>
    (r = Inr () \<longrightarrow> get_process i e' = Some p \<and> process_count e' = Suc (process_count e) \<and>
       quota_count q' = Suc (quota_count q) \<and>
       (\<exists>e''. remove_process i e' q' = Some (True, e'', q) \<and> process_count e'' = process_count e \<and>
          (\<forall>j. get_process j e'' = get_process j e)))"
proof (cases rule: add_process_cases[OF assms, of i p q])
  case (1 err)
  then show ?thesis by (auto simp: get_process_def)
next
  case (2 e')
  have "\<forall>j. get_process j (e'\<lparr>processes := hm_remove i (processes e'), process_count := c\<rparr>) = get_process j e" for c
    using 2(2,5) by (auto simp: get_process_def hm_get_remove hm_get_insert)
  moreover have "remove_process i e' (q\<lparr>quota_count := Suc (quota_count q)\<rparr>) =
      Some (True, e'\<lparr>processes := hm_remove i (processes e'), process_count := process_count e\<rparr>, q)"
    using 2(5) by (simp add: remove_process_def hm_get_insert release_process_slot_def release_one_def
        checked_sub_usize_def lease_drop_def)
  ultimately show ?thesis
    using 2 by (auto simp: get_process_def hm_get_insert)
qed

theorem admission_all_or_nothing_witness:
  "\<exists>r e' q'. add_process 7 (3::nat) (environment_with_node_options 4 (Some 1) True None None)
       \<lparr>quota_count = 0, quota_limit = 1\<rparr> = Some (r, e', q') \<and> r = Inr ()"
  using admission_all_or_nothing[of 1 "environment_with_node_options 4 (Some 1) True None None" 7 "3::nat"
      "\<lparr>quota_count = 0, quota_limit = 1\<rparr>"]
  by (auto simp: env_counts_ok_def environment_with_node_options_def get_process_def)

text \<open>Allocating a number of process identifiers in a row.\<close>

fun alloc_ids :: "nat \<Rightarrow> u64 \<Rightarrow> (u64 list \<times> u64) option" where
  "alloc_ids 0 c = Some ([], c)"
| "alloc_ids (Suc k) c =
     (case allocator_next c of
        None \<Rightarrow> None
      | Some (i, c') \<Rightarrow> map_option (\<lambda>(is, c''). (i # is, c'')) (alloc_ids k c'))"

lemma alloc_ids_bounds:
  "alloc_ids k c = Some (is, c') \<Longrightarrow>
     unat c' = unat c + k \<and> length is = k \<and> distinct is \<and> (\<forall>i \<in> set is. c \<le> i \<and> i < c')"
proof (induction k arbitrary: c "is")
  case (Suc k)
  then obtain js where c: "c \<noteq> - 1" and rec: "alloc_ids k (c + 1) = Some (js, c')" and js: "is = c # js"
    by (auto simp: allocator_next_def checked_succ_def split: if_splits)
  have less: "c < c + 1" using self_less_succ_word[OF c] .
  note IH = Suc.IH[OF rec]
  have "c \<notin> set js" using IH less by (auto simp: not_le[symmetric])
  moreover have "c < c'" using IH unat_succ[OF c] by (simp add: word_less_nat_alt)
  ultimately show ?case
    using IH unat_succ[OF c] less by (auto simp: js intro: order.trans[OF less_imp_le])
qed simp

text \<open>
  Process identifiers are never reused: any number of allocations from the node's counter gives
  pairwise distinct identifiers in increasing ranges, and when the counter is exhausted the allocator
  fails instead of wrapping around.
\<close>

theorem process_ids_never_reused:
  assumes "alloc_ids k c = Some (is, c')" "alloc_ids m c' = Some (js, c'')"
  shows "distinct (is @ js) \<and> length (is @ js) = k + m \<and> (allocator_next d = None \<longleftrightarrow> d = - 1)"
proof -
  note b = alloc_ids_bounds[OF assms(1)] alloc_ids_bounds[OF assms(2)]
  then have "set is \<inter> set js = {}" by (meson disjoint_iff leD)
  then show ?thesis using b by (simp add: allocator_next_def checked_succ_def)
qed

theorem process_ids_never_reused_witness:
  "distinct ([1, 2] @ [3 :: u64]) \<and> allocator_next (- 1) = None"
proof -
  have "alloc_ids 2 1 = Some ([1, 2], 3)" "alloc_ids 1 3 = Some ([3], 4)"
    by code_simp+
  from process_ids_never_reused[OF this, of "- 1"] show ?thesis by simp
qed

lemma remove_process_absent: "remove_process i e q = Some (b, e', q') \<Longrightarrow> get_process i e' = None"
  unfolding remove_process_def release_process_slot_def get_process_def
  by (cases "hm_get (processes e) i") (auto simp: hm_get_remove split: if_splits option.splits)

text \<open>
  A registration guard acts once: unregistering and then dropping it (or dropping it twice)
  removes the process at most once and calls the exit hook exactly once if there is one.
\<close>

theorem registration_acts_once:
  assumes "unregister_inner r e q = Some (b, h, r', e', q')"
  shows "unregister_inner r' e' q' = Some (False, 0, r', e', q') \<and> h = (if reg_exit_hook r then 1 else 0) \<and>
    (reg_environment r \<longrightarrow> get_process (reg_process_id r) e' = None)"
proof -
  have r': "r' = r\<lparr>reg_environment := False, reg_exit_hook := False\<rparr>" and h: "h = (if reg_exit_hook r then 1 else 0)"
    using assms by (auto simp: unregister_inner_def Let_def split: if_splits)
  have "get_process (reg_process_id r) e' = None" if "reg_environment r"
    using assms that remove_process_absent[of "reg_process_id r" e q] by (auto simp: unregister_inner_def Let_def)
  moreover have "unregister_inner r' e' q' = Some (False, 0, r', e', q')"
    unfolding r' by (simp add: unregister_inner_def)
  ultimately show ?thesis using h by simp
qed

theorem registration_acts_once_witness:
  "unregister_inner \<lparr>reg_environment = False, reg_process_id = 7, reg_exit_hook = False\<rparr>
     (environment_with_node_options 4 (Some 1) True None None :: nat environment) \<lparr>quota_count = 0, quota_limit = 1\<rparr> =
   Some (False, 0, \<lparr>reg_environment = False, reg_process_id = 7, reg_exit_hook = False\<rparr>,
     environment_with_node_options 4 (Some 1) True None None, \<lparr>quota_count = 0, quota_limit = 1\<rparr>)"
  using registration_acts_once[of "\<lparr>reg_environment = True, reg_process_id = 7, reg_exit_hook = True\<rparr>"
      "environment_with_node_options 4 (Some 1) True None None :: nat environment" "\<lparr>quota_count = 0, quota_limit = 1\<rparr>"
      False 1 "\<lparr>reg_environment = False, reg_process_id = 7, reg_exit_hook = False\<rparr>"
      "environment_with_node_options 4 (Some 1) True None None" "\<lparr>quota_count = 0, quota_limit = 1\<rparr>"]
  by (simp add: unregister_inner_def remove_process_def environment_with_node_options_def)

end
