(* ===== verification/Env_Concurrency.thy ===== *)
theory Env_Concurrency
  imports Environment
begin

text \<open>
  \<open>LunaticEnvironment::add_process\<close> and \<open>remove_process\<close> of \<open>env.rs\<close>, interleaved.  The process map
  is locked per identifier, but the two counters are separate atomics, so calls for different
  identifiers overlap between any two of their atomic accesses.  Each access is one step here; a call
  in progress is recorded by what it has done so far.  \<open>others\<close> is the use of the node quota by other
  environments.
\<close>

record 'p admission_state =
  adm_env :: "'p environment"
  adm_quota :: node_process_quota
  reserved :: "(u64, 'p) hmap"
  leased :: "(u64, 'p) hmap"
  unslotting :: nat
  unleasing :: nat
  others :: nat

datatype 'p admission_access =
  ReserveSlot u64 'p
| ReserveLease u64
| InsertEntry u64
| TakeEntry u64
| ReleaseSlot
| DropLease
| OtherReserve
| OtherDrop

text \<open>
  An addition starts on a vacant identifier it has locked; its later steps need the earlier ones.  A
  removal takes an entry, then releases the slot, then drops the lease.
\<close>

fun step_enabled :: "'p admission_access \<Rightarrow> 'p admission_state \<Rightarrow> bool" where
  "step_enabled (ReserveSlot i p) s =
     (hm_get (processes (adm_env s)) i = None \<and> hm_get (reserved s) i = None \<and> hm_get (leased s) i = None)"
| "step_enabled (ReserveLease i) s = (hm_get (reserved s) i \<noteq> None)"
| "step_enabled (InsertEntry i) s = (hm_get (leased s) i \<noteq> None)"
| "step_enabled (TakeEntry i) s = (hm_get (processes (adm_env s)) i \<noteq> None)"
| "step_enabled ReleaseSlot s = (0 < unslotting s)"
| "step_enabled DropLease s = (0 < unleasing s)"
| "step_enabled OtherReserve s = True"
| "step_enabled OtherDrop s = (0 < others s)"

text \<open>\<open>None\<close> is a failed \<open>expect\<close>.  A failed reservation ends the call.\<close>

fun admission_step :: "'p admission_access \<Rightarrow> 'p admission_state \<Rightarrow> 'p admission_state option" where
  "admission_step (ReserveSlot i p) s =
     Some (case reserve_process_slot (adm_env s) of
             Inl _ \<Rightarrow> s
           | Inr e \<Rightarrow> s\<lparr>adm_env := e, reserved := hm_insert i p (reserved s)\<rparr>)"
| "admission_step (ReserveLease i) s =
     (let s1 = s\<lparr>reserved := hm_remove i (reserved s)\<rparr> in
      case quota_reserve (env_id (adm_env s)) (adm_quota s) of
        Inl _ \<Rightarrow> map_option (\<lambda>e. s1\<lparr>adm_env := e\<rparr>) (release_process_slot (adm_env s))
      | Inr q \<Rightarrow> Some (s1\<lparr>adm_quota := q, leased := hm_insert i (the (hm_get (reserved s) i)) (leased s)\<rparr>))"
| "admission_step (InsertEntry i) s =
     Some (s\<lparr>leased := hm_remove i (leased s),
             adm_env := (adm_env s)\<lparr>processes :=
               hm_insert i \<lparr>entry_process = the (hm_get (leased s) i), node_lease = True\<rparr> (processes (adm_env s))\<rparr>\<rparr>)"
| "admission_step (TakeEntry i) s =
     Some (s\<lparr>adm_env := (adm_env s)\<lparr>processes := hm_remove i (processes (adm_env s))\<rparr>,
             unslotting := unslotting s + 1\<rparr>)"
| "admission_step ReleaseSlot s =
     map_option (\<lambda>e. s\<lparr>adm_env := e, unslotting := unslotting s - 1, unleasing := unleasing s + 1\<rparr>)
       (release_process_slot (adm_env s))"
| "admission_step DropLease s =
     map_option (\<lambda>q. s\<lparr>adm_quota := q, unleasing := unleasing s - 1\<rparr>) (lease_drop (adm_quota s))"
| "admission_step OtherReserve s =
     Some (case quota_reserve 0 (adm_quota s) of Inl _ \<Rightarrow> s | Inr q \<Rightarrow> s\<lparr>adm_quota := q, others := others s + 1\<rparr>)"
| "admission_step OtherDrop s =
     map_option (\<lambda>q. s\<lparr>adm_quota := q, others := others s - 1\<rparr>) (lease_drop (adm_quota s))"

definition admission_start :: "usize \<Rightarrow> usize \<Rightarrow> 'p admission_state \<Rightarrow> bool" where
  "admission_start limit qlimit s \<longleftrightarrow>
     (\<exists>eid reg life. s = \<lparr>adm_env = environment_with_node_options eid (Some limit) True reg life,
        adm_quota = \<lparr>quota_count = 0, quota_limit = qlimit\<rparr>, reserved = [], leased = [],
        unslotting = 0, unleasing = 0, others = 0\<rparr>)"

text \<open>Every slot and every lease is accounted for by an entry or by a call in progress.\<close>

definition admission_inv :: "usize \<Rightarrow> usize \<Rightarrow> 'p admission_state \<Rightarrow> bool" where
  "admission_inv limit qlimit s \<longleftrightarrow>
     hm_wf (processes (adm_env s)) \<and> hm_wf (reserved s) \<and> hm_wf (leased s) \<and>
     max_processes (adm_env s) = Some limit \<and> quota_limit (adm_quota s) = qlimit \<and>
     (\<forall>i \<in> hm_keys (leased s). hm_get (processes (adm_env s)) i = None \<and> hm_get (reserved s) i = None) \<and>
     (\<forall>i \<in> hm_keys (reserved s). hm_get (processes (adm_env s)) i = None) \<and>
     process_count (adm_env s) =
       length (processes (adm_env s)) + length (reserved s) + length (leased s) + unslotting s \<and>
     process_count (adm_env s) \<le> limit \<and>
     quota_count (adm_quota s) =
       length (processes (adm_env s)) + length (leased s) + unslotting s + unleasing s + others s \<and>
     quota_count (adm_quota s) \<le> qlimit"

lemma admission_inv_start: "admission_start limit qlimit s \<Longrightarrow> admission_inv limit qlimit s"
  by (auto simp: admission_start_def admission_inv_def environment_with_node_options_def)

lemma hm_nonempty: "hm_wf m \<Longrightarrow> k \<in> hm_keys m \<Longrightarrow> Suc (length (hm_remove k m)) = length m"
  by (metis hm_keysE hm_len_remove)

lemma admission_step_inv:
  assumes inv: "admission_inv limit qlimit s" and en: "step_enabled op s"
  shows "\<exists>s'. admission_step op s = Some s' \<and> admission_inv limit qlimit s'"
proof (cases op)
  case (ReserveSlot i p)
  then show ?thesis
    using inv en
    by (auto simp: admission_inv_def reserve_process_slot_def reserve_below_def hm_get_insert hm_keys_insert
        hm_len_insert hm_get_None)
next
  case (ReserveLease i)
  then have key: "i \<in> hm_keys (reserved s)" using en by (simp add: hm_get_None)
  then have len: "Suc (length (hm_remove i (reserved s))) = length (reserved s)"
    using inv by (simp add: admission_inv_def hm_nonempty)
  have "hm_get (leased s) i = None" using inv key by (auto simp: admission_inv_def hm_get_None)
  then show ?thesis
    using inv ReserveLease key len
    by (auto simp: admission_inv_def quota_reserve_def reserve_below_def release_process_slot_def release_one_def
        checked_sub_usize_def hm_get_remove hm_keys_remove hm_keys_insert hm_len_insert hm_get_insert Let_def)
next
  case (InsertEntry i)
  then have key: "i \<in> hm_keys (leased s)" using en by (simp add: hm_get_None)
  then have len: "Suc (length (hm_remove i (leased s))) = length (leased s)"
    using inv by (simp add: admission_inv_def hm_nonempty)
  then show ?thesis
    using inv InsertEntry key
    by (auto simp: admission_inv_def hm_keys_remove hm_keys_insert hm_len_insert hm_get_insert hm_get_None)
next
  case (TakeEntry i)
  then have "Suc (length (hm_remove i (processes (adm_env s)))) = length (processes (adm_env s))"
    using inv en by (auto simp: admission_inv_def intro: hm_len_remove)
  then show ?thesis
    using inv TakeEntry by (auto simp: admission_inv_def hm_get_remove)
qed (use inv en in \<open>auto simp: admission_inv_def release_process_slot_def release_one_def checked_sub_usize_def
    lease_drop_def quota_reserve_def reserve_below_def\<close>)

interpretation admission: inductive_invariant "admission_start limit qlimit"
  "\<lambda>s s'. \<exists>op. step_enabled op s \<and> admission_step op s = Some s'" "admission_inv limit qlimit" for limit qlimit
  by unfold_locales (use admission_inv_start admission_step_inv in \<open>fastforce+\<close>)

text \<open>
  C24.  Overlapping admissions and removals cannot exceed the limits or underflow a counter.  In every
  interleaving of the atomic accesses, the registered processes never outnumber the environment limit
  or the node limit, the counters always cover them, and no release fails.
\<close>

theorem interleaved_admission_safe:
  assumes "reachable (admission_start limit qlimit)
    (\<lambda>s s'. \<exists>op. step_enabled op s \<and> admission_step op s = Some s') s"
  shows "length (processes (adm_env s)) \<le> process_count (adm_env s) \<and> process_count (adm_env s) \<le> limit \<and>
    length (processes (adm_env s)) \<le> quota_count (adm_quota s) \<and> quota_count (adm_quota s) \<le> qlimit \<and>
    (step_enabled op s \<longrightarrow> admission_step op s \<noteq> None)"
proof -
  have inv: "admission_inv limit qlimit s" using admission.reachable_inv[OF assms] .
  have "step_enabled op s \<longrightarrow> admission_step op s \<noteq> None" using admission_step_inv[OF inv] by fastforce
  then show ?thesis using inv by (simp add: admission_inv_def)
qed

definition sample_admission :: "nat admission_state" where
  "sample_admission = \<lparr>adm_env = environment_with_node_options 1 (Some 1) True None None,
     adm_quota = \<lparr>quota_count = 0, quota_limit = 1\<rparr>, reserved = [], leased = [],
     unslotting = 0, unleasing = 0, others = 0\<rparr>"

theorem interleaved_admission_safe_witness:
  "process_count (adm_env (the (admission_step (ReserveSlot 7 3) sample_admission))) \<le> 1 \<and>
   admission_step (ReserveLease 7) (the (admission_step (ReserveSlot 7 3) sample_admission)) \<noteq> None"
proof -
  let ?s = "the (admission_step (ReserveSlot 7 3) sample_admission)"
  have "admission_start 1 1 sample_admission" by (auto simp: admission_start_def sample_admission_def)
  moreover have "step_enabled (ReserveSlot 7 3) sample_admission" "step_enabled (ReserveLease 7) ?s" by code_simp+
  ultimately have "reachable (admission_start 1 1) (\<lambda>s s'. \<exists>op. step_enabled op s \<and> admission_step op s = Some s') ?s"
    by (intro reach_step[OF reach_start] exI[of _ "ReserveSlot 7 3"]) auto
  from interleaved_admission_safe[OF this] \<open>step_enabled (ReserveLease 7) ?s\<close> show ?thesis by blast
qed

text \<open>Run without interruption, the accesses of a call are the atomic call of the sequential model.\<close>

lemma add_process_steps:
  assumes "admission_inv limit qlimit s" "hm_get (processes (adm_env s)) i = None" "reserved s = []" "leased s = []"
    "process_count (adm_env s) < limit" "quota_count (adm_quota s) < qlimit" "has_quota (adm_env s)"
  shows "\<exists>e q. add_process i p (adm_env s) (adm_quota s) = Some (Inr (), e, q) \<and>
    Option.bind (admission_step (ReserveSlot i p) s) (\<lambda>s1.
    Option.bind (admission_step (ReserveLease i) s1) (admission_step (InsertEntry i))) = Some (s\<lparr>adm_env := e, adm_quota := q\<rparr>)"
  using assms
  by (simp add: admission_inv_def add_process_def reserve_process_slot_def reserve_below_def quota_reserve_def
      hm_insert_def hm_remove_def Let_def)

end
