(* ===== verification/Module_Registry.thy ===== *)
theory Module_Registry
  imports Prelude
begin

text \<open>
  \<open>lunatic-process/src/module_registry.rs\<close>: the versions of every hot-reloadable module, the
  processes that run each version, and the dependency graph that gives the reload order.  A compiled
  module is the type variable \<open>'m\<close>; the load time of a version, which nothing reads, is left out.  A
  \<open>HashSet\<close> of processes is a list without duplicates.  Every method locks the one \<open>DashMap\<close> entry it
  works on for its whole body, so it is one step.
\<close>

section \<open>Versions and histories\<close>

datatype process_key = ProcessKey (key_environment: u64) (key_process: u64)

record 'm module_version =
  mv_id :: u64
  mv_version :: u32
  mv_module :: 'm
  mv_processes :: "process_key list"

definition module_version_new :: "u64 \<Rightarrow> u32 \<Rightarrow> 'm \<Rightarrow> 'm module_version" where
  "module_version_new i v m = \<lparr>mv_id = i, mv_version = v, mv_module = m, mv_processes = []\<rparr>"

definition get_process_count :: "'m module_version \<Rightarrow> usize" where
  "get_process_count v = length (mv_processes v)"

record 'm module_history =
  next_version :: u32
  committed_version :: u32
  hist_versions :: "'m module_version list"

record 'm module_registry =
  modules :: "(u64, 'm module_history) hmap"
  max_versions :: usize
  dependencies :: "(u64, u64 list) hmap"

datatype module_registry_error =
  VersionsExhausted u64
| ModuleNotRegistered u64
| VersionNotRegistered u64 u32
| ProcessAlreadyRegistered process_key u64
| ProcessNotRegistered process_key u64 u32
| ProcessAlreadyOnVersion process_key u64 u32

definition registry_new :: "'m module_registry" where
  "registry_new = \<lparr>modules = [], max_versions = 2, dependencies = []\<rparr>"

definition with_max_versions :: "usize \<Rightarrow> 'm module_registry" where
  "with_max_versions n = \<lparr>modules = [], max_versions = max n 2, dependencies = []\<rparr>"

text \<open>\<open>Vec::retain\<close> with a running index: recent versions, the committed one and those in use stay.\<close>

definition cleanup_old_versions :: "usize \<Rightarrow> 'm module_history \<Rightarrow> 'm module_history" where
  "cleanup_old_versions n h =
     (let keep_from = length (hist_versions h) - n in
      h\<lparr>hist_versions := map snd (filter
          (\<lambda>(i, v). (mv_version v = committed_version h \<or> mv_processes v \<noteq> []) \<or> keep_from \<le> i)
          (enumerate 0 (hist_versions h)))\<rparr>)"

definition add_version :: "u64 \<Rightarrow> 'm \<Rightarrow> 'm module_registry \<Rightarrow> module_registry_error + u32 \<times> 'm module_registry" where
  "add_version i m r =
     (let entry = (case hm_get (modules r) i of Some h \<Rightarrow> h
                   | None \<Rightarrow> \<lparr>next_version = 0, committed_version = 0, hist_versions = []\<rparr>);
          version = next_version entry in
      and_then (ok_or (VersionsExhausted i) (checked_succ version)) (\<lambda>next.
        let initial = hist_versions entry = [];
            e1 = entry\<lparr>next_version := next,
                       hist_versions := hist_versions entry @ [module_version_new i version m]\<rparr>;
            e2 = (if initial then e1\<lparr>committed_version := version\<rparr> else e1);
            e3 = (if max_versions r < length (hist_versions e2) then cleanup_old_versions (max_versions r) e2 else e2)
        in Inr (version, r\<lparr>modules := hm_insert i e3 (modules r)\<rparr>)))"

section \<open>Queries\<close>

definition find_version :: "u32 \<Rightarrow> 'm module_version list \<Rightarrow> 'm module_version option" where
  "find_version n vs = find (\<lambda>v. mv_version v = n) vs"

definition get_latest :: "u64 \<Rightarrow> 'm module_registry \<Rightarrow> 'm option" where
  "get_latest i r = Option.bind (hm_get (modules r) i)
     (\<lambda>h. if hist_versions h = [] then None else Some (mv_module (last (hist_versions h))))"

definition get_version :: "u64 \<Rightarrow> u32 \<Rightarrow> 'm module_registry \<Rightarrow> 'm option" where
  "get_version i n r = Option.bind (hm_get (modules r) i) (\<lambda>h. map_option mv_module (find_version n (hist_versions h)))"

definition get_latest_version_number :: "u64 \<Rightarrow> 'm module_registry \<Rightarrow> u32 option" where
  "get_latest_version_number i r = Option.bind (hm_get (modules r) i)
     (\<lambda>h. if hist_versions h = [] then None else Some (mv_version (last (hist_versions h))))"

definition get_committed_version_number :: "u64 \<Rightarrow> 'm module_registry \<Rightarrow> u32 option" where
  "get_committed_version_number i r = map_option committed_version (hm_get (modules r) i)"

definition get_committed :: "u64 \<Rightarrow> 'm module_registry \<Rightarrow> 'm option" where
  "get_committed i r = Option.bind (hm_get (modules r) i)
     (\<lambda>h. map_option mv_module (find_version (committed_version h) (hist_versions h)))"

definition version_count :: "u64 \<Rightarrow> 'm module_registry \<Rightarrow> usize" where
  "version_count i r = (case hm_get (modules r) i of None \<Rightarrow> 0 | Some h \<Rightarrow> length (hist_versions h))"

definition process_count_of :: "u64 \<Rightarrow> u32 \<Rightarrow> 'm module_registry \<Rightarrow> usize option" where
  "process_count_of i n r = Option.bind (hm_get (modules r) i)
     (\<lambda>h. map_option get_process_count (find_version n (hist_versions h)))"

definition processes_for_module :: "u64 \<Rightarrow> u64 \<Rightarrow> 'm module_registry \<Rightarrow> u64 list" where
  "processes_for_module i env r =
     (case hm_get (modules r) i of None \<Rightarrow> []
      | Some h \<Rightarrow> remdups_adj (sort (map key_process (filter (\<lambda>p. key_environment p = env)
          (concat (map mv_processes (hist_versions h)))))))"

section \<open>Commit and process accounting\<close>

text \<open>\<open>iter_mut().find(..)\<close> followed by a mutation.\<close>

fun update_first :: "('a \<Rightarrow> bool) \<Rightarrow> ('a \<Rightarrow> 'a) \<Rightarrow> 'a list \<Rightarrow> 'a list" where
  "update_first p f [] = []"
| "update_first p f (x # xs) = (if p x then f x # xs else x # update_first p f xs)"

definition mark_committed :: "u64 \<Rightarrow> u32 \<Rightarrow> 'm module_registry \<Rightarrow> module_registry_error + 'm module_registry" where
  "mark_committed i n r =
     and_then (ok_or (ModuleNotRegistered i) (hm_get (modules r) i)) (\<lambda>h.
     and_then (ensure (list_ex (\<lambda>v. mv_version v = n) (hist_versions h)) (VersionNotRegistered i n)) (\<lambda>_.
     Inr (r\<lparr>modules := hm_insert i (cleanup_old_versions (max_versions r) (h\<lparr>committed_version := n\<rparr>)) (modules r)\<rparr>)))"

definition register_process :: "u64 \<Rightarrow> u32 \<Rightarrow> process_key \<Rightarrow> 'm module_registry \<Rightarrow> module_registry_error + 'm module_registry" where
  "register_process i n p r =
     and_then (ok_or (ModuleNotRegistered i) (hm_get (modules r) i)) (\<lambda>h.
     and_then (ensure (\<not> list_ex (\<lambda>v. p \<in> set (mv_processes v)) (hist_versions h)) (ProcessAlreadyRegistered p i)) (\<lambda>_.
     and_then (ok_or (VersionNotRegistered i n) (find_version n (hist_versions h))) (\<lambda>_.
     Inr (r\<lparr>modules := hm_insert i (h\<lparr>hist_versions :=
         update_first (\<lambda>v. mv_version v = n) (mv_processes_update (List.insert p)) (hist_versions h)\<rparr>) (modules r)\<rparr>))))"

definition transition_process ::
  "u64 \<Rightarrow> u32 \<Rightarrow> u32 \<Rightarrow> process_key \<Rightarrow> 'm module_registry \<Rightarrow> module_registry_error + 'm module_registry" where
  "transition_process i old new p r =
     and_then (ok_or (ModuleNotRegistered i) (hm_get (modules r) i)) (\<lambda>h.
     and_then (ok_or (VersionNotRegistered i old) (position (\<lambda>v. mv_version v = old) (hist_versions h))) (\<lambda>a.
     and_then (ensure (p \<in> set (mv_processes (hist_versions h ! a))) (ProcessNotRegistered p i old)) (\<lambda>_.
     if old = new then Inr r else
     and_then (ok_or (VersionNotRegistered i new) (position (\<lambda>v. mv_version v = new) (hist_versions h))) (\<lambda>b.
     and_then (ensure (p \<notin> set (mv_processes (hist_versions h ! b))) (ProcessAlreadyOnVersion p i new)) (\<lambda>_.
     let vs1 = (hist_versions h)[a := mv_processes_update (remove1 p) (hist_versions h ! a)];
         vs2 = vs1[b := mv_processes_update (List.insert p) (vs1 ! b)]
     in Inr (r\<lparr>modules := hm_insert i (cleanup_old_versions (max_versions r) (h\<lparr>hist_versions := vs2\<rparr>)) (modules r)\<rparr>))))))"

definition unregister_module_process :: "u64 \<Rightarrow> u32 \<Rightarrow> process_key \<Rightarrow> 'm module_registry \<Rightarrow> module_registry_error + 'm module_registry" where
  "unregister_module_process i n p r =
     and_then (ok_or (ModuleNotRegistered i) (hm_get (modules r) i)) (\<lambda>h.
     and_then (ok_or (VersionNotRegistered i n) (find_version n (hist_versions h))) (\<lambda>v.
     and_then (ensure (p \<in> set (mv_processes v)) (ProcessNotRegistered p i n)) (\<lambda>_.
     Inr (r\<lparr>modules := hm_insert i (cleanup_old_versions (max_versions r) (h\<lparr>hist_versions :=
         update_first (\<lambda>w. mv_version w = n) (mv_processes_update (remove1 p)) (hist_versions h)\<rparr>)) (modules r)\<rparr>))))"

section \<open>Dependencies\<close>

definition get_dependents :: "'m module_registry \<Rightarrow> u64 \<Rightarrow> u64 list" where
  "get_dependents r m = (case hm_get (dependencies r) m of None \<Rightarrow> [] | Some ds \<Rightarrow> ds)"

definition add_dependency :: "u64 \<Rightarrow> u64 \<Rightarrow> 'm module_registry \<Rightarrow> 'm module_registry" where
  "add_dependency dependent dependency r =
     (let ds = get_dependents r dependency in
      r\<lparr>dependencies := hm_insert dependency (if dependent \<in> set ds then ds else ds @ [dependent]) (dependencies r)\<rparr>)"

text \<open>
  The recursive visit.  The first argument of \<open>visit_module\<close> is the stack depth that is left; running
  out of it is \<open>None\<close>.  \<open>get_reload_order\<close> gives the visit one frame per module that occurs in the
  graph, one for the start and one for the last call, which \<open>reload_order_total\<close> shows to be enough.
\<close>

fun visit_each :: "('k \<Rightarrow> 's \<Rightarrow> 's option) \<Rightarrow> 'k list \<Rightarrow> 's \<Rightarrow> 's option" where
  "visit_each f [] s = Some s"
| "visit_each f (k # ks) s = Option.bind (f k s) (visit_each f ks)"

fun visit_module :: "'m module_registry \<Rightarrow> nat \<Rightarrow> u64 \<Rightarrow> u64 list \<times> u64 list \<Rightarrow> (u64 list \<times> u64 list) option" where
  "visit_module r 0 m s = None"
| "visit_module r (Suc depth) m (order, visited) =
     (if m \<in> set visited then Some (order, visited)
      else Option.bind (visit_each (visit_module r depth) (get_dependents r m) (order, m # visited))
        (\<lambda>(order', visited'). Some (order' @ [m], visited')))"

definition visit_depth :: "'m module_registry \<Rightarrow> nat" where
  "visit_depth r = Suc (Suc (length (remdups (concat (map snd (dependencies r))))))"

definition get_reload_order :: "'m module_registry \<Rightarrow> u64 \<Rightarrow> u64 list option" where
  "get_reload_order r m = map_option fst (visit_module r (visit_depth r) m ([], []))"

section \<open>The invariant of a history\<close>

definition runs :: "process_key \<Rightarrow> u32 \<Rightarrow> 'm module_version list \<Rightarrow> bool" where
  "runs p n vs \<longleftrightarrow> (\<exists>v \<in> set vs. mv_version v = n \<and> p \<in> set (mv_processes v))"

definition in_use :: "'m module_history \<Rightarrow> 'm module_version \<Rightarrow> bool" where
  "in_use h v \<longleftrightarrow> mv_version v = committed_version h \<or> mv_processes v \<noteq> []"

definition versions_ok :: "u64 \<Rightarrow> u32 \<Rightarrow> 'm module_version list \<Rightarrow> bool" where
  "versions_ok i next vs \<longleftrightarrow> sorted_wrt (<) (map mv_version vs) \<and>
     (\<forall>v \<in> set vs. mv_version v < next \<and> mv_id v = i \<and> distinct (mv_processes v))"

definition exclusive :: "'m module_version list \<Rightarrow> bool" where
  "exclusive vs \<longleftrightarrow> (\<forall>p n n'. runs p n vs \<longrightarrow> runs p n' vs \<longrightarrow> n = n')"

definition retained :: "usize \<Rightarrow> 'm module_history \<Rightarrow> bool" where
  "retained k h \<longleftrightarrow> (\<forall>v \<in> set (take (length (hist_versions h) - k) (hist_versions h)). in_use h v)"

definition history_ok :: "usize \<Rightarrow> u64 \<Rightarrow> 'm module_history \<Rightarrow> bool" where
  "history_ok k i h \<longleftrightarrow> versions_ok i (next_version h) (hist_versions h) \<and> exclusive (hist_versions h) \<and>
     committed_version h \<in> mv_version ` set (hist_versions h) \<and> retained k h"

lemma versions_ok_distinct: "versions_ok i n vs \<Longrightarrow> distinct (map mv_version vs)"
  by (simp add: versions_ok_def strict_sorted_iff)

lemma history_distinct: "history_ok k i h \<Longrightarrow> distinct (map mv_version (hist_versions h))"
  using versions_ok_distinct by (auto simp: history_ok_def)

lemma find_version_Some:
  assumes "versions_ok i k vs"
  shows "find_version n vs = Some v \<longleftrightarrow> v \<in> set vs \<and> mv_version v = n"
  using versions_ok_distinct[OF assms] unfolding find_version_def by (induction vs) (auto simp: image_iff)

lemma find_version_None: "find_version n vs = None \<longleftrightarrow> n \<notin> mv_version ` set vs"
  by (auto simp: find_version_def find_None_iff)

text \<open>The retention rule keeps the in-use versions of the old part and all of the recent part.\<close>

lemma retain_indexed:
  "map snd (filter (\<lambda>(i, v). Q v \<or> k \<le> i) (enumerate n vs)) = filter Q (take (k - n) vs) @ drop (k - n) vs"
proof (induction vs arbitrary: n)
  case (Cons v vs)
  then show ?case by (cases "k \<le> n") (auto simp: take_Cons' drop_Cons' Suc_diff_le)
qed simp

lemma cleanup_versions:
  "hist_versions (cleanup_old_versions n h) =
     filter (in_use h) (take (length (hist_versions h) - n) (hist_versions h)) @
     drop (length (hist_versions h) - n) (hist_versions h)"
  unfolding cleanup_old_versions_def Let_def in_use_def retain_indexed diff_zero by simp

lemma cleanup_simps [simp]:
  "next_version (cleanup_old_versions n h) = next_version h"
  "committed_version (cleanup_old_versions n h) = committed_version h"
  by (simp_all add: cleanup_old_versions_def Let_def)

lemma cleanup_subset: "set (hist_versions (cleanup_old_versions n h)) \<subseteq> set (hist_versions h)"
  by (auto simp: cleanup_versions dest: in_set_takeD in_set_dropD)

lemma in_take_or_drop: "x \<in> set xs \<Longrightarrow> x \<in> set (take k xs) \<or> x \<in> set (drop k xs)"
  by (metis Un_iff append_take_drop_id set_append)

lemma cleanup_keeps: "v \<in> set (hist_versions h) \<Longrightarrow> in_use h v \<Longrightarrow> v \<in> set (hist_versions (cleanup_old_versions n h))"
  unfolding cleanup_versions using in_take_or_drop[of v "hist_versions h"] by auto

lemma cleanup_runs [simp]: "runs p n (hist_versions (cleanup_old_versions k h)) \<longleftrightarrow> runs p n (hist_versions h)"
proof
  show "runs p n (hist_versions h)" if "runs p n (hist_versions (cleanup_old_versions k h))"
    using that cleanup_subset[of k h] by (auto simp: runs_def)
next
  assume "runs p n (hist_versions h)"
  then obtain v where v: "v \<in> set (hist_versions h)" "mv_version v = n" "p \<in> set (mv_processes v)" by (auto simp: runs_def)
  then have "in_use h v" by (auto simp: in_use_def)
  then show "runs p n (hist_versions (cleanup_old_versions k h))" using v cleanup_keeps[of v h k] by (auto simp: runs_def)
qed

lemma cleanup_retained: "retained n (cleanup_old_versions n h)"
proof -
  let ?vs = "hist_versions h" and ?k = "length (hist_versions h) - n"
  have "take (length (filter (in_use h) (take ?k ?vs) @ drop ?k ?vs) - n) (filter (in_use h) (take ?k ?vs) @ drop ?k ?vs)
      = filter (in_use h) (take ?k ?vs)"
    by (cases "n \<le> length ?vs") auto
  then show ?thesis by (auto simp: retained_def cleanup_versions in_use_def)
qed

lemma cleanup_versions_ok: "versions_ok i k (hist_versions h) \<Longrightarrow> versions_ok i k (hist_versions (cleanup_old_versions n h))"
proof -
  assume ok: "versions_ok i k (hist_versions h)"
  have "sorted_wrt (<) (map mv_version (take m (hist_versions h) @ drop m (hist_versions h)))" for m
    using ok by (simp add: versions_ok_def)
  then have "sorted_wrt (<) (map mv_version (filter (in_use h) (take m (hist_versions h)) @ drop m (hist_versions h)))" for m
    unfolding map_append sorted_wrt_append by (auto simp: sorted_wrt_map sorted_wrt_filter)
  then show ?thesis using ok cleanup_subset[of n h] by (auto simp: versions_ok_def cleanup_versions)
qed

lemma cleanup_history_ok:
  assumes "versions_ok i (next_version h) (hist_versions h)" "exclusive (hist_versions h)"
    "committed_version h \<in> mv_version ` set (hist_versions h)"
  shows "history_ok k i (cleanup_old_versions k h)"
proof -
  obtain v where "v \<in> set (hist_versions h)" "mv_version v = committed_version h" using assms(3) by auto
  then have "v \<in> set (hist_versions (cleanup_old_versions k h))" "mv_version v = committed_version h"
    by (auto intro: cleanup_keeps simp: in_use_def)
  then have "committed_version h \<in> mv_version ` set (hist_versions (cleanup_old_versions k h))" by (metis imageI)
  moreover have "exclusive (hist_versions (cleanup_old_versions k h))" using assms(2) unfolding exclusive_def cleanup_runs .
  ultimately show ?thesis
    using cleanup_versions_ok[OF assms(1), of k] cleanup_retained[of k h] unfolding history_ok_def cleanup_simps by blast
qed

section \<open>Moving processes between versions\<close>

definition on_version :: "u32 \<Rightarrow> (process_key list \<Rightarrow> process_key list) \<Rightarrow> 'm module_version list \<Rightarrow> 'm module_version list" where
  "on_version n g vs = map (\<lambda>v. if mv_version v = n then mv_processes_update g v else v) vs"

lemma update_first_on_version:
  "distinct (map mv_version vs) \<Longrightarrow>
     update_first (\<lambda>v. mv_version v = n) (mv_processes_update g) vs = on_version n g vs"
proof (induction vs)
  case (Cons v vs)
  then have "mv_version v \<notin> mv_version ` set vs" by simp
  then have "\<forall>w \<in> set vs. mv_version w \<noteq> mv_version v" by (metis imageI)
  then have "on_version (mv_version v) g vs = vs" unfolding on_version_def by (intro map_idI) simp
  then show ?case using Cons by (auto simp: on_version_def)
qed (simp add: on_version_def)

lemma list_update_position: "position p xs = Some i \<Longrightarrow> xs[i := f (xs ! i)] = update_first p f xs"
  by (induction xs arbitrary: i) (auto split: if_splits)

lemma versions_on_version [simp]: "map mv_version (on_version n g vs) = map mv_version vs"
  by (auto simp: on_version_def)

lemma position_on_version [simp]: "position (\<lambda>v. mv_version v = m) (on_version n g vs) = position (\<lambda>v. mv_version v = m) vs"
  by (induction vs) (simp_all add: on_version_def)

lemma image_on_version [simp]: "mv_version ` set (on_version n g vs) = mv_version ` set vs"
  by (simp only: image_set versions_on_version)

lemma versions_ok_on_version:
  "versions_ok i k vs \<Longrightarrow> (\<And>ps. distinct ps \<Longrightarrow> distinct (g ps)) \<Longrightarrow> versions_ok i k (on_version n g vs)"
  unfolding versions_ok_def versions_on_version by (auto simp: on_version_def)

lemma runs_simps [simp]:
  "\<not> runs p n []" "runs p n (v # vs) \<longleftrightarrow> mv_version v = n \<and> p \<in> set (mv_processes v) \<or> runs p n vs"
  by (auto simp: runs_def)

lemma runs_on_insert:
  "runs p m (on_version n (List.insert q) vs) \<longleftrightarrow> runs p m vs \<or> m = n \<and> p = q \<and> n \<in> mv_version ` set vs"
  by (induction vs) (auto simp: on_version_def)

lemma runs_on_remove:
  "\<forall>v \<in> set vs. distinct (mv_processes v) \<Longrightarrow>
     runs p m (on_version n (remove1 q) vs) \<longleftrightarrow> runs p m vs \<and> \<not> (m = n \<and> p = q)"
  by (induction vs) (auto simp: on_version_def)

lemma retained_on_insert:
  "retained k h \<Longrightarrow> retained k (h\<lparr>hist_versions := on_version n (List.insert p) (hist_versions h)\<rparr>)"
  by (auto simp: retained_def in_use_def take_map List.insert_def on_version_def split: if_splits)

lemma position_version: "(\<exists>a. position (\<lambda>v. mv_version v = n) vs = Some a) \<longleftrightarrow> n \<in> mv_version ` set vs"
  using position_None[of "\<lambda>v. mv_version v = n" vs] by (cases "position (\<lambda>v. mv_version v = n) vs") auto

lemma runs_at_position:
  assumes "versions_ok i k vs" "position (\<lambda>v. mv_version v = n) vs = Some a"
  shows "p \<in> set (mv_processes (vs ! a)) \<longleftrightarrow> runs p n vs"
proof -
  have a: "a < length vs" "mv_version (vs ! a) = n" using position_SomeD[OF assms(2)] by auto
  have "v = vs ! a" if "v \<in> set vs" "mv_version v = n" for v
    using that a find_version_Some[OF assms(1)] by (metis nth_mem option.inject)
  then show ?thesis using a by (auto simp: runs_def)
qed

section \<open>The invariant of the registry\<close>

definition registry_inv :: "'m module_registry \<Rightarrow> bool" where
  "registry_inv r \<longleftrightarrow> hm_wf (modules r) \<and> 2 \<le> max_versions r \<and>
     (\<forall>i h. hm_get (modules r) i = Some h \<longrightarrow> history_ok (max_versions r) i h)"

definition assigned :: "'m module_registry \<Rightarrow> u64 \<times> process_key \<Rightarrow> u32 option" where
  "assigned r = (\<lambda>(i, p). Option.bind (hm_get (modules r) i)
     (\<lambda>h. map_option mv_version (find (\<lambda>v. p \<in> set (mv_processes v)) (hist_versions h))))"

lemma hist_assigned:
  "exclusive vs \<Longrightarrow> map_option mv_version (find (\<lambda>v. p \<in> set (mv_processes v)) vs) = Some n \<longleftrightarrow> runs p n vs"
proof (cases "find (\<lambda>v. p \<in> set (mv_processes v)) vs")
  case None
  then have "\<forall>v \<in> set vs. p \<notin> set (mv_processes v)" by (simp add: find_None_iff)
  then show ?thesis using None by (auto simp: runs_def)
next
  case (Some v)
  assume ex: "exclusive vs"
  have "runs p (mv_version v) vs" using Some by (auto simp: runs_def find_Some_iff)
  then show ?thesis using Some ex by (auto simp: exclusive_def)
qed

lemma assigned_Some:
  assumes "registry_inv r"
  shows "assigned r (i, p) = Some n \<longleftrightarrow> (\<exists>h. hm_get (modules r) i = Some h \<and> runs p n (hist_versions h))"
proof (cases "hm_get (modules r) i")
  case (Some h)
  then have "exclusive (hist_versions h)" using assms by (auto simp: registry_inv_def history_ok_def)
  then show ?thesis using Some hist_assigned by (fastforce simp: assigned_def)
qed (simp add: assigned_def)

abbreviation set_history :: "u64 \<Rightarrow> 'm module_history \<Rightarrow> 'm module_registry \<Rightarrow> 'm module_registry" where
  "set_history i h r \<equiv> r\<lparr>modules := hm_insert i h (modules r)\<rparr>"

lemma set_history_inv: "registry_inv r \<Longrightarrow> history_ok (max_versions r) i h \<Longrightarrow> registry_inv (set_history i h r)"
  by (auto simp: registry_inv_def hm_get_insert)

lemma assigned_set_history:
  assumes "registry_inv r" "history_ok (max_versions r) i h"
    "\<And>p n. runs p n (hist_versions h) \<longleftrightarrow> a (i, p) = Some n" "\<And>j p. j \<noteq> i \<Longrightarrow> a (j, p) = assigned r (j, p)"
  shows "assigned (set_history i h r) = a"
proof
  fix jp :: "u64 \<times> process_key"
  obtain j p where jp: "jp = (j, p)" by (cases jp)
  show "assigned (set_history i h r) jp = a jp"
  proof (cases "j = i")
    case True
    have "assigned (set_history i h r) (i, p) = Some n \<longleftrightarrow> a (i, p) = Some n" for n
      using assigned_Some[OF set_history_inv[OF assms(1,2)], of i p n] assms(3)[of p n] by (simp add: hm_get_insert)
    then have "assigned (set_history i h r) (i, p) = a (i, p)" by (metis not_Some_eq)
    then show ?thesis using True jp by simp
  next
    case False
    then have "assigned (set_history i h r) (j, p) = assigned r (j, p)" by (simp add: assigned_def hm_get_insert)
    then show ?thesis using False jp assms(4) by simp
  qed
qed

section \<open>Every operation keeps the invariant\<close>

lemma history_of:
  "registry_inv r \<Longrightarrow> hm_get (modules r) i = Some h \<Longrightarrow> history_ok (max_versions r) i h"
  by (simp add: registry_inv_def)

lemma runs_assigned:
  "registry_inv r \<Longrightarrow> hm_get (modules r) i = Some h \<Longrightarrow> runs p n (hist_versions h) \<longleftrightarrow> assigned r (i, p) = Some n"
  by (simp add: assigned_Some)

lemma register_process_spec:
  assumes inv: "registry_inv r" and res: "register_process i n p r = Inr r'"
  shows "registry_inv r' \<and> assigned r (i, p) = None \<and> assigned r' = (assigned r)((i, p) \<mapsto> n)"
proof -
  obtain h where h: "hm_get (modules r) i = Some h" and fresh: "\<forall>v \<in> set (hist_versions h). p \<notin> set (mv_processes v)"
    and n: "n \<in> mv_version ` set (hist_versions h)"
    and r': "r' = set_history i (h\<lparr>hist_versions :=
        update_first (\<lambda>v. mv_version v = n) (mv_processes_update (List.insert p)) (hist_versions h)\<rparr>) r"
    using res by (auto simp: register_process_def result_simps list_ex_iff find_version_def find_Some_iff)
  have ok: "history_ok (max_versions r) i h" using history_of[OF inv h] .
  let ?h = "h\<lparr>hist_versions := on_version n (List.insert p) (hist_versions h)\<rparr>"
  have upd: "r' = set_history i ?h r"
    using r' update_first_on_version[OF history_distinct[OF ok]] by simp
  have norun: "\<not> runs p m (hist_versions h)" for m using fresh by (auto simp: runs_def)
  have ex: "exclusive (hist_versions ?h)"
    using ok norun by (auto simp: exclusive_def runs_on_insert history_ok_def)
  have "versions_ok i (next_version h) (hist_versions ?h)" using ok by (auto simp: history_ok_def intro!: versions_ok_on_version)
  then have ok': "history_ok (max_versions r) i ?h"
    using ok ex retained_on_insert[of "max_versions r" h n p] by (simp add: history_ok_def)
  have none: "assigned r (i, p) = None" using norun runs_assigned[OF inv h] by (metis not_Some_eq)
  have "runs q m (hist_versions ?h) \<longleftrightarrow> ((assigned r)((i, p) \<mapsto> n)) (i, q) = Some m" for q m
    using n norun[of m] runs_assigned[OF inv h, of q m] by (auto simp: runs_on_insert)
  then have "assigned (set_history i ?h r) = (assigned r)((i, p) \<mapsto> n)"
    by (intro assigned_set_history[OF inv ok']) auto
  then show ?thesis using upd none set_history_inv[OF inv ok'] by simp
qed

lemma unregister_module_process_spec:
  assumes inv: "registry_inv r" and res: "unregister_module_process i n p r = Inr r'"
  shows "registry_inv r' \<and> assigned r (i, p) = Some n \<and> assigned r' = (assigned r)((i, p) := None)"
proof -
  obtain h v where h: "hm_get (modules r) i = Some h" and v: "find_version n (hist_versions h) = Some v" "p \<in> set (mv_processes v)"
    and r': "r' = set_history i (cleanup_old_versions (max_versions r) (h\<lparr>hist_versions :=
        update_first (\<lambda>v. mv_version v = n) (mv_processes_update (remove1 p)) (hist_versions h)\<rparr>)) r"
    using res by (auto simp: unregister_module_process_def result_simps)
  have ok: "history_ok (max_versions r) i h" using history_of[OF inv h] .
  let ?h = "h\<lparr>hist_versions := on_version n (remove1 p) (hist_versions h)\<rparr>"
  have upd: "r' = set_history i (cleanup_old_versions (max_versions r) ?h) r"
    using r' update_first_on_version[OF history_distinct[OF ok]] by simp
  have dist: "\<forall>v \<in> set (hist_versions h). distinct (mv_processes v)" using ok by (simp add: history_ok_def versions_ok_def)
  have run: "runs p n (hist_versions h)" using v ok find_version_Some by (fastforce simp: runs_def history_ok_def)
  have ex: "exclusive (hist_versions ?h)" using ok dist by (auto simp: exclusive_def runs_on_remove history_ok_def)
  have "versions_ok i (next_version h) (hist_versions ?h)" using ok by (auto simp: history_ok_def intro!: versions_ok_on_version)
  then have ok': "history_ok (max_versions r) i (cleanup_old_versions (max_versions r) ?h)"
    using ok ex by (intro cleanup_history_ok) (simp_all add: history_ok_def)
  have "runs q m (hist_versions (cleanup_old_versions (max_versions r) ?h)) \<longleftrightarrow> ((assigned r)((i, p) := None)) (i, q) = Some m" for q m
    using dist run runs_assigned[OF inv h, of q m] runs_assigned[OF inv h, of p n] by (auto simp: runs_on_remove)
  then have "assigned (set_history i (cleanup_old_versions (max_versions r) ?h) r) = (assigned r)((i, p) := None)"
    by (intro assigned_set_history[OF inv ok']) auto
  then show ?thesis using upd run runs_assigned[OF inv h] set_history_inv[OF inv ok'] by simp
qed

lemma transition_versions:
  assumes ok: "versions_ok i k vs" and old: "position (\<lambda>v. mv_version v = old) vs = Some a"
    and new: "position (\<lambda>v. mv_version v = new) vs = Some b"
    and vs1_def: "vs1 = vs[a := mv_processes_update f (vs ! a)]"
  shows "vs1[b := mv_processes_update g (vs1 ! b)] = on_version new g (on_version old f vs)"
proof -
  have vs1: "vs1 = on_version old f vs"
    unfolding vs1_def using list_update_position[OF old] update_first_on_version[OF versions_ok_distinct[OF ok]] by metis
  have "distinct (map mv_version (on_version old f vs))" using versions_ok_distinct[OF ok] versions_on_version by metis
  moreover have "position (\<lambda>v. mv_version v = new) (on_version old f vs) = Some b" using new by simp
  ultimately show ?thesis unfolding vs1 using list_update_position update_first_on_version by metis
qed

lemma transition_process_spec:
  assumes inv: "registry_inv r" and res: "transition_process i old new p r = Inr r'"
  shows "registry_inv r' \<and> assigned r (i, p) = Some old \<and> assigned r' = (assigned r)((i, p) \<mapsto> new)"
proof -
  obtain h a where h: "hm_get (modules r) i = Some h" and a: "position (\<lambda>v. mv_version v = old) (hist_versions h) = Some a"
    and pa: "p \<in> set (mv_processes (hist_versions h ! a))"
    using res by (auto simp: transition_process_def result_simps split: if_splits)
  have ok: "history_ok (max_versions r) i h" and vok: "versions_ok i (next_version h) (hist_versions h)"
    using history_of[OF inv h] by (auto simp: history_ok_def)
  have run: "runs p old (hist_versions h)" using runs_at_position[OF vok a] pa by simp
  then have asg: "assigned r (i, p) = Some old" using runs_assigned[OF inv h] by simp
  show ?thesis
  proof (cases "old = new")
    case True
    then have "r' = r" using res h a pa by (simp add: transition_process_def ok_or_def ensure_def)
    then show ?thesis using inv asg True by auto
  next
    case False
    let ?vs = "on_version new (List.insert p) (on_version old (remove1 p) (hist_versions h))"
    obtain b where b: "position (\<lambda>v. mv_version v = new) (hist_versions h) = Some b"
      and r': "r' = set_history i (cleanup_old_versions (max_versions r) (h\<lparr>hist_versions := ?vs\<rparr>)) r"
      using res h a pa False transition_versions[OF vok a _ refl]
      by (auto simp: transition_process_def result_simps Let_def)
    have dist: "\<forall>v \<in> set (hist_versions h). distinct (mv_processes v)" using vok by (simp add: versions_ok_def)
    have mem: "new \<in> mv_version ` set (hist_versions h)" using b position_version by fast
    have runs': "runs q m ?vs \<longleftrightarrow> ((assigned r)((i, p) \<mapsto> new)) (i, q) = Some m" for q m
      using mem asg False runs_assigned[OF inv h, of q m] runs_on_remove[OF dist] by (auto simp: runs_on_insert)
    then have ex: "exclusive ?vs" unfolding exclusive_def by (metis option.inject)
    have "versions_ok i (next_version h) ?vs" by (intro versions_ok_on_version vok) auto
    then have ok': "history_ok (max_versions r) i (cleanup_old_versions (max_versions r) (h\<lparr>hist_versions := ?vs\<rparr>))"
      using ok ex by (intro cleanup_history_ok) (simp_all add: history_ok_def)
    have "assigned (set_history i (cleanup_old_versions (max_versions r) (h\<lparr>hist_versions := ?vs\<rparr>)) r) = (assigned r)((i, p) \<mapsto> new)"
      using runs' by (intro assigned_set_history[OF inv ok']) auto
    then show ?thesis using asg r' set_history_inv[OF inv ok'] by simp
  qed
qed

lemma same_runs_assigned:
  assumes "registry_inv r" "history_ok (max_versions r) i h"
    "\<And>p n. runs p n (hist_versions h) \<longleftrightarrow> assigned r (i, p) = Some n"
  shows "registry_inv (set_history i h r) \<and> assigned (set_history i h r) = assigned r"
  using assigned_set_history[OF assms(1,2), of "assigned r"] set_history_inv[OF assms(1,2)] assms(3) by blast

lemma mark_committed_spec:
  assumes inv: "registry_inv r" and res: "mark_committed i n r = Inr r'"
  shows "registry_inv r' \<and> assigned r' = assigned r \<and> get_committed_version_number i r' = Some n"
proof -
  obtain h where h: "hm_get (modules r) i = Some h" and n: "n \<in> mv_version ` set (hist_versions h)"
    and r': "r' = set_history i (cleanup_old_versions (max_versions r) (h\<lparr>committed_version := n\<rparr>)) r"
    using res by (auto simp: mark_committed_def result_simps list_ex_iff)
  have ok: "history_ok (max_versions r) i h" using history_of[OF inv h] .
  have "history_ok (max_versions r) i (cleanup_old_versions (max_versions r) (h\<lparr>committed_version := n\<rparr>))"
    using ok n by (intro cleanup_history_ok) (simp_all add: history_ok_def)
  from same_runs_assigned[OF inv this] show ?thesis
    using runs_assigned[OF inv h] r' by (simp add: get_committed_version_number_def hm_get_insert)
qed

abbreviation fresh_history :: "'m module_history" where
  "fresh_history \<equiv> \<lparr>next_version = 0, committed_version = 0, hist_versions = []\<rparr>"

definition appended :: "u64 \<Rightarrow> 'm \<Rightarrow> 'm module_history \<Rightarrow> 'm module_history" where
  "appended i m e = e\<lparr>next_version := next_version e + 1,
     hist_versions := hist_versions e @ [module_version_new i (next_version e) m],
     committed_version := (if hist_versions e = [] then next_version e else committed_version e)\<rparr>"

lemma add_version_result:
  assumes "add_version i m r = Inr (n, r')"
  shows "\<exists>e. e = (case hm_get (modules r) i of Some h \<Rightarrow> h | None \<Rightarrow> fresh_history) \<and> n = next_version e \<and>
    next_version e \<noteq> - 1 \<and> r' = set_history i (if max_versions r < Suc (length (hist_versions e))
      then cleanup_old_versions (max_versions r) (appended i m e) else appended i m e) r"
  using assms
  by (simp add: add_version_def Let_def result_simps checked_simps appended_def) (auto split: if_splits)

lemma module_version_new_simps [simp]:
  "mv_id (module_version_new i n m) = i" "mv_version (module_version_new i n m) = n"
  "mv_module (module_version_new i n m) = m" "mv_processes (module_version_new i n m) = []"
  by (simp_all add: module_version_new_def)

lemma runs_snoc_empty [simp]: "runs p n (vs @ [module_version_new i k m]) \<longleftrightarrow> runs p n vs"
  by (auto simp: runs_def module_version_new_def)

lemma appended_simps [simp]:
  "hist_versions (appended i m e) = hist_versions e @ [module_version_new i (next_version e) m]"
  "next_version (appended i m e) = next_version e + 1"
  by (simp_all add: appended_def)

lemma appended_ok:
  assumes "versions_ok i (next_version e) (hist_versions e)" "exclusive (hist_versions e)"
    "hist_versions e \<noteq> [] \<Longrightarrow> committed_version e \<in> mv_version ` set (hist_versions e)" "next_version e \<noteq> - 1"
  shows "versions_ok i (next_version (appended i m e)) (hist_versions (appended i m e)) \<and>
    exclusive (hist_versions (appended i m e)) \<and>
    committed_version (appended i m e) \<in> mv_version ` set (hist_versions (appended i m e))"
proof -
  have lt: "y \<le> next_version e \<Longrightarrow> y < next_version e + 1" for y using le_less_succ_word[OF assms(4)] .
  then have "versions_ok i (next_version e + 1) (hist_versions e @ [module_version_new i (next_version e) m])"
    using assms(1) by (auto simp: versions_ok_def sorted_wrt_append)
  then show ?thesis using assms(2,3) by (auto simp: exclusive_def appended_def)
qed

lemma add_version_spec:
  assumes inv: "registry_inv r" and res: "add_version i m r = Inr (n, r')"
  shows "registry_inv r' \<and> assigned r' = assigned r \<and> get_version i n r' = Some m \<and> get_latest i r' = Some m"
proof -
  obtain e where e: "e = (case hm_get (modules r) i of Some h \<Rightarrow> h | None \<Rightarrow> fresh_history)"
    "n = next_version e" "next_version e \<noteq> - 1"
    and r': "r' = set_history i (if max_versions r < Suc (length (hist_versions e))
      then cleanup_old_versions (max_versions r) (appended i m e) else appended i m e) r"
    using add_version_result[OF res] by blast
  let ?h = "if max_versions r < Suc (length (hist_versions e))
      then cleanup_old_versions (max_versions r) (appended i m e) else appended i m e"
  have "versions_ok i (next_version e) (hist_versions e) \<and> exclusive (hist_versions e) \<and>
      (hist_versions e \<noteq> [] \<longrightarrow> committed_version e \<in> mv_version ` set (hist_versions e))"
    using e(1) history_of[OF inv] by (cases "hm_get (modules r) i") (auto simp: history_ok_def versions_ok_def exclusive_def)
  then have new: "versions_ok i (next_version (appended i m e)) (hist_versions (appended i m e)) \<and>
      exclusive (hist_versions (appended i m e)) \<and>
      committed_version (appended i m e) \<in> mv_version ` set (hist_versions (appended i m e))"
    using e(3) by (intro appended_ok) auto
  then have ok: "history_ok (max_versions r) i ?h"
    using cleanup_history_ok[of i "appended i m e" "max_versions r"] by (auto simp: history_ok_def retained_def)
  have "runs p k (hist_versions ?h) \<longleftrightarrow> assigned r (i, p) = Some k" for p k
    using runs_assigned[OF inv, of i _ p k] e(1) by (cases "hm_get (modules r) i") (auto simp: assigned_def)
  then have keep: "registry_inv r' \<and> assigned r' = assigned r" using same_runs_assigned[OF inv ok] r' by simp
  have two: "2 \<le> max_versions r" using inv by (simp add: registry_inv_def)
  have last: "hist_versions ?h \<noteq> []" "last (hist_versions ?h) = module_version_new i n m"
    using two e(2) by (auto simp: cleanup_versions last_drop)
  then have "find_version n (hist_versions ?h) = Some (module_version_new i n m)"
    using ok find_version_Some[of i _ "hist_versions ?h" n]
    by (metis history_ok_def last_in_set module_version_new_simps(2))
  then show ?thesis using keep last r' by (simp add: get_version_def get_latest_def hm_get_insert)
qed

section \<open>Runs of the registry\<close>

datatype 'm module_registry_op =
  AddVersion u64 'm
| MarkCommitted u64 u32
| RegisterProcess u64 u32 process_key
| TransitionProcess u64 u32 u32 process_key
| UnregisterProcess u64 u32 process_key
| AddDependency u64 u64

fun registry_step :: "'m module_registry_op \<Rightarrow> 'm module_registry \<Rightarrow> module_registry_error + 'm module_registry" where
  "registry_step (AddVersion i m) r = and_then (add_version i m r) (\<lambda>(n, r'). Inr r')"
| "registry_step (MarkCommitted i n) r = mark_committed i n r"
| "registry_step (RegisterProcess i n p) r = register_process i n p r"
| "registry_step (TransitionProcess i old new p) r = transition_process i old new p r"
| "registry_step (UnregisterProcess i n p) r = unregister_module_process i n p r"
| "registry_step (AddDependency d m) r = Inr (add_dependency d m r)"

text \<open>The specification of the accounting: a partial map from modules and processes to versions.\<close>

type_synonym assignment = "u64 \<times> process_key \<Rightarrow> u32 option"

fun assign_ok :: "'m module_registry_op \<Rightarrow> assignment \<Rightarrow> bool" where
  "assign_ok (RegisterProcess i n p) a = (a (i, p) = None)"
| "assign_ok (TransitionProcess i old new p) a = (a (i, p) = Some old)"
| "assign_ok (UnregisterProcess i n p) a = (a (i, p) = Some n)"
| "assign_ok _ a = True"

fun assign_step :: "'m module_registry_op \<Rightarrow> assignment \<Rightarrow> assignment" where
  "assign_step (RegisterProcess i n p) a = a((i, p) \<mapsto> n)"
| "assign_step (TransitionProcess i old new p) a = a((i, p) \<mapsto> new)"
| "assign_step (UnregisterProcess i n p) a = a((i, p) := None)"
| "assign_step _ a = a"

lemma add_dependency_spec: "registry_inv r \<Longrightarrow> registry_inv (add_dependency d m r) \<and> assigned (add_dependency d m r) = assigned r"
  by (simp add: add_dependency_def Let_def registry_inv_def assigned_def)

lemma registry_step_spec:
  assumes "registry_inv r" "registry_step op r = Inr r'"
  shows "registry_inv r' \<and> assign_ok op (assigned r) \<and> assigned r' = assign_step op (assigned r)"
  using assms
  by (cases op) (auto simp: result_simps dest: add_version_spec mark_committed_spec register_process_spec
      transition_process_spec unregister_module_process_spec add_dependency_spec)

abbreviation registry_run :: "'m module_registry \<Rightarrow> 'm module_registry \<Rightarrow> bool" where
  "registry_run r r' \<equiv> \<exists>op. registry_step op r = Inr r'"

lemma with_max_versions_inv: "registry_inv (with_max_versions k)"
  by (simp add: registry_inv_def with_max_versions_def)

interpretation registry: inductive_invariant "\<lambda>r. r = with_max_versions k" registry_run registry_inv for k
  by unfold_locales (auto simp: with_max_versions_inv dest: registry_step_spec)

lemma max_versions_const: "reachable (\<lambda>r. r = with_max_versions k) registry_run r \<Longrightarrow> max_versions r = max k 2"
proof (induction rule: reachable.induct)
  case (reach_step s t)
  then obtain op where "registry_step op s = Inr t" by blast
  then have "max_versions t = max_versions s"
    by (cases op) (auto simp: result_simps add_version_def mark_committed_def register_process_def transition_process_def
        unregister_module_process_def add_dependency_def Let_def split: if_splits)
  then show ?case using reach_step by simp
qed (simp add: with_max_versions_def)

lemma filter_key_le_one: "distinct (map f xs) \<Longrightarrow> length (filter (\<lambda>x. f x = c) xs) \<le> 1"
proof (induction xs)
  case (Cons x xs)
  then have "f x = c \<Longrightarrow> filter (\<lambda>x. f x = c) xs = []" by (auto simp: filter_empty_conv) (metis imageI)
  then show ?case using Cons by auto
qed simp

lemma filter_disj_le: "length (filter (\<lambda>x. P x \<or> Q x) xs) \<le> length (filter P xs) + length (filter Q xs)"
  by (induction xs) auto

lemma history_length:
  assumes "history_ok k i h"
  shows "length (hist_versions h) \<le> k + 1 + length (filter (\<lambda>v. mv_processes v \<noteq> []) (hist_versions h))"
proof -
  let ?vs = "hist_versions h" and ?old = "take (length (hist_versions h) - k) (hist_versions h)"
  have "distinct (map mv_version ?old)" using history_distinct[OF assms] by (simp add: distinct_take flip: take_map)
  then have one: "length (filter (\<lambda>v. mv_version v = committed_version h) ?old) \<le> 1"
    by (rule filter_key_le_one)
  have "length ?old = length (filter (\<lambda>v. in_use h v) ?old)"
    using assms by (simp add: history_ok_def retained_def filter_id_conv)
  also have "\<dots> \<le> length (filter (\<lambda>v. mv_version v = committed_version h) ?old) + length (filter (\<lambda>v. mv_processes v \<noteq> []) ?old)"
    unfolding in_use_def by (rule filter_disj_le)
  also have "length (filter (\<lambda>v. mv_processes v \<noteq> []) ?old) \<le> length (filter (\<lambda>v. mv_processes v \<noteq> []) ?vs)"
    by (metis append_take_drop_id filter_append le_add1 length_append)
  finally show ?thesis using one by simp
qed

lemma get_version_defined: "get_version i n r \<noteq> None \<longleftrightarrow> (\<exists>h. hm_get (modules r) i = Some h \<and> n \<in> mv_version ` set (hist_versions h))"
  by (cases "hm_get (modules r) i") (simp_all add: get_version_def find_version_None del: not_None_eq)

lemma get_committed_defined: "registry_inv r \<Longrightarrow> i \<in> hm_keys (modules r) \<Longrightarrow> get_committed i r \<noteq> None"
  using find_version_None history_of by (fastforce simp: get_committed_def history_ok_def elim!: hm_keysE)

lemma assigned_version_defined: "registry_inv r \<Longrightarrow> assigned r (i, p) = Some n \<Longrightarrow> get_version i n r \<noteq> None"
  by (auto simp: assigned_Some get_version_defined runs_def simp del: not_None_eq)


definition sample_module_registry :: "nat module_registry" where
  "sample_module_registry = (case add_version 7 100 (with_max_versions 0) of Inr (_, r) \<Rightarrow> r)"


text \<open>
  C26.  The version sets implement a partial map from processes to versions: in every reachable state a
  successful operation requires and does to the recorded assignment exactly what the map specification
  says.  In particular no process is ever recorded on two versions of a module, and retiring versions
  never loses a process.
\<close>

theorem version_sets_refine_assignment:
  assumes "reachable (\<lambda>r. r = with_max_versions k) registry_run r" "registry_step op r = Inr r'"
  shows "assign_ok op (assigned r) \<and> assigned r' = assign_step op (assigned r) \<and>
    (assigned r (i, p) = Some n \<longleftrightarrow> (\<exists>h. hm_get (modules r) i = Some h \<and> runs p n (hist_versions h)))"
  using registry_step_spec[OF registry.reachable_inv[OF assms(1)] assms(2)]
    assigned_Some[OF registry.reachable_inv[OF assms(1)]] by blast

theorem version_sets_refine_assignment_witness:
  "\<exists>r'. register_process 7 0 (ProcessKey 1 2) sample_module_registry = Inr r' \<and> assigned r' (7, ProcessKey 1 2) = Some 0"
proof -
  have step: "registry_step (AddVersion 7 100) (with_max_versions 0) = Inr sample_module_registry" by code_simp
  have r: "reachable (\<lambda>r. r = with_max_versions 0) registry_run sample_module_registry"
    by (intro reach_step[OF reach_start] exI[of _ "AddVersion 7 100"]) (use step in auto)
  obtain r' where r': "registry_step (RegisterProcess 7 0 (ProcessKey 1 2)) sample_module_registry = Inr r'"
    by (cases "register_process 7 0 (ProcessKey 1 2) sample_module_registry")
      (use that in \<open>auto simp: sample_module_registry_def add_version_def with_max_versions_def register_process_def
        checked_succ_def result_simps Let_def hm_insert_def find_version_def ok_or_def split: if_splits\<close>)
  from version_sets_refine_assignment[OF r r'] r' show ?thesis by simp
qed

section \<open>When the accounting succeeds\<close>

lemma register_process_ok:
  assumes inv: "registry_inv r"
  shows "(\<exists>r'. register_process i n p r = Inr r') \<longleftrightarrow> assigned r (i, p) = None \<and> get_version i n r \<noteq> None"
proof
  assume "\<exists>r'. register_process i n p r = Inr r'"
  then obtain r' where r': "register_process i n p r = Inr r'" by blast
  then have "get_version i n r \<noteq> None" by (auto simp: register_process_def result_simps get_version_def)
  then show "assigned r (i, p) = None \<and> get_version i n r \<noteq> None" using register_process_spec[OF inv r'] by blast
next
  assume a: "assigned r (i, p) = None \<and> get_version i n r \<noteq> None"
  then obtain h v where h: "hm_get (modules r) i = Some h" "find_version n (hist_versions h) = Some v"
    by (auto simp: get_version_def bind_eq_Some_conv)
  moreover have "\<not> list_ex (\<lambda>v. p \<in> set (mv_processes v)) (hist_versions h)"
    using a runs_assigned[OF inv h(1), of p] unfolding list_ex_iff runs_def by (metis option.distinct(1))
  ultimately show "\<exists>r'. register_process i n p r = Inr r'" by (simp add: register_process_def result_simps)
qed

lemma transition_process_ok:
  assumes inv: "registry_inv r"
  shows "(\<exists>r'. transition_process i old new p r = Inr r') \<longleftrightarrow> assigned r (i, p) = Some old \<and> get_version i new r \<noteq> None"
proof
  assume "\<exists>r'. transition_process i old new p r = Inr r'"
  then obtain r' where r': "transition_process i old new p r = Inr r'" by blast
  have old: "assigned r (i, p) = Some old" using transition_process_spec[OF inv r'] by blast
  have "get_version i new r \<noteq> None"
  proof (cases "old = new")
    case True
    then show ?thesis using assigned_version_defined[OF inv old] by simp
  next
    case False
    then obtain h b where "hm_get (modules r) i = Some h" "position (\<lambda>v. mv_version v = new) (hist_versions h) = Some b"
      using r' by (auto simp: transition_process_def result_simps)
    then show ?thesis unfolding get_version_defined using position_version by blast
  qed
  then show "assigned r (i, p) = Some old \<and> get_version i new r \<noteq> None" using old by blast
next
  assume a: "assigned r (i, p) = Some old \<and> get_version i new r \<noteq> None"
  then obtain h where h: "hm_get (modules r) i = Some h" "new \<in> mv_version ` set (hist_versions h)"
    by (auto simp: get_version_defined simp del: not_None_eq)
  have vok: "versions_ok i (next_version h) (hist_versions h)" using history_of[OF inv h(1)] by (simp add: history_ok_def)
  have run: "runs p m (hist_versions h) \<longleftrightarrow> m = old" for m using a runs_assigned[OF inv h(1), of p m] by auto
  then have "old \<in> mv_version ` set (hist_versions h)" by (metis image_eqI runs_def)
  then obtain b b' where b: "position (\<lambda>v. mv_version v = old) (hist_versions h) = Some b"
    "position (\<lambda>v. mv_version v = new) (hist_versions h) = Some b'"
    using h(2) position_version[of old "hist_versions h"] position_version[of new "hist_versions h"] by blast
  then show "\<exists>r'. transition_process i old new p r = Inr r'"
    using h run runs_at_position[OF vok b(1), of p] runs_at_position[OF vok b(2), of p]
    by (cases "old = new") (simp_all add: transition_process_def ok_or_def ensure_def Let_def)
qed

lemma unregister_module_process_ok:
  assumes inv: "registry_inv r"
  shows "(\<exists>r'. unregister_module_process i n p r = Inr r') \<longleftrightarrow> assigned r (i, p) = Some n"
proof
  show "assigned r (i, p) = Some n" if "\<exists>r'. unregister_module_process i n p r = Inr r'"
    using that unregister_module_process_spec[OF inv] by blast
next
  assume "assigned r (i, p) = Some n"
  then obtain h v where h: "hm_get (modules r) i = Some h" "v \<in> set (hist_versions h)" "mv_version v = n" "p \<in> set (mv_processes v)"
    using assigned_Some[OF inv] by (auto simp: runs_def)
  moreover have "find_version n (hist_versions h) = Some v"
    using h find_version_Some[of i "next_version h" "hist_versions h" n v] history_of[OF inv h(1)] by (simp add: history_ok_def)
  ultimately show "\<exists>r'. unregister_module_process i n p r = Inr r'" by (simp add: unregister_module_process_def result_simps)
qed

section \<open>The reload order\<close>

text \<open>The edges of the dependency graph, from a module to the modules that depend on it.\<close>

definition depends :: "'m module_registry \<Rightarrow> (u64 \<times> u64) set" where
  "depends r = {(m, d). d \<in> set (get_dependents r m)}"

definition visit_universe :: "'m module_registry \<Rightarrow> u64 \<Rightarrow> u64 set" where
  "visit_universe r m = insert m (set (concat (map snd (dependencies r))))"

definition closed_under :: "'m module_registry \<Rightarrow> u64 set \<Rightarrow> bool" where
  "closed_under r U \<longleftrightarrow> (\<forall>x \<in> U. set (get_dependents r x) \<subseteq> U)"

text \<open>What a visit that starts with \<open>visited\<close> adds to the order.\<close>

definition visit_post :: "'m module_registry \<Rightarrow> u64 list \<Rightarrow> u64 list \<Rightarrow> u64 list \<Rightarrow> u64 list \<Rightarrow> u64 list \<Rightarrow> bool" where
  "visit_post r order visited order' visited' new \<longleftrightarrow> order' = order @ new \<and> distinct new \<and>
     set visited' = set visited \<union> set new \<and> set visited \<inter> set new = {} \<and>
     (\<forall>x \<in> set new. set (get_dependents r x) \<subseteq> set visited')"

lemma visit_post_refl: "visit_post r order visited order visited []"
  by (simp add: visit_post_def)

lemma visit_post_trans:
  "visit_post r o1 v1 o2 v2 n1 \<Longrightarrow> visit_post r o2 v2 o3 v3 n2 \<Longrightarrow> visit_post r o1 v1 o3 v3 (n1 @ n2)"
  by (fastforce simp: visit_post_def)

lemma visit_post_close:
  "visit_post r order (m # visited) order' visited' new \<Longrightarrow> m \<notin> set visited \<Longrightarrow> set (get_dependents r m) \<subseteq> set visited' \<Longrightarrow>
     visit_post r order visited (order' @ [m]) visited' (new @ [m])"
  unfolding visit_post_def by auto blast

lemma visit_total:
  assumes fin: "finite U" and closed: "closed_under r U"
  shows "m \<in> U \<Longrightarrow> card (U - set visited) < d \<Longrightarrow>
    \<exists>order' visited' new. visit_module r d m (order, visited) = Some (order', visited') \<and>
      visit_post r order visited order' visited' new \<and> m \<in> set visited' \<and> set new \<subseteq> (depends r)\<^sup>* `` {m}"
proof (induction d arbitrary: m order visited)
  case (Suc d)
  have each: "set ms \<subseteq> U \<Longrightarrow> card (U - set v) < d \<Longrightarrow>
    \<exists>order' visited' new. visit_each (visit_module r d) ms (ord, v) = Some (order', visited') \<and>
      visit_post r ord v order' visited' new \<and> set ms \<subseteq> set visited' \<and> set new \<subseteq> (depends r)\<^sup>* `` set ms" for ms ord v
  proof (induction ms arbitrary: ord v)
    case Nil
    then show ?case using visit_post_refl by auto
  next
    case (Cons k ks)
    from Suc.IH[of k v ord] Cons.prems obtain o1 v1 n1
      where 1: "visit_module r d k (ord, v) = Some (o1, v1)" "visit_post r ord v o1 v1 n1" "k \<in> set v1"
        "set n1 \<subseteq> (depends r)\<^sup>* `` {k}" by (metis insert_subset list.simps(15))
    have "card (U - set v1) \<le> card (U - set v)" using 1(2) fin by (intro card_mono) (auto simp: visit_post_def)
    then have "card (U - set v1) < d" "set ks \<subseteq> U" using Cons.prems by auto
    from Cons.IH[OF this(2,1), of o1] obtain o2 v2 n2
      where 2: "visit_each (visit_module r d) ks (o1, v1) = Some (o2, v2)" "visit_post r o1 v1 o2 v2 n2" "set ks \<subseteq> set v2"
        "set n2 \<subseteq> (depends r)\<^sup>* `` set ks" by blast
    have "visit_post r ord v o2 v2 (n1 @ n2)" using visit_post_trans[OF 1(2) 2(2)] .
    moreover have "set (k # ks) \<subseteq> set v2" using 1(3) 2(2,3) by (auto simp: visit_post_def)
    moreover have "set (n1 @ n2) \<subseteq> (depends r)\<^sup>* `` set (k # ks)"
      using 1(4) 2(4) Image_mono[of "(depends r)\<^sup>*" "(depends r)\<^sup>*" _ "set (k # ks)"] by fastforce
    moreover have "visit_each (visit_module r d) (k # ks) (ord, v) = Some (o2, v2)" using 1(1) 2(1) by simp
    ultimately show ?case by blast
  qed
  show ?case
  proof (cases "m \<in> set visited")
    case True
    then have "visit_module r (Suc d) m (order, visited) = Some (order, visited)" by simp
    moreover have "set [] \<subseteq> (depends r)\<^sup>* `` {m}" by simp
    ultimately show ?thesis using True visit_post_refl[of r order visited] by blast
  next
    case False
    have "card (U - set (m # visited)) < d"
    proof -
      have "U - set (m # visited) = U - set visited - {m}" by auto
      moreover have "card (U - set visited - {m}) < card (U - set visited)"
        using Suc.prems(1) False fin by (intro card_Diff1_less) auto
      ultimately show ?thesis using Suc.prems(2) by (metis less_Suc_eq_le order.strict_trans2)
    qed
    moreover have "set (get_dependents r m) \<subseteq> U" using closed Suc.prems by (auto simp: closed_under_def)
    ultimately obtain o1 v1 n1 where 1: "visit_each (visit_module r d) (get_dependents r m) (order, m # visited) = Some (o1, v1)"
      "visit_post r order (m # visited) o1 v1 n1" "set (get_dependents r m) \<subseteq> set v1"
      "set n1 \<subseteq> (depends r)\<^sup>* `` set (get_dependents r m)" using each by blast
    have "set (n1 @ [m]) \<subseteq> (depends r)\<^sup>* `` {m}"
    proof -
      have "(depends r)\<^sup>* `` set (get_dependents r m) \<subseteq> (depends r)\<^sup>* `` {m}"
        by (auto intro: converse_rtrancl_into_rtrancl simp: depends_def)
      then show ?thesis using 1(4) by auto
    qed
    moreover have "visit_module r (Suc d) m (order, visited) = Some (o1 @ [m], v1)" using 1(1) False by simp
    moreover have post: "visit_post r order visited (o1 @ [m]) v1 (n1 @ [m])" using visit_post_close[OF 1(2) False 1(3)] .
    moreover have "m \<in> set v1" using post by (simp add: visit_post_def)
    ultimately show ?thesis by blast
  qed
qed simp

definition topological :: "'m module_registry \<Rightarrow> u64 list \<Rightarrow> bool" where
  "topological r order \<longleftrightarrow> (\<forall>xs x ys. order = xs @ x # ys \<longrightarrow> set (get_dependents r x) \<subseteq> set xs)"

lemma topological_snoc:
  assumes "topological r order" "set (get_dependents r m) \<subseteq> set order"
  shows "topological r (order @ [m])"
  unfolding topological_def
proof (intro allI impI)
  fix xs x ys assume eq: "order @ [m] = xs @ x # ys"
  show "set (get_dependents r x) \<subseteq> set xs"
  proof (cases ys rule: rev_cases)
    case Nil
    then show ?thesis using eq assms(2) by simp
  next
    case (snoc zs z)
    then have "order = xs @ x # zs" using eq by (metis append_Cons append_assoc butlast_snoc)
    then show ?thesis using assms(1) by (simp add: topological_def)
  qed
qed

text \<open>
  In an acyclic graph a module on the stack is never a dependent of the one being visited, so a
  visited dependent is already in the order.
\<close>

definition visit_state :: "'m module_registry \<Rightarrow> u64 set \<Rightarrow> u64 list \<times> u64 list \<Rightarrow> bool" where
  "visit_state r stack s \<longleftrightarrow> topological r (fst s) \<and> set (snd s) = set (fst s) \<union> stack"

definition visit_keeps :: "'m module_registry \<Rightarrow> u64 set \<Rightarrow> (u64 \<Rightarrow> u64 list \<times> u64 list \<Rightarrow> (u64 list \<times> u64 list) option) \<Rightarrow> u64 \<Rightarrow> bool" where
  "visit_keeps r stack f k \<longleftrightarrow> (\<forall>s s'. visit_state r stack s \<longrightarrow> f k s = Some s' \<longrightarrow>
     visit_state r stack s' \<and> k \<in> set (snd s') \<and> set (snd s) \<subseteq> set (snd s'))"

lemma visit_each_topological:
  "visit_state r stack s \<Longrightarrow> visit_each f ms s = Some s' \<Longrightarrow> \<forall>k \<in> set ms. visit_keeps r stack f k \<Longrightarrow>
    visit_state r stack s' \<and> set ms \<subseteq> set (snd s') \<and> set (snd s) \<subseteq> set (snd s')"
proof (induction ms arbitrary: s)
  case (Cons k ks)
  then obtain s1 where s1: "f k s = Some s1" "visit_each f ks s1 = Some s'" by (auto simp: bind_eq_Some_conv)
  have "visit_keeps r stack f k" using Cons.prems(3) by simp
  then have one: "visit_state r stack s1 \<and> k \<in> set (snd s1) \<and> set (snd s) \<subseteq> set (snd s1)"
    using Cons.prems(1) s1(1) unfolding visit_keeps_def by blast
  moreover have "visit_state r stack s' \<and> set ks \<subseteq> set (snd s') \<and> set (snd s1) \<subseteq> set (snd s')"
    by (rule Cons.IH[OF _ s1(2)]) (use one Cons.prems(3) in auto)
  ultimately show ?case by auto
qed simp

lemma visit_topological:
  assumes acyc: "acyclic (depends r)"
  shows "visit_state r stack s \<Longrightarrow> stack \<times> {m} \<subseteq> (depends r)\<^sup>+ \<Longrightarrow> visit_module r d m s = Some s' \<Longrightarrow>
    visit_state r stack s' \<and> m \<in> set (snd s') \<and> set (snd s) \<subseteq> set (snd s')"
proof (induction d arbitrary: m s s' stack)
  case (Suc d)
  obtain order visited where s: "s = (order, visited)" by (cases s)
  show ?case
  proof (cases "m \<in> set visited")
    case True
    then show ?thesis using Suc.prems s by auto
  next
    case False
    obtain o1 v1 where 1: "visit_each (visit_module r d) (get_dependents r m) (order, m # visited) = Some (o1, v1)"
      and s': "s' = (o1 @ [m], v1)" using Suc.prems(3) s False by (auto simp: bind_eq_Some_conv)
    have st: "visit_state r (insert m stack) (order, m # visited)" using Suc.prems(1) s by (simp add: visit_state_def)
    have edge: "insert m stack \<times> {k} \<subseteq> (depends r)\<^sup>+" if "k \<in> set (get_dependents r m)" for k
    proof -
      have "(m, k) \<in> depends r" using that by (simp add: depends_def)
      then show ?thesis using Suc.prems(2) by (auto intro: trancl_into_trancl)
    qed
    have "visit_state r (insert m stack) (o1, v1) \<and> set (get_dependents r m) \<subseteq> set v1 \<and> set (m # visited) \<subseteq> set v1"
    proof -
      have "visit_keeps r (insert m stack) (visit_module r d) k" if "k \<in> set (get_dependents r m)" for k
        unfolding visit_keeps_def using Suc.IH[OF _ edge[OF that]] by blast
      then show ?thesis using visit_each_topological[OF st 1] by simp
    qed
    moreover from this have "set (get_dependents r m) \<inter> insert m stack = {}" using edge acyc by (fastforce simp: acyclic_def)
    ultimately have "topological r (o1 @ [m])" "set v1 = set (o1 @ [m]) \<union> stack" "set (m # visited) \<subseteq> set v1"
      by (auto simp: visit_state_def intro!: topological_snoc)
    then show ?thesis using s s' by (auto simp: visit_state_def)
  qed
qed simp

lemma visit_universe_finite: "finite (visit_universe r m)"
  by (simp add: visit_universe_def)

lemma dependents_listed: "set (get_dependents r x) \<subseteq> set (concat (map snd (dependencies r)))"
  unfolding get_dependents_def by (cases "hm_get (dependencies r) x") (auto dest!: map_of_SomeD)

lemma visit_universe_closed: "closed_under r (visit_universe r m)"
  using dependents_listed by (auto simp: closed_under_def visit_universe_def)

lemma visit_universe_card: "card (visit_universe r m) < visit_depth r"
proof -
  have "card (visit_universe r m) \<le> Suc (card (set (concat (map snd (dependencies r)))))"
    by (simp add: visit_universe_def card_insert_if)
  then show ?thesis unfolding visit_depth_def length_remdups_card_conv by linarith
qed

lemma closed_reach: "(m, x) \<in> (depends r)\<^sup>* \<Longrightarrow> closed_under r A \<Longrightarrow> m \<in> A \<Longrightarrow> x \<in> A"
  by (induction rule: rtrancl_induct) (auto simp: closed_under_def depends_def)

lemma reload_order_exists:
  obtains order visited where "visit_module r (visit_depth r) m ([], []) = Some (order, visited)"
    "distinct order" "set order = (depends r)\<^sup>* `` {m}" "set visited = set order"
proof -
  have "m \<in> visit_universe r m" by (simp add: visit_universe_def)
  from visit_total[OF visit_universe_finite visit_universe_closed this, of "[]" "visit_depth r" "[]"] visit_universe_card[of r m]
  obtain order visited where 1: "visit_module r (visit_depth r) m ([], []) = Some (order, visited)"
    "visit_post r [] [] order visited order" "m \<in> set visited" "set order \<subseteq> (depends r)\<^sup>* `` {m}"
    by (auto simp: visit_post_def)
  have "closed_under r (set order)" "m \<in> set order" using 1(2,3) by (auto simp: visit_post_def closed_under_def)
  then have "(depends r)\<^sup>* `` {m} \<subseteq> set order" using closed_reach by blast
  then show ?thesis using that[of order visited] 1 by (auto simp: visit_post_def)
qed

text \<open>
  C27.  Computing the reload order ends: whatever the dependency graph, cycles included, the recursive
  visit never nests deeper than the number of modules that occur in the graph plus two, and it returns
  each module reachable from the start through dependents exactly once.
\<close>

theorem reload_order_total:
  "\<exists>order. get_reload_order r m = Some order \<and> distinct order \<and> set order = (depends r)\<^sup>* `` {m}"
proof -
  obtain order visited where "visit_module r (visit_depth r) m ([], []) = Some (order, visited)"
    "distinct order" "set order = (depends r)\<^sup>* `` {m}" using reload_order_exists[of r m] .
  then show ?thesis by (simp add: get_reload_order_def)
qed

text \<open>
  C28.  Without cyclic dependencies the reload order puts every module after all the modules that
  depend on it, and so the requested module last.
\<close>

theorem reload_order_dependents_first:
  assumes "acyclic (depends r)" "get_reload_order r m = Some order"
  shows "(\<forall>xs x ys. order = xs @ x # ys \<longrightarrow> set (get_dependents r x) \<subseteq> set xs) \<and> order \<noteq> [] \<and> last order = m"
proof -
  obtain visited where v: "visit_module r (visit_depth r) m ([], []) = Some (order, visited)"
    using assms(2) by (auto simp: get_reload_order_def)
  have "visit_state r {} ([], [])" by (simp add: visit_state_def topological_def)
  from visit_topological[OF assms(1) this _ v] have "topological r order" by (simp add: visit_state_def)
  moreover have "order \<noteq> [] \<and> last order = m" using v by (auto simp: visit_depth_def bind_eq_Some_conv)
  ultimately show ?thesis by (simp add: topological_def)
qed

definition sample_graph :: "nat module_registry" where
  "sample_graph = add_dependency 3 2 (add_dependency 2 1 registry_new)"

lemma sample_graph_edges: "depends sample_graph = {(1, 2), (2, 3)}"
  by (auto simp: depends_def sample_graph_def add_dependency_def registry_new_def get_dependents_def hm_insert_def Let_def split: if_splits)

theorem reload_order_dependents_first_witness:
  "get_reload_order sample_graph 1 = Some [3, 2, 1] \<and> set (get_dependents sample_graph 2) \<subseteq> {3} \<and> last [3, 2, 1 :: u64] = 1"
proof -
  have o: "get_reload_order sample_graph 1 = Some [3, 2, 1]" by code_simp
  have "acyclic (depends sample_graph)"
    by (rule acyclicI_order[of _ "\<lambda>x. 5 - unat x"]) (auto simp: sample_graph_edges)
  from reload_order_dependents_first[OF this o] o show ?thesis by (metis append_Cons append_Nil list.set(1) list.simps(15))
qed

end
