(* ===== verification/Module_Cache.thy ===== *)
theory Module_Cache
  imports Prelude
begin

text \<open>
  \<open>lunatic-process/src/runtimes/wasmtime.rs\<close> and \<open>runtimes/mod.rs\<close>, compilation: the node-wide budget
  of compiled modules, whose reservations are returned when the last reference to a module is dropped,
  and the cache of distributed modules.  The compiler of the engine is a parameter.  The reference
  counts of the two \<open>Arc\<close>s around a module, the shared wrapper and the inner module, are explicit:
  \<open>live\<close> maps the address of every module that is still referenced to its counts.  A failing
  \<open>expect\<close> is \<open>None\<close>.
\<close>

section \<open>The budget\<close>

record raw_wasm =
  wasm_id :: "u64 option"
  wasm_bytes :: "u8 list"

definition raw_wasm_from :: "u8 list \<Rightarrow> raw_wasm" where
  "raw_wasm_from bytes = \<lparr>wasm_id = None, wasm_bytes = bytes\<rparr>"

record compiled_module_limits =
  limit_modules :: usize
  limit_source_bytes :: usize
  limit_single_module_bytes :: usize

definition default_limits :: compiled_module_limits where
  "default_limits = \<lparr>limit_modules = 1024, limit_source_bytes = 512 * 1024 * 1024,
     limit_single_module_bytes = 16 * 1024 * 1024\<rparr>"

record compiled_module_usage =
  used_modules :: usize
  used_source_bytes :: usize

record compiled_module_budget =
  budget_limits :: compiled_module_limits
  budget_usage :: compiled_module_usage

definition budget_new :: "compiled_module_limits \<Rightarrow> compiled_module_budget" where
  "budget_new l = \<lparr>budget_limits = l, budget_usage = \<lparr>used_modules = 0, used_source_bytes = 0\<rparr>\<rparr>"

datatype compile_error =
  SingleModuleLimit usize usize
| ModuleCountOverflow
| SourceBytesOverflow
| ModuleLimit usize
| SourceBytesLimit usize
| CacheLimit usize
| CompilerError string

definition budget_try_reserve :: "usize \<Rightarrow> compiled_module_budget \<Rightarrow> compile_error + compiled_module_budget" where
  "budget_try_reserve n b =
     (if limit_single_module_bytes (budget_limits b) < n
      then Inl (SingleModuleLimit n (limit_single_module_bytes (budget_limits b))) else
      and_then (ok_or ModuleCountOverflow (checked_add_usize (used_modules (budget_usage b)) 1)) (\<lambda>modules.
      and_then (ok_or SourceBytesOverflow (checked_add_usize (used_source_bytes (budget_usage b)) n)) (\<lambda>bytes.
      if limit_modules (budget_limits b) < modules then Inl (ModuleLimit (limit_modules (budget_limits b)))
      else if limit_source_bytes (budget_limits b) < bytes then Inl (SourceBytesLimit (limit_source_bytes (budget_limits b)))
      else Inr (b\<lparr>budget_usage := \<lparr>used_modules = modules, used_source_bytes = bytes\<rparr>\<rparr>))))"

definition budget_release :: "usize \<Rightarrow> compiled_module_budget \<Rightarrow> compiled_module_budget option" where
  "budget_release n b =
     Option.bind (checked_sub_usize (used_modules (budget_usage b)) 1) (\<lambda>modules.
     Option.bind (checked_sub_usize (used_source_bytes (budget_usage b)) n) (\<lambda>bytes.
     Some (b\<lparr>budget_usage := \<lparr>used_modules = modules, used_source_bytes = bytes\<rparr>\<rparr>)))"

section \<open>Modules and their references\<close>

record 'c compiled_module =
  cm_source :: raw_wasm
  cm_code :: 'c
  cm_reservation :: "usize option"

record 'c live_module =
  lm_module :: "'c compiled_module"
  lm_wrappers :: nat
  lm_inners :: nat

record 'c module_store =
  budget :: compiled_module_budget
  live :: "(nat, 'c live_module) hmap"
  cached :: "(u64, nat) hmap"
  max_entries :: usize
  next_addr :: nat

definition modules_with_max_entries :: "compiled_module_limits \<Rightarrow> usize \<Rightarrow> 'c module_store" where
  "modules_with_max_entries l n = \<lparr>budget = budget_new l, live = [], cached = [], max_entries = n, next_addr = 0\<rparr>"

text \<open>Dropping a reference; the last one to the inner module returns its reservation.\<close>

definition drop_inner_module :: "nat \<Rightarrow> 'c module_store \<Rightarrow> 'c module_store option" where
  "drop_inner_module a w =
     (case hm_get (live w) a of None \<Rightarrow> None
      | Some m \<Rightarrow>
          if 1 < lm_inners m
          then Some (w\<lparr>live := hm_insert a (m\<lparr>lm_inners := lm_inners m - 1\<rparr>) (live w)\<rparr>)
          else (case cm_reservation (lm_module m) of
                  None \<Rightarrow> Some (w\<lparr>live := hm_remove a (live w)\<rparr>)
                | Some n \<Rightarrow> map_option (\<lambda>b. w\<lparr>live := hm_remove a (live w), budget := b\<rparr>) (budget_release n (budget w))))"

definition drop_wrapper :: "nat \<Rightarrow> 'c module_store \<Rightarrow> 'c module_store option" where
  "drop_wrapper a w =
     (case hm_get (live w) a of None \<Rightarrow> None
      | Some m \<Rightarrow>
          let w1 = w\<lparr>live := hm_insert a (m\<lparr>lm_wrappers := lm_wrappers m - 1\<rparr>) (live w)\<rparr>
          in if 1 < lm_wrappers m then Some w1 else drop_inner_module a w1)"

definition clone_wrapper :: "nat \<Rightarrow> 'c module_store \<Rightarrow> 'c module_store" where
  "clone_wrapper a w =
     (case hm_get (live w) a of None \<Rightarrow> w
      | Some m \<Rightarrow> w\<lparr>live := hm_insert a (m\<lparr>lm_wrappers := lm_wrappers m + 1\<rparr>) (live w)\<rparr>)"

definition clone_inner :: "nat \<Rightarrow> 'c module_store \<Rightarrow> 'c module_store" where
  "clone_inner a w =
     (case hm_get (live w) a of None \<Rightarrow> w
      | Some m \<Rightarrow> w\<lparr>live := hm_insert a (m\<lparr>lm_inners := lm_inners m + 1\<rparr>) (live w)\<rparr>)"

text \<open>\<open>Arc::strong_count(module) == 1 && module.has_unique_inner()\<close>.\<close>

definition unused :: "nat \<Rightarrow> 'c module_store \<Rightarrow> bool" where
  "unused a w = (case hm_get (live w) a of None \<Rightarrow> False | Some m \<Rightarrow> lm_wrappers m = 1 \<and> lm_inners m = 1)"

definition remove_if_unused :: "u64 \<Rightarrow> 'c module_store \<Rightarrow> (bool \<times> 'c module_store) option" where
  "remove_if_unused i w =
     (case hm_get (cached w) i of
        None \<Rightarrow> Some (False, w)
      | Some a \<Rightarrow> if unused a w
          then map_option (Pair True) (drop_wrapper a (w\<lparr>cached := hm_remove i (cached w)\<rparr>))
          else Some (False, w))"

definition modules_get :: "u64 \<Rightarrow> 'c module_store \<Rightarrow> nat option \<times> 'c module_store" where
  "modules_get i w =
     (case hm_get (cached w) i of None \<Rightarrow> (None, w) | Some a \<Rightarrow> (Some a, clone_wrapper a w))"

section \<open>Compilation\<close>

text \<open>\<open>compile_module\<close> returns the address of a module with one inner reference.\<close>

definition compile_module ::
  "(u8 list \<Rightarrow> string + 'c) \<Rightarrow> raw_wasm \<Rightarrow> 'c module_store \<Rightarrow> ((compile_error + nat) \<times> 'c module_store) option" where
  "compile_module compiler raw w =
     (let n = length (wasm_bytes raw) in
      case budget_try_reserve n (budget w) of
        Inl e \<Rightarrow> Some (Inl e, w)
      | Inr b \<Rightarrow> (case compiler (wasm_bytes raw) of
            Inl e \<Rightarrow> map_option (\<lambda>b'. (Inl (CompilerError e), w\<lparr>budget := b'\<rparr>)) (budget_release n b)
          | Inr c \<Rightarrow>
              let m = \<lparr>lm_module = \<lparr>cm_source = raw, cm_code = c, cm_reservation = Some n\<rparr>, lm_wrappers = 0, lm_inners = 1\<rparr>
              in Some (Inr (next_addr w),
                   w\<lparr>budget := b, live := hm_insert (next_addr w) m (live w), next_addr := next_addr w + 1\<rparr>)))"

fun reclaim :: "u64 list \<Rightarrow> 'c module_store \<Rightarrow> 'c module_store option" where
  "reclaim [] w = Some w"
| "reclaim (i # is) w = Option.bind (remove_if_unused i w)
     (\<lambda>(_, w'). if length (cached w') < max_entries w' then Some w' else reclaim is w')"

definition unused_ids :: "'c module_store \<Rightarrow> u64 list" where
  "unused_ids w = map fst (filter (\<lambda>(i, a). unused a w) (cached w))"

definition insert_compiled :: "u64 option \<Rightarrow> nat \<Rightarrow> 'c module_store \<Rightarrow> 'c module_store" where
  "insert_compiled i a w =
     (let w1 = clone_wrapper a w in
      case i of None \<Rightarrow> w1 | Some k \<Rightarrow> (clone_wrapper a w1)\<lparr>cached := hm_insert k a (cached w1)\<rparr>)"

definition modules_compile ::
  "(u8 list \<Rightarrow> string + 'c) \<Rightarrow> raw_wasm \<Rightarrow> 'c module_store \<Rightarrow> ((compile_error + nat) \<times> 'c module_store) option" where
  "modules_compile compiler raw w =
     (case Option.bind (wasm_id raw) (hm_get (cached w)) of
        Some a \<Rightarrow> Some (Inr a, clone_wrapper a w)
      | None \<Rightarrow>
          Option.bind (if wasm_id raw \<noteq> None \<and> max_entries w \<le> length (cached w) then reclaim (unused_ids w) w else Some w) (\<lambda>w1.
          if wasm_id raw \<noteq> None \<and> max_entries w1 \<le> length (cached w1) then Some (Inl (CacheLimit (max_entries w1)), w1)
          else map_option (\<lambda>(res, w2). case res of Inl e \<Rightarrow> (Inl e, w2)
                 | Inr a \<Rightarrow> (Inr a, insert_compiled (wasm_id raw) a w2)) (compile_module compiler raw w1)))"

section \<open>The invariant\<close>

abbreviation lm_id :: "'c live_module \<Rightarrow> u64 option" where
  "lm_id m \<equiv> wasm_id (cm_source (lm_module m))"

abbreviation lm_size :: "'c live_module \<Rightarrow> usize" where
  "lm_size m \<equiv> length (wasm_bytes (cm_source (lm_module m)))"

definition cached_ok :: "'c module_store \<Rightarrow> bool" where
  "cached_ok w \<longleftrightarrow> hm_wf (cached w) \<and> length (cached w) \<le> max_entries w \<and>
     (\<forall>i a. hm_get (cached w) i = Some a \<longrightarrow> (\<exists>m. hm_get (live w) a = Some m \<and> lm_id m = Some i \<and> 1 \<le> lm_wrappers m))"

definition modules_live_ok :: "'c module_store \<Rightarrow> bool" where
  "modules_live_ok w \<longleftrightarrow> hm_wf (live w) \<and>
     (\<forall>a m. hm_get (live w) a = Some m \<longrightarrow> a < next_addr w \<and> 1 \<le> lm_inners m \<and>
        cm_reservation (lm_module m) = Some (lm_size m) \<and> (\<forall>i. lm_id m = Some i \<longrightarrow> hm_get (cached w) i = Some a))"

definition budget_usage_ok :: "'c module_store \<Rightarrow> bool" where
  "budget_usage_ok w \<longleftrightarrow> used_modules (budget_usage (budget w)) = length (live w) \<and>
     used_source_bytes (budget_usage (budget w)) = hm_total lm_size (live w) \<and>
     length (live w) \<le> limit_modules (budget_limits (budget w)) \<and>
     hm_total lm_size (live w) \<le> limit_source_bytes (budget_limits (budget w))"

definition store_inv :: "'c module_store \<Rightarrow> bool" where
  "store_inv w \<longleftrightarrow> cached_ok w \<and> modules_live_ok w \<and> budget_usage_ok w"

lemma cachedD:
  "cached_ok w \<Longrightarrow> hm_get (cached w) i = Some a \<Longrightarrow> hm_get (live w) a = Some m \<Longrightarrow> lm_id m = Some i \<and> 1 \<le> lm_wrappers m"
  unfolding cached_ok_def by (metis option.inject)

lemma liveD:
  "modules_live_ok w \<Longrightarrow> hm_get (live w) a = Some m \<Longrightarrow> a < next_addr w \<and> 1 \<le> lm_inners m \<and>
     cm_reservation (lm_module m) = Some (lm_size m) \<and> (\<forall>i. lm_id m = Some i \<longrightarrow> hm_get (cached w) i = Some a)"
  unfolding modules_live_ok_def by blast

lemma store_inv_new: "store_inv (modules_with_max_entries l n)"
  by (simp add: store_inv_def cached_ok_def modules_live_ok_def budget_usage_ok_def modules_with_max_entries_def budget_new_def)

text \<open>Changing the counts of a live module.\<close>

lemma set_counts_inv:
  assumes inv: "store_inv w" and m: "hm_get (live w) a = Some m" and same: "lm_module m' = lm_module m"
    and inners: "1 \<le> lm_inners m'" and wrappers: "\<And>i. hm_get (cached w) i = Some a \<Longrightarrow> 1 \<le> lm_wrappers m'"
  shows "store_inv (w\<lparr>live := hm_insert a m' (live w)\<rparr>)"
proof -
  have "hm_total lm_size (hm_insert a m' (live w)) = hm_total lm_size (live w)"
    using hm_total_insert_present[OF m, of lm_size m'] same by simp
  moreover have "length (hm_insert a m' (live w)) = length (live w)" using m by (simp add: hm_len_insert)
  ultimately have "budget_usage_ok (w\<lparr>live := hm_insert a m' (live w)\<rparr>)" using inv by (simp add: store_inv_def budget_usage_ok_def)
  moreover have "modules_live_ok (w\<lparr>live := hm_insert a m' (live w)\<rparr>)"
    using inv m same inners by (auto simp: store_inv_def modules_live_ok_def hm_get_insert)
  moreover have "cached_ok (w\<lparr>live := hm_insert a m' (live w)\<rparr>)"
    using inv m same wrappers by (fastforce simp: store_inv_def cached_ok_def hm_get_insert)
  ultimately show ?thesis by (simp add: store_inv_def)
qed

text \<open>Freeing a module together with its cache entry, if it has one.\<close>

definition uncache :: "u64 option \<Rightarrow> 'c module_store \<Rightarrow> (u64, nat) hmap" where
  "uncache i w = (case i of None \<Rightarrow> cached w | Some k \<Rightarrow> hm_remove k (cached w))"

lemma budget_release_exact:
  assumes "budget_usage_ok w" "hm_wf (live w)" "hm_get (live w) a = Some m"
  shows "\<exists>b. budget_release (lm_size m) (budget w) = Some b \<and> budget_usage_ok (w\<lparr>cached := c, live := hm_remove a (live w), budget := b\<rparr>)"
proof -
  have "Suc (length (hm_remove a (live w))) = length (live w)" using assms(2,3) by (rule hm_len_remove)
  moreover have "lm_size m + hm_total lm_size (hm_remove a (live w)) = hm_total lm_size (live w)"
    using hm_total_remove[OF assms(2,3)] .
  ultimately show ?thesis using assms(1) by (auto simp: budget_usage_ok_def budget_release_def checked_sub_usize_def)
qed

lemma free_module_inv:
  assumes inv: "store_inv w" and m: "hm_get (live w) a = Some m"
  shows "\<exists>b. budget_release (lm_size m) (budget w) = Some b \<and>
    store_inv (w\<lparr>cached := uncache (lm_id m) w, live := hm_remove a (live w), budget := b\<rparr>)"
proof -
  have parts: "cached_ok w" "modules_live_ok w" "budget_usage_ok w" "hm_wf (live w)" using inv by (auto simp: store_inv_def modules_live_ok_def)
  obtain b where b: "budget_release (lm_size m) (budget w) = Some b"
    and use: "budget_usage_ok (w\<lparr>cached := uncache (lm_id m) w, live := hm_remove a (live w), budget := b\<rparr>)"
    using budget_release_exact[OF parts(3,4) m] by blast
  have own: "lm_id m = Some i" if "hm_get (cached w) i = Some a" for i
    using cachedD[OF parts(1) that m] by simp
  have keep: "hm_get (uncache (lm_id m) w) i = Some a' \<longleftrightarrow> hm_get (cached w) i = Some a' \<and> a' \<noteq> a" for i a'
  proof (cases "lm_id m")
    case None
    then show ?thesis using own[of i] by (auto simp: uncache_def)
  next
    case (Some k)
    then have "hm_get (cached w) k = Some a" using liveD[OF parts(2) m] by blast
    then have only: "hm_get (cached w) i = Some a \<longleftrightarrow> i = k" using own[of i] Some by auto
    show ?thesis
    proof (cases "i = k")
      case True
      then show ?thesis using Some only by (auto simp: uncache_def hm_get_remove)
    next
      case False
      then have "hm_get (cached w) i \<noteq> Some a" using only by blast
      then show ?thesis using Some False by (auto simp: uncache_def hm_get_remove)
    qed
  qed
  have "length (hm_remove k (cached w)) \<le> length (cached w)" for k
    by (simp add: hm_remove_def AList.delete_eq)
  then have "length (uncache (lm_id m) w) \<le> max_entries w" "hm_wf (uncache (lm_id m) w)"
    using parts(1) by (auto simp: cached_ok_def uncache_def split: option.splits intro: order_trans)
  then have "cached_ok (w\<lparr>cached := uncache (lm_id m) w, live := hm_remove a (live w), budget := b\<rparr>)"
    using parts(1) keep by (auto simp: cached_ok_def hm_get_remove)
  moreover have "modules_live_ok (w\<lparr>cached := uncache (lm_id m) w, live := hm_remove a (live w), budget := b\<rparr>)"
    using parts(2) keep by (auto simp: modules_live_ok_def hm_get_remove)
  ultimately show ?thesis using b use by (auto simp: store_inv_def)
qed

section \<open>Every operation keeps it\<close>

definition is_cached :: "nat \<Rightarrow> 'c module_store \<Rightarrow> bool" where
  "is_cached a w \<longleftrightarrow> a \<in> set (map snd (cached w))"

lemma is_cachedI: "hm_get (cached w) i = Some a \<Longrightarrow> is_cached a w"
  by (force simp: is_cached_def dest: map_of_SomeD)

lemma lm_id_cached: "modules_live_ok w \<Longrightarrow> hm_get (live w) a = Some m \<Longrightarrow> lm_id m \<noteq> None \<Longrightarrow> is_cached a w"
  using liveD is_cachedI by (metis not_None_eq)

lemma drop_inner_module_inv:
  assumes inv: "store_inv w" and m: "hm_get (live w) a = Some m" and ok: "1 < lm_inners m \<or> lm_id m = None"
  shows "\<exists>w'. drop_inner_module a w = Some w' \<and> store_inv w'"
proof (cases "1 < lm_inners m")
  case True
  have "store_inv (w\<lparr>live := hm_insert a (m\<lparr>lm_inners := lm_inners m - 1\<rparr>) (live w)\<rparr>)"
    by (rule set_counts_inv[OF inv m]) (use True cachedD[of w _ a m] inv m in \<open>auto simp: store_inv_def\<close>)
  then show ?thesis using True m by (simp add: drop_inner_module_def)
next
  case False
  obtain b where b: "budget_release (lm_size m) (budget w) = Some b"
    "store_inv (w\<lparr>cached := uncache (lm_id m) w, live := hm_remove a (live w), budget := b\<rparr>)"
    using free_module_inv[OF inv m] by blast
  have "cm_reservation (lm_module m) = Some (lm_size m)" using liveD[of w a m] inv m by (simp add: store_inv_def)
  moreover have "lm_id m = None" using ok False by simp
  ultimately show ?thesis using b False m by (simp add: drop_inner_module_def uncache_def)
qed

lemma drop_wrapper_inv:
  assumes inv: "store_inv w" and m: "hm_get (live w) a = Some m"
    and ok: "(if is_cached a w then 2 else 1) \<le> lm_wrappers m"
  shows "\<exists>w'. drop_wrapper a w = Some w' \<and> store_inv w'"
proof -
  let ?m = "m\<lparr>lm_wrappers := lm_wrappers m - 1\<rparr>" and ?w = "w\<lparr>live := hm_insert a (m\<lparr>lm_wrappers := lm_wrappers m - 1\<rparr>) (live w)\<rparr>"
  have inners: "1 \<le> lm_inners m" using liveD[of w a m] inv m by (simp add: store_inv_def)
  have w1: "store_inv ?w"
    by (rule set_counts_inv[OF inv m]) (use ok inners is_cachedI[of w _ a] in \<open>auto split: if_splits\<close>)
  show ?thesis
  proof (cases "1 < lm_wrappers m")
    case True
    then show ?thesis using w1 m by (simp add: drop_wrapper_def Let_def)
  next
    case False
    then have "\<not> is_cached a w" using ok by (auto split: if_splits)
    then have "lm_id ?m = None" using lm_id_cached[of w a m] inv m by (cases "lm_id m") (auto simp: store_inv_def)
    then have "\<exists>w'. drop_inner_module a ?w = Some w' \<and> store_inv w'"
      by (intro drop_inner_module_inv[OF w1]) (auto simp: hm_get_insert)
    then show ?thesis using m False by (simp add: drop_wrapper_def Let_def)
  qed
qed

lemma clone_wrapper_inv: "store_inv w \<Longrightarrow> store_inv (clone_wrapper a w)"
  unfolding clone_wrapper_def
  by (cases "hm_get (live w) a") (auto intro!: set_counts_inv dest: liveD simp: store_inv_def[of w])

lemma clone_inner_inv: "store_inv w \<Longrightarrow> store_inv (clone_inner a w)"
  unfolding clone_inner_def
  by (cases "hm_get (live w) a") (auto intro!: set_counts_inv dest: cachedD simp: store_inv_def[of w])

lemma remove_if_unused_inv:
  assumes inv: "store_inv w"
  shows "\<exists>b w'. remove_if_unused i w = Some (b, w') \<and> store_inv w' \<and> max_entries w' = max_entries w \<and>
    hm_keys (cached w') \<subseteq> hm_keys (cached w)"
proof (cases "hm_get (cached w) i")
  case None
  then show ?thesis using inv by (auto simp: remove_if_unused_def)
next
  case (Some a)
  show ?thesis
  proof (cases "unused a w")
    case True
    then obtain m where m: "hm_get (live w) a = Some m" "lm_wrappers m = 1" "lm_inners m = 1"
      by (auto simp: unused_def split: option.splits)
    have id: "lm_id m = Some i" using cachedD[OF _ Some m(1)] inv by (simp add: store_inv_def)
    have wf: "hm_wf (live w)" and res: "cm_reservation (lm_module m) = Some (lm_size m)"
      using inv liveD[of w a m] m(1) by (auto simp: store_inv_def modules_live_ok_def)
    obtain b where b: "budget_release (lm_size m) (budget w) = Some b"
      "store_inv (w\<lparr>cached := uncache (lm_id m) w, live := hm_remove a (live w), budget := b\<rparr>)"
      using free_module_inv[OF inv m(1)] by blast
    have "drop_wrapper a (w\<lparr>cached := hm_remove i (cached w)\<rparr>) =
        Some (w\<lparr>cached := uncache (lm_id m) w, live := hm_remove a (live w), budget := b\<rparr>)"
      using m res b(1) id wf
      by (simp add: drop_wrapper_def drop_inner_module_def Let_def hm_get_insert uncache_def hm_remove_insert)
    then show ?thesis using Some True b(2) id
      by (auto simp: remove_if_unused_def uncache_def hm_keys_remove)
  qed (use Some inv in \<open>auto simp: remove_if_unused_def\<close>)
qed

lemma reclaim_inv:
  "store_inv w \<Longrightarrow> \<exists>w'. reclaim is w = Some w' \<and> store_inv w' \<and> hm_keys (cached w') \<subseteq> hm_keys (cached w)"
proof (induction "is" arbitrary: w)
  case (Cons i "is")
  obtain b w1 where w1: "remove_if_unused i w = Some (b, w1)" "store_inv w1" "hm_keys (cached w1) \<subseteq> hm_keys (cached w)"
    using remove_if_unused_inv[OF Cons.prems, of i] by blast
  then show ?case using Cons.IH[OF w1(2)] by auto
qed auto

lemma budget_try_reserve_usage:
  assumes "budget_try_reserve n b = Inr b'"
  shows "budget_limits b' = budget_limits b \<and> used_modules (budget_usage b') = Suc (used_modules (budget_usage b)) \<and>
    used_source_bytes (budget_usage b') = used_source_bytes (budget_usage b) + n \<and>
    used_modules (budget_usage b') \<le> limit_modules (budget_limits b) \<and>
    used_source_bytes (budget_usage b') \<le> limit_source_bytes (budget_limits b)"
  using assms by (auto simp: budget_try_reserve_def result_simps checked_simps split: if_splits)

lemma budget_try_reserve_release: "budget_try_reserve n b = Inr b' \<Longrightarrow> budget_release n b' = Some b"
  by (auto simp: budget_try_reserve_def result_simps checked_simps budget_release_def checked_sub_usize_def split: if_splits)

text \<open>A freshly compiled module, already entered into the cache if it has an id.\<close>

lemma new_module_inv:
  assumes inv: "store_inv w" and b: "budget_try_reserve (lm_size m) (budget w) = Inr b"
    and m: "cm_reservation (lm_module m) = Some (lm_size m)" "1 \<le> lm_inners m"
    and k: "\<And>k. lm_id m = Some k \<Longrightarrow> hm_get (cached w) k = None \<and> length (cached w) < max_entries w \<and> 1 \<le> lm_wrappers m"
  shows "store_inv (w\<lparr>budget := b, live := hm_insert (next_addr w) m (live w), next_addr := next_addr w + 1,
    cached := (case lm_id m of None \<Rightarrow> cached w | Some k \<Rightarrow> hm_insert k (next_addr w) (cached w))\<rparr>)"
    (is "store_inv ?w")
proof -
  have parts: "cached_ok w" "modules_live_ok w" "budget_usage_ok w" using inv by (auto simp: store_inv_def)
  have new: "hm_get (live w) (next_addr w) = None"
    using liveD[OF parts(2), of "next_addr w"] by (cases "hm_get (live w) (next_addr w)") auto
  have len: "length (hm_insert (next_addr w) m (live w)) = Suc (length (live w))" using new by (simp add: hm_len_insert)
  have tot: "hm_total lm_size (hm_insert (next_addr w) m (live w)) = lm_size m + hm_total lm_size (live w)"
    using new by (intro hm_total_insert_absent) (simp add: hm_get_None)
  have "budget_usage_ok ?w" using parts(3) budget_try_reserve_usage[OF b] len tot by (simp add: budget_usage_ok_def)
  moreover have "modules_live_ok ?w"
  proof -
    have "hm_get (case lm_id m of None \<Rightarrow> cached w | Some k \<Rightarrow> hm_insert k (next_addr w) (cached w)) i = Some a"
      if "hm_get (cached w) i = Some a" for i a
      using that k by (cases "lm_id m") (auto simp: hm_get_insert)
    then show ?thesis using parts(2) m by (fastforce simp: modules_live_ok_def hm_get_insert split: if_splits option.splits)
  qed
  moreover have "cached_ok ?w"
  proof (cases "lm_id m")
    case None
    then show ?thesis using parts(1) new by (fastforce simp: cached_ok_def hm_get_insert)
  next
    case (Some i)
    have "length (hm_insert i (next_addr w) (cached w)) \<le> max_entries w" using k[OF Some] by (simp add: hm_len_insert)
    then show ?thesis using parts(1) new Some k[OF Some] by (fastforce simp: cached_ok_def hm_get_insert)
  qed
  ultimately show ?thesis by (simp add: store_inv_def)
qed

lemma compile_module_cases:
  obtains (refused) e where "compile_module compiler raw w = Some (Inl e, w)"
  | (compiled) b c where "budget_try_reserve (length (wasm_bytes raw)) (budget w) = Inr b" "compiler (wasm_bytes raw) = Inr c"
    "compile_module compiler raw w = Some (Inr (next_addr w), w\<lparr>budget := b, live := hm_insert (next_addr w)
      \<lparr>lm_module = \<lparr>cm_source = raw, cm_code = c, cm_reservation = Some (length (wasm_bytes raw))\<rparr>,
       lm_wrappers = 0, lm_inners = 1\<rparr> (live w), next_addr := next_addr w + 1\<rparr>)"
proof (cases "budget_try_reserve (length (wasm_bytes raw)) (budget w)")
  case (Inl e)
  then show ?thesis using refused by (simp add: compile_module_def)
next
  case (Inr b)
  then show ?thesis
    using refused compiled budget_try_reserve_release[OF Inr]
    by (cases "compiler (wasm_bytes raw)") (simp_all add: compile_module_def)
qed

lemma compile_module_inv:
  assumes inv: "store_inv w" and raw: "wasm_id raw = None"
  shows "\<exists>res w'. compile_module compiler raw w = Some (res, w') \<and> store_inv w'"
proof (cases rule: compile_module_cases[of compiler raw w])
  case refused
  then show ?thesis using inv by simp
next
  case 2: (compiled b c)
  have "store_inv (w\<lparr>budget := b, live := hm_insert (next_addr w)
      \<lparr>lm_module = \<lparr>cm_source = raw, cm_code = c, cm_reservation = Some (length (wasm_bytes raw))\<rparr>,
       lm_wrappers = 0, lm_inners = 1\<rparr> (live w), next_addr := next_addr w + 1, cached := cached w\<rparr>)"
    using new_module_inv[OF inv, of "\<lparr>lm_module = \<lparr>cm_source = raw, cm_code = c, cm_reservation = Some (length (wasm_bytes raw))\<rparr>,
       lm_wrappers = 0, lm_inners = 1\<rparr>" b] 2 raw by simp
  then show ?thesis using 2(3) by simp
qed

lemma insert_compiled_inv:
  assumes inv: "store_inv w" and b: "budget_try_reserve (length (wasm_bytes raw)) (budget w) = Inr b"
    and k: "\<And>k. wasm_id raw = Some k \<Longrightarrow> hm_get (cached w) k = None \<and> length (cached w) < max_entries w"
  shows "store_inv (insert_compiled (wasm_id raw) (next_addr w) (w\<lparr>budget := b, live := hm_insert (next_addr w)
      \<lparr>lm_module = \<lparr>cm_source = raw, cm_code = c, cm_reservation = Some (length (wasm_bytes raw))\<rparr>,
       lm_wrappers = 0, lm_inners = 1\<rparr> (live w), next_addr := next_addr w + 1\<rparr>))"
proof -
  let ?m = "\<lambda>n. \<lparr>lm_module = \<lparr>cm_source = raw, cm_code = c, cm_reservation = Some (length (wasm_bytes raw))\<rparr>,
       lm_wrappers = n, lm_inners = 1\<rparr>"
  show ?thesis
  proof (cases "wasm_id raw")
    case None
    then have "store_inv (w\<lparr>budget := b, live := hm_insert (next_addr w) (?m 1) (live w), next_addr := next_addr w + 1, cached := cached w\<rparr>)"
      using new_module_inv[OF inv, of "?m 1" b] b by simp
    moreover have "insert_compiled (wasm_id raw) (next_addr w) (w\<lparr>budget := b, live := hm_insert (next_addr w) (?m 0) (live w),
        next_addr := next_addr w + 1\<rparr>) = w\<lparr>budget := b, live := hm_insert (next_addr w) (?m 1) (live w), next_addr := next_addr w + 1, cached := cached w\<rparr>"
      using None by (intro module_store.equality) (simp_all add: insert_compiled_def clone_wrapper_def hm_get_insert)
    ultimately show ?thesis by simp
  next
    case (Some i)
    then have "store_inv (w\<lparr>budget := b, live := hm_insert (next_addr w) (?m 2) (live w), next_addr := next_addr w + 1,
        cached := hm_insert i (next_addr w) (cached w)\<rparr>)"
      using new_module_inv[OF inv, of "?m 2" b] b k by simp
    moreover have "insert_compiled (wasm_id raw) (next_addr w) (w\<lparr>budget := b, live := hm_insert (next_addr w) (?m 0) (live w),
        next_addr := next_addr w + 1\<rparr>) = w\<lparr>budget := b, live := hm_insert (next_addr w) (?m 2) (live w), next_addr := next_addr w + 1,
        cached := hm_insert i (next_addr w) (cached w)\<rparr>"
      using Some by (intro module_store.equality) (simp_all add: insert_compiled_def clone_wrapper_def hm_get_insert Let_def numeral_2_eq_2)
    ultimately show ?thesis by simp
  qed
qed

lemma modules_compile_inv:
  assumes inv: "store_inv w"
  shows "\<exists>res w'. modules_compile compiler raw w = Some (res, w') \<and> store_inv w'"
proof (cases "Option.bind (wasm_id raw) (hm_get (cached w))")
  case (Some a)
  then show ?thesis using clone_wrapper_inv[OF inv, of a] by (simp add: modules_compile_def)
next
  case None
  let ?full = "\<lambda>w. wasm_id raw \<noteq> None \<and> max_entries w \<le> length (cached w)"
  obtain w1 where w1: "(if ?full w then reclaim (unused_ids w) w else Some w) = Some w1" "store_inv w1"
    "hm_keys (cached w1) \<subseteq> hm_keys (cached w)"
    using reclaim_inv[OF inv, of "unused_ids w"] inv by (cases "?full w") auto
  have absent: "hm_get (cached w1) k = None" if "wasm_id raw = Some k" for k
    using None that w1(3) hm_get_None[of "cached w" k] hm_get_None[of "cached w1" k] by auto
  show ?thesis
  proof (cases "?full w1")
    case True
    then show ?thesis using None w1 by (simp add: modules_compile_def)
  next
    case False
    have eq: "modules_compile compiler raw w = map_option (\<lambda>(res, w2). case res of Inl e \<Rightarrow> (Inl e, w2)
        | Inr a \<Rightarrow> (Inr a, insert_compiled (wasm_id raw) a w2)) (compile_module compiler raw w1)"
      using None w1(1) False unfolding modules_compile_def by auto
    show ?thesis
    proof (cases rule: compile_module_cases[of compiler raw w1])
      case refused
      then show ?thesis using eq w1(2) by simp
    next
      case (compiled b c)
      have "store_inv (insert_compiled (wasm_id raw) (next_addr w1) (w1\<lparr>budget := b, live := hm_insert (next_addr w1)
        \<lparr>lm_module = \<lparr>cm_source = raw, cm_code = c, cm_reservation = Some (length (wasm_bytes raw))\<rparr>,
         lm_wrappers = 0, lm_inners = 1\<rparr> (live w1), next_addr := next_addr w1 + 1\<rparr>))"
        by (rule insert_compiled_inv[OF w1(2) compiled(1)]) (use absent False in auto)
      then show ?thesis using eq compiled(3) by simp
    qed
  qed
qed

section \<open>Runs\<close>

datatype store_op =
  Compile raw_wasm
| CompileDirect "u8 list"
| GetCached u64
| RemoveIfUnused u64
| CloneWrapper nat
| DropWrapper nat
| CloneInner nat
| DropInner nat

text \<open>
  References are dropped by whoever holds them: beyond the reference of the cache to the wrapper, and
  that of the wrapper to the inner module, a holder must exist.
\<close>

fun store_enabled :: "store_op \<Rightarrow> 'c module_store \<Rightarrow> bool" where
  "store_enabled (DropWrapper a) w =
     (case hm_get (live w) a of None \<Rightarrow> False | Some m \<Rightarrow> (if is_cached a w then 2 else 1) \<le> lm_wrappers m)"
| "store_enabled (DropInner a) w =
     (case hm_get (live w) a of None \<Rightarrow> False | Some m \<Rightarrow> (if 0 < lm_wrappers m then 2 else 1) \<le> lm_inners m)"
| "store_enabled _ w = True"

fun store_step :: "(u8 list \<Rightarrow> string + 'c) \<Rightarrow> store_op \<Rightarrow> 'c module_store \<Rightarrow> 'c module_store option" where
  "store_step compiler (Compile raw) w = map_option snd (modules_compile compiler raw w)"
| "store_step compiler (CompileDirect bytes) w = map_option snd (compile_module compiler (raw_wasm_from bytes) w)"
| "store_step compiler (GetCached i) w = Some (snd (modules_get i w))"
| "store_step compiler (RemoveIfUnused i) w = map_option snd (remove_if_unused i w)"
| "store_step compiler (CloneWrapper a) w = Some (clone_wrapper a w)"
| "store_step compiler (DropWrapper a) w = drop_wrapper a w"
| "store_step compiler (CloneInner a) w = Some (clone_inner a w)"
| "store_step compiler (DropInner a) w = drop_inner_module a w"

lemma store_step_inv:
  assumes inv: "store_inv w" and en: "store_enabled op w"
  shows "\<exists>w'. store_step compiler op w = Some w' \<and> store_inv w'"
proof (cases op)
  case (Compile raw)
  then show ?thesis using modules_compile_inv[OF inv, of compiler raw] by auto
next
  case (CompileDirect bytes)
  then show ?thesis using compile_module_inv[OF inv, of "raw_wasm_from bytes" compiler] by (auto simp: raw_wasm_from_def)
next
  case (GetCached i)
  then show ?thesis using clone_wrapper_inv[OF inv] inv by (auto simp: modules_get_def split: option.splits)
next
  case (RemoveIfUnused i)
  then show ?thesis using remove_if_unused_inv[OF inv, of i] by auto
next
  case (DropWrapper a)
  then show ?thesis using drop_wrapper_inv[OF inv, of a] en by (auto split: option.splits)
next
  case (DropInner a)
  then obtain m where m: "hm_get (live w) a = Some m" "(if 0 < lm_wrappers m then 2 else 1) \<le> lm_inners m"
    using en by (auto split: option.splits)
  have "lm_id m = None" if "lm_wrappers m = 0"
    using that liveD[of w a m] cachedD[of w _ a m] inv m(1) by (cases "lm_id m") (force simp: store_inv_def)+
  then show ?thesis using DropInner drop_inner_module_inv[OF inv m(1)] m(2) by (cases "lm_wrappers m") auto
qed (use clone_wrapper_inv[OF inv] clone_inner_inv[OF inv] in auto)

interpretation store: inductive_invariant "\<lambda>w. \<exists>l n. w = modules_with_max_entries l n"
  "\<lambda>w w'. \<exists>op. store_enabled op w \<and> store_step compiler op w = Some w'" store_inv for compiler
proof unfold_locales
  fix w w' assume inv: "store_inv w" and "\<exists>op. store_enabled op w \<and> store_step compiler op w = Some w'"
  then obtain op where op: "store_enabled op w" "store_step compiler op w = Some w'" by blast
  from store_step_inv[OF inv op(1), of compiler] op(2) show "store_inv w'" by auto
qed (auto simp: store_inv_new)


definition sample_store :: "unit module_store" where
  "sample_store = the (store_step (\<lambda>_. Inr ()) (Compile \<lparr>wasm_id = Some 5, wasm_bytes = [0, 1]\<rparr>)
     (modules_with_max_entries \<lparr>limit_modules = 1, limit_source_bytes = 4, limit_single_module_bytes = 4\<rparr> 1))"


end
