(* ===== verification/Wasm_Instance.thy ===== *)
theory Wasm_Instance
  imports Module_Cache
begin

text \<open>
  \<open>lunatic-process/src/runtimes/wasmtime.rs\<close>, instances, and \<open>instance_pool.rs\<close>: instantiation with a
  fuel quota, the memory snapshot a hot reload carries over, and the pool of reusable instances.  The
  engine (instantiating a module, growing a memory) and the process state (\<open>ProcessState\<close>) are
  parameters; what is relied on of them is stated in the locales \<open>wasm_memory\<close> and \<open>process_state\<close>.
  An instance is the state of its store, its exported memory and the fuel that is left.
\<close>

section \<open>The engine and the process state\<close>

record ('c, 's) wasm_engine =
  eng_fuel_enabled :: bool
  eng_instantiate :: "'c \<Rightarrow> u64 \<Rightarrow> 's \<Rightarrow> string + 's \<times> u8 list option \<times> u64"
  eng_grow :: "u64 \<Rightarrow> u8 list \<Rightarrow> string + u8 list"

definition wasm_page_size :: usize where
  "wasm_page_size = 64 * 1024"

text \<open>Growing a memory by pages appends zeroed pages (\<open>Memory::grow\<close>).\<close>

locale wasm_memory =
  fixes E :: "('c, 's) wasm_engine"
  assumes grow_zeroed: "eng_grow E n mem = Inr mem' \<Longrightarrow> mem' = mem @ replicate (unat n * wasm_page_size) 0"

text \<open>
  \<open>ProcessState\<close>: the fuel quota of its configuration, \<open>initialize\<close>, \<open>new_state_for_reload\<close> and
  \<open>transfer_runtime_resources_to\<close>, which changes both states.  Its contract asks that a failing transfer
  leaves the source unchanged.
\<close>

record ('m, 's) state_ops =
  st_id :: "'s \<Rightarrow> u64"
  st_max_fuel :: "'s \<Rightarrow> u64 option"
  st_initialize :: "'s \<Rightarrow> 's"
  st_new_for_reload :: "'m \<Rightarrow> 's \<Rightarrow> string + 's"
  st_transfer :: "'s \<Rightarrow> 's \<Rightarrow> (string + unit) \<times> 's \<times> 's"

locale process_state =
  fixes P :: "('m, 's) state_ops"
  assumes transfer_error: "st_transfer P old new = (Inl e, old', new') \<Longrightarrow> old' = old"

section \<open>Instances\<close>

record 's wasm_instance =
  inst_state :: 's
  inst_memory :: "u8 list option"
  inst_fuel :: u64

record memory_snapshot =
  snap_memory :: "u8 list"
  snap_stack_ptr :: "u32 option"
  snap_heap_ptr :: "u32 option"
  snap_metadata :: "(string, u8 list) hmap"

definition unit_of_compute :: u64 where
  "unit_of_compute = 100000"

definition saturating_mul :: "u64 \<Rightarrow> u64 \<Rightarrow> u64" where
  "saturating_mul a b = (if unat a * unat b < 2 ^ 64 then a * b else - 1)"

definition initial_fuel :: "u64 option \<Rightarrow> u64" where
  "initial_fuel max_fuel = (case max_fuel of Some n \<Rightarrow> saturating_mul n unit_of_compute | None \<Rightarrow> - 1)"

definition instantiate ::
  "('c, 's) wasm_engine \<Rightarrow> ('m, 's) state_ops \<Rightarrow> 'c compiled_module \<Rightarrow> 's \<Rightarrow> string + 's wasm_instance" where
  "instantiate E P m s =
     and_then (ensure (eng_fuel_enabled E) ''fuel is not configured in this store'') (\<lambda>_.
     and_then (eng_instantiate E (cm_code m) (initial_fuel (st_max_fuel P s)) s) (\<lambda>(s', mem, fuel).
     Inr \<lparr>inst_state = st_initialize P s', inst_memory = mem, inst_fuel = fuel\<rparr>))"

definition set_fuel :: "('c, 's) wasm_engine \<Rightarrow> u64 \<Rightarrow> 's wasm_instance \<Rightarrow> string + 's wasm_instance" where
  "set_fuel E n i = and_then (ensure (eng_fuel_enabled E) ''fuel is not configured in this store'')
     (\<lambda>_. Inr (i\<lparr>inst_fuel := n\<rparr>))"

definition get_fuel :: "('c, 's) wasm_engine \<Rightarrow> 's wasm_instance \<Rightarrow> string + u64" where
  "get_fuel E i = and_then (ensure (eng_fuel_enabled E) ''fuel is not configured in this store'')
     (\<lambda>_. Inr (inst_fuel i))"

definition snapshot_memory :: "'s wasm_instance \<Rightarrow> string + memory_snapshot" where
  "snapshot_memory i = and_then (ok_or ''No memory export found'' (inst_memory i)) (\<lambda>mem.
     Inr \<lparr>snap_memory = mem, snap_stack_ptr = None, snap_heap_ptr = None, snap_metadata = []\<rparr>)"

definition missing_pages :: "usize \<Rightarrow> u64" where
  "missing_pages missing = word_of_nat ((missing + (wasm_page_size - 1)) div wasm_page_size)"

definition restore_memory ::
  "('c, 's) wasm_engine \<Rightarrow> memory_snapshot \<Rightarrow> 's wasm_instance \<Rightarrow> string + 's wasm_instance" where
  "restore_memory E snap i =
     and_then (ok_or ''No memory export found'' (inst_memory i)) (\<lambda>mem.
     and_then (if length mem < length (snap_memory snap)
               then eng_grow E (missing_pages (length (snap_memory snap) - length mem)) mem
               else Inr mem) (\<lambda>data.
     and_then (ensure (length (snap_memory snap) \<le> length data)
                 ''replacement memory is smaller than the captured process memory'') (\<lambda>_.
     Inr (i\<lparr>inst_memory := Some (snap_memory snap @ drop (length (snap_memory snap)) data)\<rparr>))))"

text \<open>
  What a finished call means for the process: exit code 0 of the guest is a normal finish.  An error
  carries its rendering.
\<close>

datatype call_error = GuestExit u32 string | CallFailed string

datatype result_value = ResultOk | ResultFailed string | ResultSpawnError string

definition into_execution_result :: "call_error + unit \<Rightarrow> 's wasm_instance \<Rightarrow> 's \<times> result_value" where
  "into_execution_result r i = (inst_state i,
     (case r of Inr () \<Rightarrow> ResultOk
      | Inl (GuestExit c shown) \<Rightarrow> if c = 0 then ResultOk else ResultFailed shown
      | Inl (CallFailed e) \<Rightarrow> ResultFailed e))"

section \<open>The instance pool\<close>

record pool_metrics =
  hits :: u64
  misses :: u64
  evictions :: u64
  created :: u64

record 's instance_pool =
  pool :: "('s wasm_instance \<times> nat) list"
  pool_max_size :: usize
  metrics :: pool_metrics
  initial_snapshot :: "memory_snapshot option"

text \<open>Time is in nanoseconds.\<close>

definition instance_ttl :: nat where
  "instance_ttl = 60000000000"

definition pool_new :: "usize \<Rightarrow> 's instance_pool" where
  "pool_new n = \<lparr>pool = [], pool_max_size = n, metrics = \<lparr>hits = 0, misses = 0, evictions = 0, created = 0\<rparr>,
     initial_snapshot = None\<rparr>"

text \<open>The loop of \<open>acquire\<close>: stale instances at the front are discarded and counted.\<close>

function pop_fresh :: "nat \<Rightarrow> 's instance_pool \<Rightarrow> 's wasm_instance option \<times> 's instance_pool" where
  "pop_fresh now p =
     (case pool p of
        [] \<Rightarrow> (None, p)
      | (i, last_used) # rest \<Rightarrow>
          if instance_ttl < now - last_used
          then pop_fresh now (p\<lparr>pool := rest, metrics := (metrics p)\<lparr>evictions := evictions (metrics p) + 1\<rparr>\<rparr>)
          else (Some i, p\<lparr>pool := rest\<rparr>))"
  by pat_completeness auto

termination pop_fresh
  by (relation "measure (\<lambda>(now, p). length (pool p))") auto

declare pop_fresh.simps [simp del]

definition create_instance ::
  "('c, 's) wasm_engine \<Rightarrow> ('m, 's) state_ops \<Rightarrow> 'c compiled_module \<Rightarrow> 's \<Rightarrow> 's instance_pool \<Rightarrow>
     (string + 's wasm_instance) \<times> 's instance_pool" where
  "create_instance E P m s p =
     (case instantiate E P m s of
        Inl e \<Rightarrow> (Inl e, p)
      | Inr i \<Rightarrow> (case snapshot_memory i of
            Inl e \<Rightarrow> (Inl e, p)
          | Inr snap \<Rightarrow> (Inr i, p\<lparr>initial_snapshot :=
                (case initial_snapshot p of None \<Rightarrow> Some snap | Some x \<Rightarrow> Some x)\<rparr>)))"

definition reset_instance ::
  "('c, 's) wasm_engine \<Rightarrow> ('m, 's) state_ops \<Rightarrow> 's wasm_instance \<Rightarrow> 's \<Rightarrow> 's instance_pool \<Rightarrow>
     (string + 's wasm_instance) \<times> 's instance_pool" where
  "reset_instance E P i s p =
     (let finish = (\<lambda>j. j\<lparr>inst_state := st_initialize P s\<rparr>) in
      case initial_snapshot p of
        Some snap \<Rightarrow> (case restore_memory E snap i of Inl e \<Rightarrow> (Inl e, p) | Inr j \<Rightarrow> (Inr (finish j), p))
      | None \<Rightarrow> (case snapshot_memory i of
            Inl e \<Rightarrow> (Inl e, p)
          | Inr snap \<Rightarrow> (Inr (finish i), p\<lparr>initial_snapshot := Some snap\<rparr>)))"

definition acquire ::
  "('c, 's) wasm_engine \<Rightarrow> ('m, 's) state_ops \<Rightarrow> 'c compiled_module \<Rightarrow> nat \<Rightarrow> 's \<Rightarrow> 's instance_pool \<Rightarrow>
     (string + 's wasm_instance) \<times> 's instance_pool" where
  "acquire E P m now s p =
     (case pop_fresh now p of
        (Some i, p1) \<Rightarrow> reset_instance E P i s (p1\<lparr>metrics := (metrics p1)\<lparr>hits := hits (metrics p1) + 1\<rparr>\<rparr>)
      | (None, p1) \<Rightarrow> create_instance E P m s (p1\<lparr>metrics := (metrics p1)\<lparr>misses := misses (metrics p1) + 1,
            created := created (metrics p1) + 1\<rparr>\<rparr>))"

definition release :: "nat \<Rightarrow> 's wasm_instance \<Rightarrow> 's instance_pool \<Rightarrow> 's instance_pool" where
  "release now i p =
     (if length (pool p) < pool_max_size p then p\<lparr>pool := pool p @ [(i, now)]\<rparr>
      else p\<lparr>metrics := (metrics p)\<lparr>evictions := evictions (metrics p) + 1\<rparr>\<rparr>)"

section \<open>Memory is carried over\<close>

context wasm_memory
begin

lemma grow_length: "eng_grow E n mem = Inr mem' \<Longrightarrow> length mem' = length mem + unat n * wasm_page_size"
  using grow_zeroed by fastforce

text \<open>The pages that \<open>restore_memory\<close> asks for are enough.\<close>

lemma pages_enough:
  assumes "missing < 2 ^ 64" "eng_grow E (missing_pages missing) mem = Inr data"
  shows "length mem + missing \<le> length data"
proof -
  let ?n = "(missing + (wasm_page_size - 1)) div wasm_page_size"
  have "?n < 2 ^ 64" using assms(1) by (simp add: wasm_page_size_def less_mult_imp_div_less)
  then have "unat (missing_pages missing) = ?n" by (simp add: unat_of_nat missing_pages_def)
  moreover have "missing \<le> ?n * wasm_page_size"
    using div_mult_mod_eq[of "missing + (wasm_page_size - 1)" wasm_page_size]
      mod_less_divisor[of wasm_page_size "missing + (wasm_page_size - 1)"] by (simp add: wasm_page_size_def)
  ultimately show ?thesis using grow_length[OF assms(2)] by simp
qed

lemma restore_memory_result:
  assumes "length (snap_memory snap) < 2 ^ 64" "inst_memory i = Some mem"
  shows "(\<exists>e. restore_memory E snap i = Inl e \<and> length mem < length (snap_memory snap)) \<or>
    (\<exists>data. restore_memory E snap i = Inr (i\<lparr>inst_memory := Some (snap_memory snap @ drop (length (snap_memory snap)) data)\<rparr>) \<and>
       take (length mem) data = mem \<and> (\<forall>b \<in> set (drop (length mem) data). b = 0) \<and>
       (length (snap_memory snap) \<le> length mem \<longrightarrow> data = mem))"
proof (cases "length mem < length (snap_memory snap)")
  case False
  then show ?thesis using assms(2) by (simp add: restore_memory_def ok_or_def ensure_def)
next
  case True
  let ?missing = "length (snap_memory snap) - length mem"
  show ?thesis
  proof (cases "eng_grow E (missing_pages ?missing) mem")
    case (Inl e)
    then show ?thesis using True assms(2) by (simp add: restore_memory_def ok_or_def)
  next
    case (Inr data)
    have "length (snap_memory snap) \<le> length data" using pages_enough[of ?missing mem data] Inr assms(1) True by simp
    then have "restore_memory E snap i = Inr (i\<lparr>inst_memory := Some (snap_memory snap @ drop (length (snap_memory snap)) data)\<rparr>)"
      using True assms(2) Inr by (simp add: restore_memory_def ok_or_def ensure_def)
    moreover have "take (length mem) data = mem" "\<forall>b \<in> set (drop (length mem) data). b = 0"
      using grow_zeroed[OF Inr] by auto
    ultimately show ?thesis using True by auto
  qed
qed

end


section \<open>The pool\<close>

text \<open>An engine with a page-wise growing memory up to a limit, and a trivial process state.\<close>

definition sample_engine :: "('c \<Rightarrow> u8 list) \<Rightarrow> nat \<Rightarrow> ('c, u64) wasm_engine" where
  "sample_engine initial limit = \<lparr>eng_fuel_enabled = True,
     eng_instantiate = (\<lambda>code fuel s. Inr (s, Some (initial code), fuel)),
     eng_grow = (\<lambda>n mem. if length mem + unat n * wasm_page_size \<le> limit
        then Inr (mem @ replicate (unat n * wasm_page_size) 0) else Inl ''grow failed'')\<rparr>"

interpretation sample_engine: wasm_memory "sample_engine initial limit" for initial limit
  by unfold_locales (auto simp: sample_engine_def split: if_splits)

definition sample_state :: "('m, u64) state_ops" where
  "sample_state = \<lparr>st_id = (\<lambda>s. s), st_max_fuel = (\<lambda>_. Some 1), st_initialize = (\<lambda>s. s),
     st_new_for_reload = (\<lambda>m s. Inr s), st_transfer = (\<lambda>old new. (Inr (), old, new))\<rparr>"

interpretation sample_state: process_state sample_state
  by unfold_locales (simp add: sample_state_def)

text \<open>The loop discards exactly the stale instances in front of the one it returns, and counts them.\<close>

lemma pop_fresh_split:
  "pop_fresh now p = (r, p') \<Longrightarrow> \<exists>stale. (\<forall>(i, t) \<in> set stale. instance_ttl < now - t) \<and>
     p' = p\<lparr>pool := pool p', metrics := (metrics p)\<lparr>evictions := evictions (metrics p) + word_of_nat (length stale)\<rparr>\<rparr> \<and>
     (case r of None \<Rightarrow> pool p = stale \<and> pool p' = []
      | Some i \<Rightarrow> \<exists>t. pool p = stale @ (i, t) # pool p' \<and> \<not> instance_ttl < now - t)"
proof (induction now p rule: pop_fresh.induct)
  case (1 now p)
  show ?case
  proof (cases "pool p")
    case Nil
    then show ?thesis using "1.prems" by (auto simp: pop_fresh.simps[of now p] intro!: exI[of _ "[]"])
  next
    case (Cons e rest)
    obtain i t where e: "e = (i, t)" by (cases e)
    show ?thesis
    proof (cases "instance_ttl < now - t")
      case False
      then show ?thesis using "1.prems" Cons e by (auto simp: pop_fresh.simps[of now p] intro!: exI[of _ "[]"])
    next
      case True
      let ?p = "p\<lparr>pool := rest, metrics := (metrics p)\<lparr>evictions := evictions (metrics p) + 1\<rparr>\<rparr>"
      have "pop_fresh now ?p = (r, p')" using "1.prems" Cons e True by (simp add: pop_fresh.simps[of now p])
      from "1.IH"[OF Cons e[symmetric] True this] obtain stale
        where st: "\<forall>(i, t) \<in> set stale. instance_ttl < now - t"
          "p' = ?p\<lparr>pool := pool p', metrics := (metrics ?p)\<lparr>evictions := evictions (metrics ?p) + word_of_nat (length stale)\<rparr>\<rparr>"
          "case r of None \<Rightarrow> pool ?p = stale \<and> pool p' = []
           | Some i \<Rightarrow> \<exists>t. pool ?p = stale @ (i, t) # pool p' \<and> \<not> instance_ttl < now - t" by blast
      show ?thesis
        using st True Cons e by (intro exI[of _ "(i, t) # stale"]) (auto split: option.splits simp: add.assoc)
    qed
  qed
qed


lemma pop_fresh_frame:
  assumes "pop_fresh now p = (r, p')"
  shows "initial_snapshot p' = initial_snapshot p" "pool_max_size p' = pool_max_size p" "length (pool p') \<le> length (pool p)"
proof -
  obtain stale where eq: "p' = p\<lparr>pool := pool p', metrics := (metrics p)\<lparr>evictions := evictions (metrics p) + word_of_nat (length stale)\<rparr>\<rparr>"
    and len: "case r of None \<Rightarrow> pool p = stale \<and> pool p' = []
      | Some i \<Rightarrow> \<exists>t. pool p = stale @ (i, t) # pool p' \<and> \<not> instance_ttl < now - t"
    using pop_fresh_split[OF assms] by blast
  show "initial_snapshot p' = initial_snapshot p" using arg_cong[OF eq, of initial_snapshot] by simp
  show "pool_max_size p' = pool_max_size p" using arg_cong[OF eq, of pool_max_size] by simp
  show "length (pool p') \<le> length (pool p)" using len by (auto split: option.splits)
qed

text \<open>The pool keeps to its size.\<close>

definition pool_ok :: "'s instance_pool \<Rightarrow> bool" where
  "pool_ok p \<longleftrightarrow> length (pool p) \<le> pool_max_size p"

lemma release_pool_ok: "pool_ok p \<Longrightarrow> pool_ok (release now i p)"
  by (simp add: release_def pool_ok_def)

lemma acquire_pool_ok: "pool_ok p \<Longrightarrow> pool_ok (snd (acquire E P m now s p))"
proof -
  assume ok: "pool_ok p"
  obtain r p1 where pop: "pop_fresh now p = (r, p1)" by (cases "pop_fresh now p")
  then show ?thesis using ok pop_fresh_frame[OF pop]
    by (auto simp: pool_ok_def acquire_def reset_instance_def create_instance_def Let_def split: option.splits sum.splits)
qed

text \<open>
  C34.  What a pool hit hands out.  The memory up to the size of the initial snapshot is reset, but an
  instance whose memory the previous process grew keeps every byte that process wrote above that size,
  and the fuel it left over: neither is part of the reset.
\<close>

theorem pool_hit_keeps_tail_and_fuel:
  assumes "pop_fresh now p = (Some i, p1)" "initial_snapshot p = Some snap" "inst_memory i = Some mem"
    "length (snap_memory snap) \<le> length mem"
  shows "fst (acquire E P m now s p) =
    Inr \<lparr>inst_state = st_initialize P s, inst_memory = Some (snap_memory snap @ drop (length (snap_memory snap)) mem),
         inst_fuel = inst_fuel i\<rparr>"
proof -
  have "initial_snapshot p1 = Some snap"
    using pop_fresh_frame(1)[OF assms(1)] assms(2) by simp
  moreover have "restore_memory E snap i = Inr (i\<lparr>inst_memory := Some (snap_memory snap @ drop (length (snap_memory snap)) mem)\<rparr>)"
    using assms(3,4) by (simp add: restore_memory_def ok_or_def ensure_def)
  ultimately show ?thesis using assms(1) by (simp add: acquire_def reset_instance_def Let_def)
qed

text \<open>A pool whose one instance was grown by a page and written to in the new page by its last user.\<close>

definition used_instance :: "u64 wasm_instance" where
  "used_instance = \<lparr>inst_state = 1, inst_memory = Some [0, 9, 42], inst_fuel = 3\<rparr>"

definition used_pool :: "u64 instance_pool" where
  "used_pool = (release 5 used_instance (pool_new 1))\<lparr>initial_snapshot :=
     Some \<lparr>snap_memory = [0, 0], snap_stack_ptr = None, snap_heap_ptr = None, snap_metadata = []\<rparr>\<rparr>"

theorem pool_hit_keeps_tail_and_fuel_witness:
  "fst (acquire (sample_engine id 0) sample_state \<lparr>cm_source = raw_wasm_from [], cm_code = [0, 0], cm_reservation = None\<rparr> 6 2 used_pool) =
     Inr \<lparr>inst_state = 2, inst_memory = Some [0, 0, 42], inst_fuel = 3\<rparr>"
proof -
  have "pop_fresh 6 used_pool = (Some used_instance, used_pool\<lparr>pool := []\<rparr>)"
    by (subst pop_fresh.simps) (simp add: used_pool_def release_def pool_new_def instance_ttl_def)
  note pop = this
  have snap: "initial_snapshot used_pool = Some \<lparr>snap_memory = [0, 0], snap_stack_ptr = None, snap_heap_ptr = None, snap_metadata = []\<rparr>"
    and mem: "inst_memory used_instance = Some [0, 9, 42]" by (simp_all add: used_pool_def used_instance_def)
  show ?thesis
    by (subst pool_hit_keeps_tail_and_fuel[OF pop snap mem]) (simp_all add: sample_state_def used_instance_def)
qed

end
