(* ===== verification/Process_Reload.thy ===== *)
theory Process_Reload
  imports Wasm_Instance Module_Registry
begin

text \<open>
  Hot reload inside one process: the compatibility checks of \<open>signature_validation.rs\<close> and
  \<open>hot_reload.rs\<close>, the instance swap and the version tracking of \<open>lib.rs\<close>, and the execution driver of
  \<open>wasm.rs\<close>.  The code of a compiled module is its exports and imports; \<open>'v\<close> is the type of value types.
  Module registries live in a heap, because a process keeps a reference to the one it registered with.
  The driver awaits several times while a command is handled; the heap it sees each time is an argument,
  since other tasks run in between.
\<close>

section \<open>Signatures\<close>

datatype 'v extern_type =
  ExternFunc "'v list" "'v list"
| ExternGlobal bool
| ExternMemory u64
| ExternTable
| ExternTag

record 'v wasm_module =
  wm_exports :: "(string \<times> 'v extern_type) list"
  wm_imports :: "(string \<times> string \<times> 'v extern_type) list"

datatype 'v validation_error =
  MissingExport string
| TypeMismatch string "'v extern_type" "'v extern_type"
| MemorySizeMismatch u64 u64
| IncompatibleParams string "'v list" "'v list"
| IncompatibleResults string "'v list" "'v list"

text \<open>\<open>SignatureValidator\<close>.\<close>

definition same_val_types :: "'v list \<Rightarrow> 'v list \<Rightarrow> bool" where
  "same_val_types old new \<longleftrightarrow> length old = length new \<and> list_all (\<lambda>(a, b). a = b) (zip old new)"

definition validate_func_types :: "string \<Rightarrow> 'v list \<times> 'v list \<Rightarrow> 'v list \<times> 'v list \<Rightarrow> 'v validation_error + unit" where
  "validate_func_types name old new =
     (if \<not> same_val_types (fst old) (fst new) then Inl (IncompatibleParams name (fst old) (fst new))
      else if \<not> same_val_types (snd old) (snd new) then Inl (IncompatibleResults name (snd old) (snd new))
      else Inr ())"

definition validate_memory_types :: "u64 \<Rightarrow> u64 \<Rightarrow> 'v validation_error + unit" where
  "validate_memory_types old new = (if new < old then Inl (MemorySizeMismatch old new) else Inr ())"

fun validate_export_types :: "string \<Rightarrow> 'v extern_type \<Rightarrow> 'v extern_type \<Rightarrow> 'v validation_error + unit" where
  "validate_export_types name (ExternFunc p r) (ExternFunc p' r') = validate_func_types name (p, r) (p', r')"
| "validate_export_types name (ExternMemory m) (ExternMemory m') = validate_memory_types m m'"
| "validate_export_types name ExternTable ExternTable = Inr ()"
| "validate_export_types name (ExternGlobal g) (ExternGlobal g') = Inr ()"
| "validate_export_types name old new = Inl (TypeMismatch name old new)"

fun validate_exports :: "(string \<times> 'v extern_type) list \<Rightarrow> (string \<times> 'v extern_type) list \<Rightarrow> 'v validation_error list" where
  "validate_exports [] new = []"
| "validate_exports ((name, ty) # old) new =
     (case find (\<lambda>(n, _). n = name) new of
        Some (_, ty') \<Rightarrow> (case validate_export_types name ty ty' of Inl e \<Rightarrow> [e] | Inr _ \<Rightarrow> [])
      | None \<Rightarrow> [MissingExport name]) @ validate_exports old new"

definition validate_compatibility :: "'v wasm_module compiled_module \<Rightarrow> 'v wasm_module compiled_module \<Rightarrow> 'v validation_error list" where
  "validate_compatibility old new = validate_exports (wm_exports (cm_code old)) (wm_exports (cm_code new))"

text \<open>The coarser signatures and the rules of \<open>validate_reload_compatibility\<close>.\<close>

datatype export_signature = SigFunc usize usize | SigGlobal bool | SigMemory | SigTable | SigTag

fun signature_of :: "'v extern_type \<Rightarrow> export_signature" where
  "signature_of (ExternFunc p r) = SigFunc (length p) (length r)"
| "signature_of (ExternGlobal m) = SigGlobal m"
| "signature_of (ExternMemory m) = SigMemory"
| "signature_of ExternTable = SigTable"
| "signature_of ExternTag = SigTag"

definition get_export_signatures :: "'v wasm_module compiled_module \<Rightarrow> (string, export_signature) hmap" where
  "get_export_signatures m = fold (\<lambda>(n, ty) es. hm_insert n (signature_of ty) es) (wm_exports (cm_code m)) []"

definition get_import_signatures :: "'v wasm_module compiled_module \<Rightarrow> (string \<times> string \<times> export_signature) list" where
  "get_import_signatures m = map (\<lambda>(a, b, ty). (a, b, signature_of ty)) (wm_imports (cm_code m))"

fun signatures_compatible :: "export_signature \<Rightarrow> export_signature \<Rightarrow> bool" where
  "signatures_compatible (SigFunc p r) (SigFunc p' r') = (p = p' \<and> r = r')"
| "signatures_compatible (SigGlobal old_mut) (SigGlobal new_mut) = (\<not> old_mut \<or> new_mut)"
| "signatures_compatible SigMemory SigMemory = True"
| "signatures_compatible SigTable SigTable = True"
| "signatures_compatible _ _ = False"

datatype compatibility_error =
  ModuleIdMismatch "u64 option" "u64 option"
| ExportIncompatible string
| ImportIncompatible string string

definition validate_reload_compatibility ::
  "'v wasm_module compiled_module \<Rightarrow> 'v wasm_module compiled_module \<Rightarrow> compatibility_error + unit" where
  "validate_reload_compatibility old new =
     (if wasm_id (cm_source old) \<noteq> wasm_id (cm_source new)
      then Inl (ModuleIdMismatch (wasm_id (cm_source old)) (wasm_id (cm_source new)))
      else case find (\<lambda>(n, sig). case hm_get (get_export_signatures new) n of
                        Some sig' \<Rightarrow> \<not> signatures_compatible sig sig' | None \<Rightarrow> False) (get_export_signatures old) of
        Some (n, _) \<Rightarrow> Inl (ExportIncompatible n)
      | None \<Rightarrow> (case find (\<lambda>(a, b, sig). case find (\<lambda>(a', b', _). a' = a \<and> b' = b) (get_import_signatures old) of
                              Some (_, _, sig') \<Rightarrow> \<not> signatures_compatible sig' sig | None \<Rightarrow> False) (get_import_signatures new) of
            Some (a, b, _) \<Rightarrow> Inl (ImportIncompatible a b)
          | None \<Rightarrow> Inr ()))"

section \<open>The instance swap\<close>

type_synonym 'v code = "'v wasm_module compiled_module"
type_synonym 'v registry_heap = "(nat, 'v code module_registry) hmap"

text \<open>What \<open>get_module_registry\<close> and the downcast give: nothing, a value of another type, or a registry.\<close>

datatype registry_ref = NoRegistry | ForeignRegistry | RegistryAt nat

datatype reload_error =
  RegistryUnavailable
| RegistryDowncast
| NewVersionNotFound u32
| OldVersionNotFound u32
| SignaturesIncompatible usize
| NoInstance
| InstanceError string
| AlreadyTracked u64 u64
| OtherRegistry
| OtherProcess
| VersionChanged
| NoRegistryTracking
| NoProcessTracking
| RegistryError module_registry_error

definition validate_reload_target :: "'v registry_heap \<Rightarrow> registry_ref \<Rightarrow> u64 \<Rightarrow> u32 \<Rightarrow> u32 \<Rightarrow> reload_error + 'v code" where
  "validate_reload_target H env i old new =
     and_then (case env of NoRegistry \<Rightarrow> Inl RegistryUnavailable | ForeignRegistry \<Rightarrow> Inl RegistryDowncast
               | RegistryAt a \<Rightarrow> ok_or RegistryUnavailable (hm_get H a)) (\<lambda>r.
     and_then (ok_or (NewVersionNotFound new) (get_version i new r)) (\<lambda>new_module.
     and_then (ok_or (OldVersionNotFound old) (get_version i old r)) (\<lambda>old_module.
     let errors = validate_compatibility old_module new_module in
     if errors \<noteq> [] then Inl (SignaturesIncompatible (length errors)) else Inr new_module)))"

text \<open>The fallible steps on the old and the new instance; the old one may be changed by the transfer.\<close>

definition replace_instance ::
  "('v wasm_module, 's) wasm_engine \<Rightarrow> ('v code, 's) state_ops \<Rightarrow> 'v code \<Rightarrow> 's wasm_instance \<Rightarrow>
     (string + 's wasm_instance) \<times> 's wasm_instance" where
  "replace_instance E P m old =
     (case and_then (snapshot_memory old) (\<lambda>snap.
           and_then (get_fuel E old) (\<lambda>fuel.
           and_then (st_new_for_reload P m (inst_state old)) (\<lambda>new_state.
           and_then (instantiate E P m new_state) (\<lambda>new.
           and_then (restore_memory E snap new) (\<lambda>new'.
           set_fuel E fuel new'))))) of
        Inl e \<Rightarrow> (Inl e, old)
      | Inr new \<Rightarrow>
          (case st_transfer P (inst_state old) (inst_state new) of
             (Inl e, s, s') \<Rightarrow> (Inl e, old\<lparr>inst_state := s\<rparr>)
           | (Inr _, s, s') \<Rightarrow> (Inr (new\<lparr>inst_state := s'\<rparr>), old\<lparr>inst_state := s\<rparr>)))"

definition perform_pending_reload ::
  "('v wasm_module, 's) wasm_engine \<Rightarrow> ('v code, 's) state_ops \<Rightarrow> 'v registry_heap \<Rightarrow> registry_ref \<Rightarrow>
     u64 \<Rightarrow> u32 \<Rightarrow> u32 \<Rightarrow> 's wasm_instance option \<Rightarrow> (reload_error + unit) \<times> 's wasm_instance option" where
  "perform_pending_reload E P H env i old new slot =
     (case validate_reload_target H env i old new of
        Inl e \<Rightarrow> (Inl e, slot)
      | Inr m \<Rightarrow> (case slot of
            None \<Rightarrow> (Inl NoInstance, None)
          | Some old_instance \<Rightarrow> (case replace_instance E P m old_instance of
                (Inr new_instance, _) \<Rightarrow> (Inr (), Some new_instance)
              | (Inl e, old_instance') \<Rightarrow> (Inl (InstanceError e), Some old_instance'))))"


section \<open>Version tracking\<close>

record version_tracking =
  tr_registry :: "nat option"
  tr_process :: "process_key option"
  tr_versions :: "(u64, u32) hmap"

definition tracking_default :: version_tracking where
  "tracking_default = \<lparr>tr_registry = None, tr_process = None, tr_versions = []\<rparr>"

text \<open>Applying a registry operation to the registry at an address.\<close>

definition on_registry ::
  "nat \<Rightarrow> ('v code module_registry \<Rightarrow> module_registry_error + 'v code module_registry) \<Rightarrow> 'v registry_heap \<Rightarrow> reload_error + 'v registry_heap" where
  "on_registry a f H =
     and_then (ok_or RegistryUnavailable (hm_get H a)) (\<lambda>r.
     case f r of Inl e \<Rightarrow> Inl (RegistryError e) | Inr r' \<Rightarrow> Inr (hm_insert a r' H))"

definition track_initial_version ::
  "nat \<Rightarrow> u64 \<Rightarrow> u32 \<Rightarrow> process_key \<Rightarrow> version_tracking \<Rightarrow> 'v registry_heap \<Rightarrow> reload_error + version_tracking \<times> 'v registry_heap" where
  "track_initial_version a i n p t H =
     and_then (ensure (hm_get (tr_versions t) i = None) (AlreadyTracked (key_process p) i)) (\<lambda>_.
     and_then (ensure (case tr_registry t of None \<Rightarrow> True | Some b \<Rightarrow> b = a) OtherRegistry) (\<lambda>_.
     and_then (ensure (case tr_process t of None \<Rightarrow> True | Some q \<Rightarrow> q = p) OtherProcess) (\<lambda>_.
     and_then (on_registry a (register_process i n p) H) (\<lambda>H'.
     Inr (t\<lparr>tr_registry := Some a, tr_process := Some p, tr_versions := hm_insert i n (tr_versions t)\<rparr>, H')))))"

definition current_version :: "u64 \<Rightarrow> version_tracking \<Rightarrow> u32 option" where
  "current_version i t = hm_get (tr_versions t) i"

definition transition_current_version ::
  "u64 \<Rightarrow> u32 \<Rightarrow> u32 \<Rightarrow> version_tracking \<Rightarrow> 'v registry_heap \<Rightarrow> reload_error + version_tracking \<times> 'v registry_heap" where
  "transition_current_version i old new t H =
     and_then (ensure (hm_get (tr_versions t) i = Some old) VersionChanged) (\<lambda>_.
     and_then (ok_or NoRegistryTracking (tr_registry t)) (\<lambda>a.
     and_then (ok_or NoProcessTracking (tr_process t)) (\<lambda>p.
     and_then (on_registry a (transition_process i old new p) H) (\<lambda>H'.
     Inr (t\<lparr>tr_versions := hm_insert i new (tr_versions t)\<rparr>, H')))))"

text \<open>\<open>unregister_all\<close> takes the registrations and unregisters them one by one; an error is only logged.\<close>

definition take_registrations :: "version_tracking \<Rightarrow> version_tracking \<times> version_tracking" where
  "take_registrations t = (t, tracking_default)"

fun unregister_versions :: "nat \<Rightarrow> process_key \<Rightarrow> (u64 \<times> u32) list \<Rightarrow> 'v registry_heap \<Rightarrow> reload_error list \<times> 'v registry_heap" where
  "unregister_versions a p [] H = ([], H)"
| "unregister_versions a p ((i, n) # vs) H =
     (case on_registry a (unregister_module_process i n p) H of
        Inl e \<Rightarrow> (case unregister_versions a p vs H of (errs, H') \<Rightarrow> (e # errs, H'))
      | Inr H1 \<Rightarrow> unregister_versions a p vs H1)"

definition unregister_all :: "version_tracking \<Rightarrow> 'v registry_heap \<Rightarrow> reload_error list \<times> version_tracking \<times> 'v registry_heap" where
  "unregister_all t H =
     (case take_registrations t of (taken, t') \<Rightarrow>
      (case (tr_registry taken, tr_process taken) of
         (Some a, Some p) \<Rightarrow> (case unregister_versions a p (tr_versions taken) H of (errs, H') \<Rightarrow> (errs, t', H'))
       | _ \<Rightarrow> ([], t', H)))"

section \<open>Commands and the execution driver\<close>

datatype reload_action = HotReload | Rollback

text \<open>\<open>ReloadCommand\<close>; the acknowledgement sender is present or not.\<close>

datatype reload_command =
  HotReloadCommand u64 "u32 option" u32 bool
| RollbackCommand u64 "u32 option" u32 bool

fun into_parts :: "reload_command \<Rightarrow> reload_action \<times> u64 \<times> u32 option \<times> u32 \<times> bool" where
  "into_parts (HotReloadCommand i expected new ack) = (HotReload, i, expected, new, ack)"
| "into_parts (RollbackCommand i expected target ack) = (Rollback, i, expected, target, ack)"

datatype reload_failure =
  NotRunningModule u64
| VersionConflict "u32 option" u32
| AccountingReverted reload_error
| AccountingLost reload_error reload_error
| ReloadFailed reload_error
| OtherFailure string

datatype process_reload_status = Applied | AlreadyAtTarget | ReloadStatusFailed reload_failure

fun is_success :: "process_reload_status \<Rightarrow> bool" where
  "is_success Applied = True"
| "is_success AlreadyAtTarget = True"
| "is_success (ReloadStatusFailed _) = False"

record reload_acknowledgement =
  ack_process :: u64
  ack_module :: u64
  ack_previous :: u32
  ack_current :: u32
  ack_status :: process_reload_status

definition acknowledge_reload ::
  "bool \<Rightarrow> u64 \<Rightarrow> u64 \<Rightarrow> u32 \<Rightarrow> u32 \<Rightarrow> process_reload_status \<Rightarrow> reload_acknowledgement option" where
  "acknowledge_reload sender pid i previous current status =
     (if sender then Some \<lparr>ack_process = pid, ack_module = i, ack_previous = previous, ack_current = current, ack_status = status\<rparr>
      else None)"

record 's process_context =
  ctx_instance :: "'s wasm_instance option"
  reload_in_progress :: bool
  version_tracking :: version_tracking

definition process_context_new :: "'s wasm_instance \<Rightarrow> 's process_context" where
  "process_context_new i = \<lparr>ctx_instance = Some i, reload_in_progress = False, version_tracking = tracking_default\<rparr>"

datatype exec_event = CallFinished "call_error + unit" | ReloadDriverClosed | ReloadRequested reload_command

datatype 's exec_outcome = ContinueLoop | FinishProcess 's result_value

text \<open>
  The heaps at the three awaits of a command: when the target is validated, when the new version is
  recorded, and when a failed recording makes the driver swap back.
\<close>

record 'v await_heaps =
  at_validate :: "'v registry_heap"
  at_account :: "'v registry_heap"
  at_revert :: "'v registry_heap"

text \<open>
  One command.  The result is the outcome, the acknowledgement, the new context, and the heap after the
  recording, if it took place.
\<close>

definition handle_reload ::
  "('v wasm_module, 's) wasm_engine \<Rightarrow> ('v code, 's) state_ops \<Rightarrow> 'v await_heaps \<Rightarrow> registry_ref \<Rightarrow> u64 \<Rightarrow> reload_command \<Rightarrow>
     's process_context \<Rightarrow> ('s exec_outcome \<times> reload_acknowledgement option \<times> 's process_context \<times> 'v registry_heap option) option" where
  "handle_reload E P hs env pid cmd c =
     (case into_parts cmd of (action, i, expected, target, sender) \<Rightarrow>
      case current_version i (version_tracking c) of
        None \<Rightarrow> Some (ContinueLoop, acknowledge_reload sender pid i 0 0 (ReloadStatusFailed (NotRunningModule i)), c, None)
      | Some old \<Rightarrow>
          if old = target then Some (ContinueLoop, acknowledge_reload sender pid i old old AlreadyAtTarget, c, None)
          else if expected \<noteq> None \<and> expected \<noteq> Some old
          then Some (ContinueLoop, acknowledge_reload sender pid i old old (ReloadStatusFailed (VersionConflict expected old)), c, None)
          else
            let c1 = c\<lparr>reload_in_progress := True\<rparr> in
            case perform_pending_reload E P (at_validate hs) env i old target (ctx_instance c1) of
              (Inl e, slot) \<Rightarrow>
                Some (ContinueLoop, acknowledge_reload sender pid i old old (ReloadStatusFailed (ReloadFailed e)),
                  c1\<lparr>ctx_instance := slot, reload_in_progress := False\<rparr>, None)
            | (Inr _, slot) \<Rightarrow>
                let c2 = c1\<lparr>ctx_instance := slot\<rparr> in
                (case transition_current_version i old target (version_tracking c2) (at_account hs) of
                   Inr (t, H) \<Rightarrow>
                     Some (ContinueLoop, acknowledge_reload sender pid i old target Applied,
                       c2\<lparr>version_tracking := t, reload_in_progress := False\<rparr>, Some H)
                 | Inl accounting_error \<Rightarrow>
                     (case perform_pending_reload E P (at_revert hs) env i target old (ctx_instance c2) of
                        (Inr _, slot') \<Rightarrow>
                          Some (ContinueLoop, acknowledge_reload sender pid i old old (ReloadStatusFailed (AccountingReverted accounting_error)),
                            c2\<lparr>ctx_instance := slot', reload_in_progress := False\<rparr>, None)
                      | (Inl revert_error, slot') \<Rightarrow>
                          map_option (\<lambda>inst. (case into_execution_result (Inl (CallFailed ''Version accounting failed and instance rollback failed'')) inst of
                              (s, r) \<Rightarrow> FinishProcess s r,
                              acknowledge_reload sender pid i old target (ReloadStatusFailed (AccountingLost accounting_error revert_error)),
                              c2\<lparr>ctx_instance := None, reload_in_progress := False\<rparr>, None)) slot')))"

text \<open>One iteration of \<open>run_wasm_execution\<close>; \<open>None\<close> is a failing \<open>expect\<close>.\<close>

definition exec_step ::
  "('v wasm_module, 's) wasm_engine \<Rightarrow> ('v code, 's) state_ops \<Rightarrow> 'v await_heaps \<Rightarrow> registry_ref \<Rightarrow> exec_event \<Rightarrow>
     's process_context \<Rightarrow> ('s exec_outcome \<times> reload_acknowledgement option \<times> 's process_context \<times> 'v registry_heap option) option" where
  "exec_step E P hs env ev c =
     (case ctx_instance c of
        None \<Rightarrow> None
      | Some inst \<Rightarrow>
          (case ev of
             CallFinished r \<Rightarrow> (case into_execution_result r inst of
                (s, v) \<Rightarrow> Some (FinishProcess s v, None, c\<lparr>ctx_instance := None\<rparr>, None))
           | ReloadDriverClosed \<Rightarrow>
               (case into_execution_result (Inl (CallFailed ''Wasm reload execution driver closed unexpectedly'')) inst of
                  (s, v) \<Rightarrow> Some (FinishProcess s v, None, c\<lparr>ctx_instance := None\<rparr>, None))
           | ReloadRequested cmd \<Rightarrow> handle_reload E P hs env (st_id P (inst_state inst)) cmd c))"



section \<open>What the validation guarantees\<close>

lemma same_val_types_eq [simp]: "same_val_types old new \<longleftrightarrow> old = new"
  by (auto simp: same_val_types_def list_all_iff list_eq_iff_zip_eq)

lemma find_name_map_of: "find (\<lambda>(n, _). n = name) xs = map_option (Pair name) (map_of xs name)"
  by (induction xs) auto

text \<open>The exports a replacement must offer for an export of the running module.\<close>

fun offers :: "'v extern_type \<Rightarrow> 'v extern_type \<Rightarrow> bool" where
  "offers (ExternFunc p r) new = (new = ExternFunc p r)"
| "offers (ExternMemory m) new = (\<exists>m'. new = ExternMemory m' \<and> m \<le> m')"
| "offers (ExternGlobal g) new = (\<exists>g'. new = ExternGlobal g')"
| "offers ExternTable new = (new = ExternTable)"
| "offers ExternTag new = False"

lemma validate_export_types_ok: "validate_export_types name old new = Inr () \<longleftrightarrow> offers old new"
  by (cases old; cases new) (auto simp: validate_func_types_def validate_memory_types_def)

lemma validate_exports_Nil:
  "validate_exports old new = [] \<longleftrightarrow> (\<forall>(name, ty) \<in> set old. \<exists>ty'. map_of new name = Some ty' \<and> offers ty ty')"
proof (induction old)
  case (Cons e old)
  obtain name ty where e: "e = (name, ty)" by (cases e)
  have "(case validate_export_types name ty ty' of Inl e \<Rightarrow> [e] | Inr _ \<Rightarrow> []) = [] \<longleftrightarrow> offers ty ty'" for ty'
    using validate_export_types_ok[of name ty ty'] by (cases "validate_export_types name ty ty'") auto
  then show ?case using Cons e by (auto simp: find_name_map_of split: option.splits)
qed simp


definition sample_module :: "u64 \<Rightarrow> nat code" where
  "sample_module pages = \<lparr>cm_source = raw_wasm_from [0], cm_code = \<lparr>wm_exports = [(''run'', ExternFunc [1] [2]), (''memory'', ExternMemory pages)],
     wm_imports = []\<rparr>, cm_reservation = None\<rparr>"


text \<open>A module that exports an exception tag cannot even be reloaded with itself, under either check.\<close>

lemma tag_export_never_reloadable:
  assumes "(name, ExternTag) \<in> set (wm_exports (cm_code m))"
  shows "validate_compatibility m m' \<noteq> []"
  using assms unfolding validate_compatibility_def validate_exports_Nil by fastforce

section \<open>The swap is all or nothing\<close>


lemma replace_instance_error:
  assumes "process_state P" "replace_instance E P m old = (Inl e, old')"
  shows "old' = old"
  using assms(2) process_state.transfer_error[OF assms(1)]
  by (fastforce simp: replace_instance_def split: sum.splits prod.splits)

lemma replace_instance_new:
  assumes "wasm_memory E" "replace_instance E P m old = (Inr new, old')" "\<forall>mem. inst_memory old = Some mem \<longrightarrow> length mem < 2 ^ 64"
  shows "inst_fuel new = inst_fuel old \<and> (\<exists>mem rest. inst_memory old = Some mem \<and> inst_memory new = Some (mem @ rest))"
proof -
  obtain snap fuel s i j k where steps: "snapshot_memory old = Inr snap" "get_fuel E old = Inr fuel"
    "instantiate E P m s = Inr i" "restore_memory E snap i = Inr j" "set_fuel E fuel j = Inr k"
    and new: "inst_fuel new = inst_fuel k" "inst_memory new = inst_memory k"
    using assms(2) by (fastforce simp: replace_instance_def result_simps split: sum.splits prod.splits)
  obtain mem where mem: "inst_memory old = Some mem" "snap_memory snap = mem" using steps(1) by (auto simp: snapshot_memory_def result_simps)
  obtain mem' where mem': "inst_memory i = Some mem'" using steps(4) by (auto simp: restore_memory_def result_simps)
  have "\<exists>rest. inst_memory j = Some (mem @ rest)"
    using wasm_memory.restore_memory_result[OF assms(1) _ mem', of snap] mem assms(3) steps(4) by auto
  moreover have "inst_fuel k = inst_fuel old" "inst_memory k = inst_memory j"
    using steps(2,5) by (auto simp: set_fuel_def get_fuel_def result_simps)
  ultimately show ?thesis using new mem by auto
qed

text \<open>
  C31.  Swapping the code of a running process is all or nothing.  If any step fails (the target is
  missing or incompatible, the engine refuses, memory cannot be restored, resources cannot be
  transferred) the process keeps exactly the instance it had.  If it succeeds the new instance starts
  with the whole memory of the old one and not more fuel than the old one had left.
\<close>

theorem pending_reload_atomic:
  assumes "wasm_memory E" "process_state P" "perform_pending_reload E P H env i old new (Some inst) = (res, slot)"
    "\<forall>mem. inst_memory inst = Some mem \<longrightarrow> length mem < 2 ^ 64"
  shows "(case res of
      Inl e \<Rightarrow> slot = Some inst
    | Inr _ \<Rightarrow> \<exists>inst' mem rest. slot = Some inst' \<and> inst_fuel inst' = inst_fuel inst \<and>
        inst_memory inst = Some mem \<and> inst_memory inst' = Some (mem @ rest))"
proof (cases "validate_reload_target H env i old new")
  case (Inl e)
  then show ?thesis using assms(3) by (auto simp: perform_pending_reload_def)
next
  case (Inr m)
  obtain r old' where rep: "replace_instance E P m inst = (r, old')" by (cases "replace_instance E P m inst")
  show ?thesis
  proof (cases r)
    case (Inl e)
    then show ?thesis using Inr assms(3) rep replace_instance_error[OF assms(2)] by (auto simp: perform_pending_reload_def)
  next
    case new: (Inr inst')
    then have "slot = Some inst' \<and> res = Inr ()" using Inr assms(3) rep by (auto simp: perform_pending_reload_def)
    then show ?thesis using replace_instance_new[OF assms(1) _ assms(4)] rep new by auto
  qed
qed


definition two_versions :: "nat code module_registry" where
  "two_versions = (case add_version 7 (sample_module 1) (with_max_versions 2) of
     Inr (_, r) \<Rightarrow> (case add_version 7 (sample_module 2) r of Inr (_, r') \<Rightarrow> r'))"

definition running_instance :: "u64 wasm_instance" where
  "running_instance = \<lparr>inst_state = 4, inst_memory = Some [5], inst_fuel = 9\<rparr>"

lemmas two_versions_eval = two_versions_def add_version_def with_max_versions_def module_version_new_def hm_insert_def
  checked_succ_def ok_or_def Let_def

theorem pending_reload_atomic_witness:
  "\<exists>inst. perform_pending_reload (sample_engine (\<lambda>_. [0, 0]) 10) sample_state [(0, two_versions)] (RegistryAt 0) 7 0 1 (Some running_instance) = (Inr (), Some inst) \<and>
     inst_fuel inst = 9 \<and> (\<exists>rest. inst_memory inst = Some (5 # rest))"
proof -
  let ?r = "perform_pending_reload (sample_engine (\<lambda>_. [0, 0]) 10) sample_state [(0, two_versions)] (RegistryAt 0) 7 0 1 (Some running_instance)"
  have ok: "fst ?r = Inr ()"
    by (simp add: perform_pending_reload_def validate_reload_target_def get_version_def find_version_def two_versions_eval
        validate_compatibility_def sample_module_def replace_instance_def snapshot_memory_def get_fuel_def sample_engine_def
        sample_state_def instantiate_def restore_memory_def set_fuel_def running_instance_def ensure_def
        find_name_map_of validate_func_types_def validate_memory_types_def)
  have mem: "\<forall>mem. inst_memory running_instance = Some mem \<longrightarrow> length mem < 2 ^ 64" by (simp add: running_instance_def)
  from pending_reload_atomic[OF sample_engine.wasm_memory_axioms sample_state.process_state_axioms prod.collapse[symmetric] mem,
      of "\<lambda>_. [0, 0]" 10 "[(0, two_versions)]" "RegistryAt 0" 7 0 1] ok
  show ?thesis by (auto simp: running_instance_def prod_eq_iff)
qed


section \<open>Tracked and registered versions agree\<close>

text \<open>
  All processes of a node with their tracking, and the registries they share.  A process operation goes
  through its tracking; versions are added and committed by the reload coordinator.
\<close>

record 'v version_world =
  vw_heap :: "'v registry_heap"
  vw_tracking :: "(process_key, version_tracking) hmap"

datatype 'v version_op =
  TrackVersion process_key nat u64 u32
| TransitionVersion process_key u64 u32 u32
| ExitProcess process_key
| UpdateRegistry nat "'v code module_registry_op"

definition tracking_of :: "process_key \<Rightarrow> 'v version_world \<Rightarrow> version_tracking" where
  "tracking_of p w = (case hm_get (vw_tracking w) p of None \<Rightarrow> tracking_default | Some t \<Rightarrow> t)"

definition set_tracking :: "process_key \<Rightarrow> version_tracking \<times> 'v registry_heap \<Rightarrow> 'v version_world \<Rightarrow> 'v version_world" where
  "set_tracking p = (\<lambda>(t, H) w. w\<lparr>vw_tracking := hm_insert p t (vw_tracking w), vw_heap := H\<rparr>)"

fun coordinator_op :: "'m module_registry_op \<Rightarrow> bool" where
  "coordinator_op (AddVersion i m) = True"
| "coordinator_op (MarkCommitted i n) = True"
| "coordinator_op (AddDependency d m) = True"
| "coordinator_op _ = False"

fun version_step :: "'v version_op \<Rightarrow> 'v version_world \<Rightarrow> reload_error list \<times> 'v version_world" where
  "version_step (TrackVersion p a i n) w =
     (case track_initial_version a i n p (tracking_of p w) (vw_heap w) of
        Inl e \<Rightarrow> ([e], w) | Inr th \<Rightarrow> ([], set_tracking p th w))"
| "version_step (TransitionVersion p i old new) w =
     (case transition_current_version i old new (tracking_of p w) (vw_heap w) of
        Inl e \<Rightarrow> ([e], w) | Inr th \<Rightarrow> ([], set_tracking p th w))"
| "version_step (ExitProcess p) w =
     (case unregister_all (tracking_of p w) (vw_heap w) of (errs, t, H) \<Rightarrow> (errs, set_tracking p (t, H) w))"
| "version_step (UpdateRegistry a op) w =
     (case on_registry a (registry_step op) (vw_heap w) of Inl e \<Rightarrow> ([e], w) | Inr H \<Rightarrow> ([], w\<lparr>vw_heap := H\<rparr>))"

fun version_enabled :: "'v version_op \<Rightarrow> bool" where
  "version_enabled (UpdateRegistry a op) = coordinator_op op"
| "version_enabled _ = True"

definition tracked :: "'v version_world \<Rightarrow> nat \<Rightarrow> u64 \<times> process_key \<Rightarrow> u32 option" where
  "tracked w a = (\<lambda>(i, p). if tr_registry (tracking_of p w) = Some a then hm_get (tr_versions (tracking_of p w)) i else None)"

definition tracking_ok :: "'v registry_heap \<Rightarrow> process_key \<Rightarrow> version_tracking \<Rightarrow> bool" where
  "tracking_ok H p t \<longleftrightarrow> hm_wf (tr_versions t) \<and>
     (case tr_registry t of None \<Rightarrow> t = tracking_default | Some a \<Rightarrow> tr_process t = Some p \<and> hm_get H a \<noteq> None)"

definition versions_agree :: "'v version_world \<Rightarrow> bool" where
  "versions_agree w \<longleftrightarrow> (\<forall>p. tracking_ok (vw_heap w) p (tracking_of p w)) \<and>
     (\<forall>a r. hm_get (vw_heap w) a = Some r \<longrightarrow> registry_inv r \<and> assigned r = tracked w a)"

lemma tracking_of_set [simp]:
  "tracking_of q (set_tracking p (t, H) w) = (if q = p then t else tracking_of q w)"
  by (simp add: tracking_of_def set_tracking_def hm_get_insert)

lemma heap_set_tracking [simp]: "vw_heap (set_tracking p (t, H) w) = H"
  by (simp add: set_tracking_def)

lemma tracking_ok_default [simp]: "tracking_ok H p tracking_default"
  by (simp add: tracking_ok_def tracking_default_def)

lemma tracking_ok_mono: "tracking_ok H p t \<Longrightarrow> (\<And>a. hm_get H a \<noteq> None \<Longrightarrow> hm_get H' a \<noteq> None) \<Longrightarrow> tracking_ok H' p t"
  by (auto simp: tracking_ok_def split: option.splits)

text \<open>Replacing the registry at one address together with the tracking of one process.\<close>

lemma versions_agree_set:
  assumes w: "versions_agree w" and r: "hm_get (vw_heap w) a = Some r" "registry_inv r'"
    and t: "tr_registry t = Some a" "tr_process t = Some p" "hm_wf (tr_versions t)"
    and old: "tr_registry (tracking_of p w) \<in> {None, Some a}"
    and asg: "assigned r' = (\<lambda>(i, q). if q = p then hm_get (tr_versions t) i else assigned r (i, q))"
  shows "versions_agree (set_tracking p (t, hm_insert a r' (vw_heap w)) w)"
proof -
  let ?w = "set_tracking p (t, hm_insert a r' (vw_heap w)) w"
  have "tracking_ok (vw_heap ?w) q (tracking_of q ?w)" for q
  proof (cases "q = p")
    case True
    then show ?thesis using t by (simp add: tracking_ok_def hm_get_insert)
  next
    case False
    then show ?thesis
      using w tracking_ok_mono[of "vw_heap w" q "tracking_of q w" "hm_insert a r' (vw_heap w)"]
      by (simp add: versions_agree_def hm_get_insert)
  qed
  moreover have "registry_inv s \<and> assigned s = tracked ?w b" if "hm_get (vw_heap ?w) b = Some s" for b s
  proof (cases "b = a")
    case True
    have "assigned r = tracked w a" using w r by (simp add: versions_agree_def)
    then have "assigned r' = tracked ?w a" using asg t(1) by (auto simp: tracked_def fun_eq_iff)
    then show ?thesis using True that r(2) by (simp add: hm_get_insert)
  next
    case False
    then have s: "registry_inv s" "assigned s = tracked w b" using that w by (auto simp: versions_agree_def hm_get_insert)
    have "tracked ?w b = tracked w b" using False old t(1) by (auto simp: tracked_def fun_eq_iff)
    then show ?thesis using s by simp
  qed
  ultimately show ?thesis by (simp add: versions_agree_def)
qed

lemma on_registry_Inr: "on_registry a f H = Inr H' \<longleftrightarrow> (\<exists>r r'. hm_get H a = Some r \<and> f r = Inr r' \<and> H' = hm_insert a r' H)"
  by (cases "hm_get H a"; cases "f (the (hm_get H a))") (auto simp: on_registry_def ok_or_def)

lemma agree_registry:
  "versions_agree w \<Longrightarrow> hm_get (vw_heap w) a = Some r \<Longrightarrow> registry_inv r \<and> assigned r = tracked w a"
  by (simp add: versions_agree_def)

lemma agree_tracking: "versions_agree w \<Longrightarrow> tracking_ok (vw_heap w) p (tracking_of p w)"
  by (simp add: versions_agree_def)

lemma track_version_agrees:
  assumes w: "versions_agree w" and res: "track_initial_version a i n p (tracking_of p w) (vw_heap w) = Inr th"
  shows "versions_agree (set_tracking p th w)"
proof -
  let ?t = "tracking_of p w"
  obtain r r' where r: "hm_get (vw_heap w) a = Some r" "register_process i n p r = Inr r'"
    and fresh: "hm_get (tr_versions ?t) i = None" and reg: "tr_registry ?t \<in> {None, Some a}"
    and th: "th = (?t\<lparr>tr_registry := Some a, tr_process := Some p, tr_versions := hm_insert i n (tr_versions ?t)\<rparr>, hm_insert a r' (vw_heap w))"
    using res by (auto simp: track_initial_version_def result_simps on_registry_Inr split: option.splits)
  have inv: "registry_inv r" "assigned r = tracked w a" using agree_registry[OF w r(1)] by auto
  have spec: "registry_inv r'" "assigned r' = (assigned r)((i, p) \<mapsto> n)" using register_process_spec[OF inv(1) r(2)] by auto
  have none: "tr_versions ?t = []" if "tr_registry ?t = None"
    using agree_tracking[OF w, of p] that by (auto simp: tracking_ok_def tracking_default_def)
  have "assigned r' = (\<lambda>(j, q). if q = p then hm_get (hm_insert i n (tr_versions ?t)) j else assigned r (j, q))"
    using spec(2) inv(2) reg none by (auto simp: tracked_def fun_eq_iff hm_get_insert)
  moreover have "hm_wf (tr_versions ?t)" using agree_tracking[OF w, of p] by (simp add: tracking_ok_def)
  ultimately show ?thesis
    unfolding th by (intro versions_agree_set[OF w r(1) spec(1)]) (use reg in auto)
qed

lemma transition_version_agrees:
  assumes w: "versions_agree w" and res: "transition_current_version i old new (tracking_of p w) (vw_heap w) = Inr th"
  shows "versions_agree (set_tracking p th w)"
proof -
  let ?t = "tracking_of p w"
  obtain a r r' q where r: "hm_get (vw_heap w) a = Some r" "transition_process i old new q r = Inr r'"
    and reg: "tr_registry ?t = Some a" "tr_process ?t = Some q"
    and th: "th = (?t\<lparr>tr_versions := hm_insert i new (tr_versions ?t)\<rparr>, hm_insert a r' (vw_heap w))"
    using res by (auto simp: transition_current_version_def result_simps on_registry_Inr)
  have q: "q = p" and wf: "hm_wf (tr_versions ?t)" using agree_tracking[OF w, of p] reg by (auto simp: tracking_ok_def)
  have inv: "registry_inv r" "assigned r = tracked w a" using agree_registry[OF w r(1)] by auto
  have spec: "registry_inv r'" "assigned r' = (assigned r)((i, p) \<mapsto> new)" using transition_process_spec[OF inv(1) r(2)] q by auto
  have "assigned r' = (\<lambda>(j, q). if q = p then hm_get (hm_insert i new (tr_versions ?t)) j else assigned r (j, q))"
    using spec(2) inv(2) reg by (auto simp: tracked_def fun_eq_iff hm_get_insert)
  then show ?thesis
    unfolding th by (intro versions_agree_set[OF w r(1) spec(1)]) (use reg q wf in auto)
qed


lemma unregister_versions_spec:
  assumes "hm_get H a = Some r" "registry_inv r" "distinct (map fst vs)" "\<forall>(i, n) \<in> set vs. assigned r (i, p) = Some n"
  shows "\<exists>r'. unregister_versions a p vs H = ([], if vs = [] then H else hm_insert a r' H) \<and> registry_inv r' \<and> (vs = [] \<longrightarrow> r' = r) \<and>
    assigned r' = (\<lambda>(j, q). if q = p \<and> j \<in> fst ` set vs then None else assigned r (j, q))"
  using assms
proof (induction vs arbitrary: H r)
  case (Cons e vs)
  obtain i n where e: "e = (i, n)" by (cases e)
  obtain r1 where r1: "unregister_module_process i n p r = Inr r1"
    using unregister_module_process_ok[OF Cons.prems(2), of i n p] Cons.prems(4) e by auto
  have spec: "registry_inv r1" "assigned r1 = (assigned r)((i, p) := None)" using unregister_module_process_spec[OF Cons.prems(2) r1] by auto
  have step: "on_registry a (unregister_module_process i n p) H = Inr (hm_insert a r1 H)" using r1 Cons.prems(1) by (simp add: on_registry_Inr)
  have rest: "\<forall>(j, k) \<in> set vs. assigned r1 (j, p) = Some k"
    using Cons.prems(3,4) e spec(2) by (force simp: image_iff)
  obtain r' where r': "unregister_versions a p vs (hm_insert a r1 H) = ([], if vs = [] then hm_insert a r1 H else hm_insert a r' (hm_insert a r1 H))"
    "registry_inv r'" "vs = [] \<longrightarrow> r' = r1"
    "assigned r' = (\<lambda>(j, q). if q = p \<and> j \<in> fst ` set vs then None else assigned r1 (j, q))"
    using Cons.IH[of "hm_insert a r1 H" r1] spec(1) rest Cons.prems(3) by (auto simp: hm_get_insert)
  have "assigned r' = (\<lambda>(j, q). if q = p \<and> j \<in> fst ` set (e # vs) then None else assigned r (j, q))"
    using r'(4) spec(2) e by (auto simp: fun_eq_iff)
  then show ?case using r' step e by (intro exI[of _ r']) auto
qed (auto simp: fun_eq_iff)

lemma unregister_all_spec:
  assumes w: "versions_agree w"
  shows "\<exists>H. unregister_all (tracking_of p w) (vw_heap w) = ([], tracking_default, H) \<and> versions_agree (set_tracking p (tracking_default, H) w)"
proof (cases "tr_registry (tracking_of p w)")
  case None
  then have t: "tracking_of p w = tracking_default" using agree_tracking[OF w, of p] by (simp add: tracking_ok_def)
  have "tracked (set_tracking p (tracking_default, vw_heap w) w) a = tracked w a" for a
    using t by (auto simp: tracked_def fun_eq_iff tracking_default_def)
  then have "versions_agree (set_tracking p (tracking_default, vw_heap w) w)"
    using w t by (auto simp: versions_agree_def)
  then show ?thesis using t by (simp add: unregister_all_def take_registrations_def tracking_default_def)
next
  case (Some a)
  let ?t = "tracking_of p w"
  have tp: "tr_process ?t = Some p" "hm_wf (tr_versions ?t)" "hm_get (vw_heap w) a \<noteq> None"
    using agree_tracking[OF w, of p] Some by (auto simp: tracking_ok_def)
  then obtain r where r: "hm_get (vw_heap w) a = Some r" by blast
  have inv: "registry_inv r" "assigned r = tracked w a" using agree_registry[OF w r] by auto
  have asg: "assigned r (i, p) = hm_get (tr_versions ?t) i" for i using inv(2) Some by (simp add: tracked_def)
  have "\<forall>(i, n) \<in> set (tr_versions ?t). assigned r (i, p) = Some n" using asg tp(2) by (auto simp: hm_wf_def)
  then obtain r' where r': "unregister_versions a p (tr_versions ?t) (vw_heap w) =
      ([], if tr_versions ?t = [] then vw_heap w else hm_insert a r' (vw_heap w))" "registry_inv r'" "tr_versions ?t = [] \<longrightarrow> r' = r"
    "assigned r' = (\<lambda>(j, q). if q = p \<and> j \<in> fst ` set (tr_versions ?t) then None else assigned r (j, q))"
    using unregister_versions_spec[OF r inv(1), of "tr_versions ?t" p] tp(2) by (auto simp: hm_wf_def)
  let ?H = "if tr_versions ?t = [] then vw_heap w else hm_insert a r' (vw_heap w)"
  have get: "hm_get ?H b = (if b = a then Some r' else hm_get (vw_heap w) b)" for b
    using r r'(3) by (auto simp: hm_get_insert)
  have none: "assigned r' (i, p) = None" for i
    using r'(4) asg[of i] by (auto simp: map_of_eq_None_iff)
  have other: "assigned r' (i, q) = assigned r (i, q)" if "q \<noteq> p" for q i
    using r'(4) that by simp
  have "versions_agree (set_tracking p (tracking_default, ?H) w)"
    unfolding versions_agree_def
  proof (intro conjI allI impI)
    fix q show "tracking_ok (vw_heap (set_tracking p (tracking_default, ?H) w)) q (tracking_of q (set_tracking p (tracking_default, ?H) w))"
      using agree_tracking[OF w, of q] tracking_ok_mono[of "vw_heap w" q "tracking_of q w" ?H] get
      by auto
  next
    fix b s assume b: "hm_get (vw_heap (set_tracking p (tracking_default, ?H) w)) b = Some s"
    show "registry_inv s" using b get[of b] r'(2) agree_registry[OF w, of b s] by (auto split: if_splits)
    show "assigned s = tracked (set_tracking p (tracking_default, ?H) w) b"
    proof (cases "b = a")
      case True
      then have "s = r'" using b get[of b] by simp
      moreover have "assigned r' (i, q) = tracked (set_tracking p (tracking_default, ?H) w) a (i, q)" for i q
        using none[of i] other[of q i] inv(2) by (cases "q = p") (simp_all add: tracked_def tracking_default_def)
      ultimately show ?thesis using True by (auto simp: fun_eq_iff)
    next
      case False
      then have "assigned s = tracked w b" using b get[of b] agree_registry[OF w, of b s] by simp
      then show ?thesis using False Some by (auto simp: tracked_def fun_eq_iff tracking_default_def)
    qed
  qed
  then show ?thesis using Some tp(1) r'(1) by (auto simp: unregister_all_def take_registrations_def)
qed


lemma update_registry_agrees:
  assumes w: "versions_agree w" and op: "coordinator_op op" and res: "on_registry a (registry_step op) (vw_heap w) = Inr H"
  shows "versions_agree (w\<lparr>vw_heap := H\<rparr>)"
proof -
  obtain r r' where r: "hm_get (vw_heap w) a = Some r" "registry_step op r = Inr r'" "H = hm_insert a r' (vw_heap w)"
    using res by (auto simp: on_registry_Inr)
  have inv: "registry_inv r" "assigned r = tracked w a" using agree_registry[OF w r(1)] by auto
  have spec: "registry_inv r'" "assigned r' = assigned r" using registry_step_spec[OF inv(1) r(2)] op by (cases op; simp)+
  have same: "tracking_of p (w\<lparr>vw_heap := H\<rparr>) = tracking_of p w" "tracked (w\<lparr>vw_heap := H\<rparr>) = tracked w" for p
    by (simp_all add: tracking_of_def tracked_def fun_eq_iff)
  show ?thesis
    unfolding versions_agree_def same
  proof (intro conjI allI impI)
    fix p show "tracking_ok (vw_heap (w\<lparr>vw_heap := H\<rparr>)) p (tracking_of p w)"
      using tracking_ok_mono[of "vw_heap w" p "tracking_of p w" H] agree_tracking[OF w, of p] r(3) by (simp add: hm_get_insert)
  next
    fix b s assume "hm_get (vw_heap (w\<lparr>vw_heap := H\<rparr>)) b = Some s"
    then show "registry_inv s" "assigned s = tracked w b"
      using r(3) spec inv agree_registry[OF w, of b s] by (auto simp: hm_get_insert split: if_splits)
  qed
qed

lemma version_step_agrees:
  assumes "versions_agree w" "version_enabled op"
  shows "versions_agree (snd (version_step op w))"
proof (cases op)
  case (TrackVersion p a i n)
  then show ?thesis using assms track_version_agrees[OF assms(1), of a i n p] by (auto split: sum.splits)
next
  case (TransitionVersion p i old new)
  then show ?thesis using assms transition_version_agrees[OF assms(1), of i old new p] by (auto split: sum.splits)
next
  case (ExitProcess p)
  then show ?thesis using unregister_all_spec[OF assms(1), of p] by auto
next
  case (UpdateRegistry a rop)
  then show ?thesis using assms update_registry_agrees[OF assms(1), of rop a] by (auto split: sum.splits)
qed

definition version_start :: "'v version_world \<Rightarrow> bool" where
  "version_start w \<longleftrightarrow> vw_tracking w = [] \<and> (\<forall>a r. hm_get (vw_heap w) a = Some r \<longrightarrow> (\<exists>k. r = with_max_versions k))"

lemma version_start_agrees: "version_start w \<Longrightarrow> versions_agree w"
proof -
  assume s: "version_start w"
  have t: "tracking_of p w = tracking_default" for p using s by (simp add: version_start_def tracking_of_def)
  have empty: "assigned (with_max_versions k :: 'a code module_registry) = tracked w a" for k a
    using t by (auto simp: assigned_def with_max_versions_def tracked_def tracking_default_def fun_eq_iff)
  have "registry_inv r \<and> assigned r = tracked w a" if get: "hm_get (vw_heap w) a = Some r" for a r
  proof -
    obtain k where "r = with_max_versions k" using s get unfolding version_start_def by blast
    then show ?thesis using with_max_versions_inv empty by blast
  qed
  then show ?thesis using t by (simp add: versions_agree_def)
qed

interpretation versions: inductive_invariant version_start
  "\<lambda>w w'. \<exists>op. version_enabled op \<and> snd (version_step op w) = w'" versions_agree
  by unfold_locales (auto simp: version_start_agrees version_step_agrees)

text \<open>
  C32.  Processes and registries never disagree about versions.  However processes start, are moved
  between versions and exit, and modules are updated: in every registry a process is recorded on exactly
  the version its own tracking holds; the exit of a process unregisters everything without an error; and
  recording a move fails only if the version was not the tracked one or the target is not registered.
\<close>

theorem tracked_versions_match_registry:
  assumes "reachable version_start (\<lambda>w w'. \<exists>op. version_enabled op \<and> snd (version_step op w) = w') w"
    "hm_get (vw_heap w) a = Some r"
  shows "(tr_registry (tracking_of p w) = Some a \<longrightarrow> assigned r (i, p) = current_version i (tracking_of p w)) \<and>
    (tr_registry (tracking_of p w) \<noteq> Some a \<longrightarrow> assigned r (i, p) = None) \<and>
    fst (version_step (ExitProcess p) w) = [] \<and>
    (tr_registry (tracking_of p w) = Some a \<longrightarrow>
      (fst (version_step (TransitionVersion p i old new) w) = [] \<longleftrightarrow>
        current_version i (tracking_of p w) = Some old \<and> get_version i new r \<noteq> None))"
proof -
  have w: "versions_agree w" using versions.reachable_inv[OF assms(1)] .
  have inv: "registry_inv r" "assigned r = tracked w a" using agree_registry[OF w assms(2)] by auto
  have exit: "fst (version_step (ExitProcess p) w) = []" using unregister_all_spec[OF w, of p] by auto
  have "fst (version_step (TransitionVersion p i old new) w) = [] \<longleftrightarrow>
      current_version i (tracking_of p w) = Some old \<and> get_version i new r \<noteq> None" if reg: "tr_registry (tracking_of p w) = Some a"
  proof -
    have proc: "tr_process (tracking_of p w) = Some p" using agree_tracking[OF w, of p] reg by (auto simp: tracking_ok_def)
    have asg: "assigned r (i, p) = hm_get (tr_versions (tracking_of p w)) i" using inv(2) reg by (simp add: tracked_def)
    have "(\<exists>th. transition_current_version i old new (tracking_of p w) (vw_heap w) = Inr th) \<longleftrightarrow>
        hm_get (tr_versions (tracking_of p w)) i = Some old \<and> (\<exists>r'. transition_process i old new p r = Inr r')"
      using reg proc assms(2) by (auto simp: transition_current_version_def result_simps on_registry_Inr)
    then show ?thesis
      unfolding transition_process_ok[OF inv(1)] asg current_version_def
      by (cases "transition_current_version i old new (tracking_of p w) (vw_heap w)") auto
  qed
  then show ?thesis using inv(2) exit by (auto simp: tracked_def current_version_def)
qed


definition sample_world :: "nat version_world" where
  "sample_world = snd (version_step (TrackVersion (ProcessKey 1 2) 0 7 0)
     (snd (version_step (UpdateRegistry 0 (AddVersion 7 (sample_module 1))) \<lparr>vw_heap = [(0, with_max_versions 2)], vw_tracking = []\<rparr>)))"

theorem tracked_versions_match_registry_witness:
  "\<exists>r. hm_get (vw_heap sample_world) 0 = Some r \<and> assigned r (7, ProcessKey 1 2) = Some 0 \<and>
     fst (version_step (ExitProcess (ProcessKey 1 2)) sample_world) = []"
proof -
  let ?w0 = "\<lparr>vw_heap = [(0, with_max_versions 2)], vw_tracking = []\<rparr> :: nat version_world"
  have "version_start ?w0" by (auto simp: version_start_def split: if_splits)
  then have w: "reachable version_start (\<lambda>w w'. \<exists>op. version_enabled op \<and> snd (version_step op w) = w') sample_world"
    unfolding sample_world_def
    by (intro reach_step[OF reach_step[OF reach_start[of version_start ?w0]]] exI[of _ "TrackVersion (ProcessKey 1 2) 0 7 0"]
        exI[of _ "UpdateRegistry 0 (AddVersion 7 (sample_module 1))"] conjI refl) auto
  have cur: "tr_registry (tracking_of (ProcessKey 1 2) sample_world) = Some 0"
    "current_version 7 (tracking_of (ProcessKey 1 2) sample_world) = Some 0" "hm_get (vw_heap sample_world) 0 \<noteq> None"
    by (simp_all add: sample_world_def two_versions_eval on_registry_def tracking_of_def track_initial_version_def
        register_process_def find_version_def tracking_default_def set_tracking_def current_version_def ensure_def)
  then obtain r where r: "hm_get (vw_heap sample_world) 0 = Some r" by blast
  from tracked_versions_match_registry[OF w r, of "ProcessKey 1 2" 7] cur r show ?thesis by simp
qed

section \<open>The driver\<close>

lemma perform_pending_reload_slot: "perform_pending_reload E P H env i old new (Some inst) = (r, slot) \<Longrightarrow> \<exists>inst'. slot = Some inst'"
  by (auto simp: perform_pending_reload_def split: sum.splits prod.splits)

lemma perform_pending_reload_error:
  "process_state P \<Longrightarrow> perform_pending_reload E P H env i old new (Some inst) = (Inl e, slot) \<Longrightarrow> slot = Some inst"
  by (auto simp: perform_pending_reload_def split: sum.splits prod.splits dest: replace_instance_error)

lemma transition_current_version_after:
  "transition_current_version i old new t H = Inr (t', H') \<Longrightarrow> current_version i t' = Some new"
  by (auto simp: transition_current_version_def result_simps current_version_def hm_get_insert)

definition ack_truthful :: "u64 \<Rightarrow> u64 \<Rightarrow> u32 option \<Rightarrow> u32 \<Rightarrow> 's process_context \<Rightarrow> 's exec_outcome \<Rightarrow> 's process_context \<Rightarrow> reload_acknowledgement \<Rightarrow> bool" where
  "ack_truthful pid i expected target c out c' a \<longleftrightarrow> ack_process a = pid \<and> ack_module a = i \<and>
     (case ack_status a of
        Applied \<Rightarrow> out = ContinueLoop \<and> current_version i (version_tracking c) = Some (ack_previous a) \<and> expected \<in> {None, Some (ack_previous a)} \<and>
          current_version i (version_tracking c') = Some target \<and> ack_current a = target
      | AlreadyAtTarget \<Rightarrow> out = ContinueLoop \<and> c' = c \<and> current_version i (version_tracking c) = Some target \<and> ack_current a = target
      | ReloadStatusFailed f \<Rightarrow> version_tracking c' = version_tracking c \<and>
          (case f of
             NotRunningModule j \<Rightarrow> c' = c \<and> current_version i (version_tracking c) = None
           | AccountingLost _ _ \<Rightarrow> out \<noteq> ContinueLoop \<and> ack_current a = target
           | AccountingReverted _ \<Rightarrow> out = ContinueLoop \<and> current_version i (version_tracking c) = Some (ack_current a)
           | _ \<Rightarrow> out = ContinueLoop \<and> c' = c \<and> current_version i (version_tracking c) = Some (ack_current a)))"


text \<open>
  C33.  The execution driver reports the truth.  Handling a reload or rollback command never runs into
  one of its \<open>expect\<close>s and clears the in-progress flag; exactly a command with a sender is acknowledged;
  success is reported only if the process now tracks the target, or did before; a reported failure means
  that the tracked version is unchanged, the reported current version is the tracked one and, unless the
  code had to be swapped back, the instance is untouched.  Only when recording and swapping back both
  fail does the process end, reporting the version it was left with.
\<close>

theorem reload_driver_truthful:
  assumes "process_state P" "ctx_instance c = Some inst" "\<not> reload_in_progress c"
    "into_parts cmd = (action, i, expected, target, sender)"
  shows "\<exists>out ack c' h. exec_step E P hs env (ReloadRequested cmd) c = Some (out, ack, c', h) \<and>
    \<not> reload_in_progress c' \<and> (ack \<noteq> None \<longleftrightarrow> sender) \<and> (out = ContinueLoop \<longrightarrow> ctx_instance c' \<noteq> None) \<and>
    (\<forall>a. ack = Some a \<longrightarrow> ack_truthful (st_id P (inst_state inst)) i expected target c out c' a)"
proof (cases "current_version i (version_tracking c)")
  case None
  then show ?thesis
    using assms by (auto simp: exec_step_def handle_reload_def acknowledge_reload_def ack_truthful_def)
next
  case (Some old)
  show ?thesis
  proof (cases "old = target \<or> (expected \<noteq> None \<and> expected \<noteq> Some old)")
    case True
    then show ?thesis
      using assms Some by (auto simp: exec_step_def handle_reload_def acknowledge_reload_def ack_truthful_def)
  next
    case False
    obtain r slot where swap: "perform_pending_reload E P (at_validate hs) env i old target (Some inst) = (r, slot)"
      by (cases "perform_pending_reload E P (at_validate hs) env i old target (Some inst)")
    obtain inst' where slot: "slot = Some inst'" using perform_pending_reload_slot[OF swap] by blast
    show ?thesis
    proof (cases r)
      case (Inl e)
      then have "slot = Some inst" using perform_pending_reload_error[OF assms(1)] swap by simp
      then show ?thesis
        using assms Some False swap Inl by (auto simp: exec_step_def handle_reload_def acknowledge_reload_def ack_truthful_def)
    next
      case (Inr u)
      show ?thesis
      proof (cases "transition_current_version i old target (version_tracking c) (at_account hs)")
        case acc: (Inr th)
        then show ?thesis
          using assms Some False swap Inr slot transition_current_version_after[of i old target]
          by (cases th) (auto simp: exec_step_def handle_reload_def acknowledge_reload_def ack_truthful_def)
      next
        case acc: (Inl err)
        obtain r' slot' where undo: "perform_pending_reload E P (at_revert hs) env i target old (Some inst') = (r', slot')"
          by (cases "perform_pending_reload E P (at_revert hs) env i target old (Some inst')")
        obtain inst2 where "slot' = Some inst2" using perform_pending_reload_slot[OF undo] by blast
        then show ?thesis
          using assms Some False swap Inr slot acc undo
          by (cases r') (auto simp: exec_step_def handle_reload_def acknowledge_reload_def ack_truthful_def into_execution_result_def)
      qed
    qed
  qed
qed


definition sample_context :: "u64 process_context" where
  "sample_context = (process_context_new running_instance)\<lparr>version_tracking :=
     \<lparr>tr_registry = Some 0, tr_process = Some (ProcessKey 1 4), tr_versions = [(7, 0)]\<rparr>\<rparr>"

theorem reload_driver_truthful_witness:
  "\<exists>out a c' h. exec_step (sample_engine (\<lambda>_. [0, 0]) 10) sample_state
       \<lparr>at_validate = [(0, two_versions)], at_account = [(0, two_versions)], at_revert = [(0, two_versions)]\<rparr> (RegistryAt 0)
       (ReloadRequested (HotReloadCommand 7 (Some 0) 1 True)) sample_context = Some (out, Some a, c', h) \<and>
     \<not> reload_in_progress c' \<and> ack_truthful 4 7 (Some 0) 1 sample_context out c' a"
proof -
  have c: "ctx_instance sample_context = Some running_instance" "\<not> reload_in_progress sample_context"
    "into_parts (HotReloadCommand 7 (Some 0) 1 True) = (HotReload, 7, Some 0, 1, True)"
    by (simp_all add: sample_context_def process_context_new_def)
  have pid: "st_id sample_state (inst_state running_instance) = 4" by (simp add: sample_state_def running_instance_def)
  from reload_driver_truthful[OF sample_state.process_state_axioms c, of "sample_engine (\<lambda>_. [0, 0]) 10"
      "\<lparr>at_validate = [(0, two_versions)], at_account = [(0, two_versions)], at_revert = [(0, two_versions)]\<rparr>" "RegistryAt 0"]
  obtain out ack c' h where step: "exec_step (sample_engine (\<lambda>_. [0, 0]) 10) sample_state
       \<lparr>at_validate = [(0, two_versions)], at_account = [(0, two_versions)], at_revert = [(0, two_versions)]\<rparr> (RegistryAt 0)
       (ReloadRequested (HotReloadCommand 7 (Some 0) 1 True)) sample_context = Some (out, ack, c', h)"
    and post: "\<not> reload_in_progress c'" "ack \<noteq> None" "\<forall>a. ack = Some a \<longrightarrow> ack_truthful 4 7 (Some 0) 1 sample_context out c' a"
    unfolding pid by auto
  then show ?thesis by blast
qed

end
