(* ===== verification/Reload_Coordinator.thy ===== *)
theory Reload_Coordinator
  imports Process_Reload "HOL-Library.Multiset"
begin

text \<open>
  The coordinator of \<open>lunatic-process/src/hot_reload.rs\<close> and the update entry point of
  \<open>src/hot_reload/mod.rs\<close>: apply a version to all processes of a module, commit only when all of them
  acknowledged it, otherwise roll all of them back, and keep the module blocked when that fails too.
  Finding a process and sending it a signal is the parameter \<open>send\<close>; the acknowledgements that arrive
  before the deadline of a round, in their order, are the parameter \<open>observe\<close>; what other tasks do to the registry
  while a round is awaited is the parameter \<open>settle\<close>.
\<close>

section \<open>Operations and their status\<close>

datatype reload_phase = ReloadPhase | RollbackPhase

datatype reload_message =
  ReportedProcess reload_phase u64
| ReportedModule reload_phase u64
| ProcessFailed reload_failure
| ReportedVersion reload_phase u32 u32
| AckChannelClosed reload_phase
| AckTimedOut reload_phase

record process_reload_error =
  err_process :: u64
  err_message :: reload_message
  err_known_version :: "u32 option"

datatype reload_status =
  Applying
| RollingBack "process_reload_error list"
| Committed "reload_acknowledgement list"
| RolledBack "process_reload_error list" "reload_acknowledgement list"
| InDoubt "process_reload_error list" "process_reload_error list" "reload_acknowledgement list"

fun blocks_new_operation :: "reload_status \<Rightarrow> bool" where
  "blocks_new_operation Applying = True"
| "blocks_new_operation (RollingBack _) = True"
| "blocks_new_operation (InDoubt _ _ _) = True"
| "blocks_new_operation _ = False"

record reload_operation =
  affected_processes :: "u64 list"
  op_status :: reload_status

type_synonym coordinator = "(u64, reload_operation) hmap"

datatype coordinator_error =
  ReloadBlocked u64 reload_status
| NoOperation u64
| DidNotCommit u64 u32 "process_reload_error list"
| ReloadInDoubt u64 u32 "process_reload_error list" "process_reload_error list"
| CoordinatedFailed u64 coordinator_error
| UpdateBlocked u64
| NoCommittedVersion u64
| CompileFailed string
| UpdateRegistryError module_registry_error
| CommitFailed module_registry_error
| CompensationFailed module_registry_error coordinator_error

definition start_reload :: "u64 \<Rightarrow> u64 list \<Rightarrow> coordinator \<Rightarrow> coordinator_error + coordinator" where
  "start_reload i affected ops =
     (let targets = remdups_adj (sort affected);
          go = Inr (hm_insert i \<lparr>affected_processes = targets, op_status = Applying\<rparr> ops) in
      case hm_get ops i of
        Some op \<Rightarrow> if blocks_new_operation (op_status op) then Inl (ReloadBlocked i (op_status op)) else go
      | None \<Rightarrow> go)"

definition status :: "u64 \<Rightarrow> coordinator \<Rightarrow> reload_status option" where
  "status i ops = map_option op_status (hm_get ops i)"

definition is_reload_in_progress :: "u64 \<Rightarrow> coordinator \<Rightarrow> bool" where
  "is_reload_in_progress i ops = (case hm_get ops i of None \<Rightarrow> False | Some op \<Rightarrow> blocks_new_operation (op_status op))"

definition get_affected_processes :: "u64 \<Rightarrow> coordinator \<Rightarrow> u64 list option" where
  "get_affected_processes i ops = map_option affected_processes (hm_get ops i)"

definition set_status :: "u64 \<Rightarrow> reload_status \<Rightarrow> coordinator \<Rightarrow> coordinator_error + coordinator" where
  "set_status i s ops =
     and_then (ok_or (NoOperation i) (hm_get ops i)) (\<lambda>op. Inr (hm_insert i (op\<lparr>op_status := s\<rparr>) ops))"

section \<open>Dispatch and acknowledgements\<close>

datatype reload_signal = HotReloadSignal u64 "u32 option" u32 bool | RollbackSignal u64 "u32 option" u32 bool

text \<open>A target and whether the signal reached it; otherwise its acknowledgement channel is closed.\<close>

definition dispatch_hot_reload :: "(u64 \<Rightarrow> reload_signal \<Rightarrow> bool) \<Rightarrow> u64 \<Rightarrow> u64 \<Rightarrow> u32 \<Rightarrow> u32 \<Rightarrow> u64 \<times> bool" where
  "dispatch_hot_reload send pid i old new = (pid, send pid (HotReloadSignal i (Some old) new True))"

definition dispatch_rollback :: "(u64 \<Rightarrow> reload_signal \<Rightarrow> bool) \<Rightarrow> u64 \<Rightarrow> u64 \<Rightarrow> u32 \<Rightarrow> u32 \<Rightarrow> u64 \<times> bool" where
  "dispatch_rollback send pid i new old = (pid, send pid (RollbackSignal i (Some new) old True))"

definition send_hot_reload_signal :: "(u64 \<Rightarrow> reload_signal \<Rightarrow> bool) \<Rightarrow> u64 \<Rightarrow> u64 \<Rightarrow> u32 \<Rightarrow> bool" where
  "send_hot_reload_signal send pid i new = send pid (HotReloadSignal i None new False)"

definition send_rollback_signal :: "(u64 \<Rightarrow> reload_signal \<Rightarrow> bool) \<Rightarrow> u64 \<Rightarrow> u64 \<Rightarrow> u32 \<Rightarrow> bool" where
  "send_rollback_signal send pid i target = send pid (RollbackSignal i None target False)"

definition protocol_error :: "reload_phase \<Rightarrow> u64 \<Rightarrow> u64 \<Rightarrow> u32 \<Rightarrow> reload_acknowledgement \<Rightarrow> reload_message option" where
  "protocol_error phase pid i target a =
     (if ack_process a \<noteq> pid then Some (ReportedProcess phase (ack_process a))
      else if ack_module a \<noteq> i then Some (ReportedModule phase (ack_module a))
      else case ack_status a of
        ReloadStatusFailed f \<Rightarrow> Some (ProcessFailed f)
      | _ \<Rightarrow> if ack_current a \<noteq> target then Some (ReportedVersion phase (ack_current a) target) else None)"

text \<open>The result of one receiver: an acknowledgement or an error.\<close>

definition judge :: "reload_phase \<Rightarrow> u64 \<Rightarrow> u32 \<Rightarrow> u64 \<times> reload_acknowledgement option \<Rightarrow> process_reload_error + reload_acknowledgement" where
  "judge phase i target = (\<lambda>(pid, res).
     case res of
       None \<Rightarrow> Inl \<lparr>err_process = pid, err_message = AckChannelClosed phase, err_known_version = None\<rparr>
     | Some a \<Rightarrow> (case protocol_error phase pid i target a of
           Some msg \<Rightarrow> Inl \<lparr>err_process = pid, err_message = msg, err_known_version = Some (ack_current a)\<rparr>
         | None \<Rightarrow> Inr a))"

fun lefts :: "('a + 'b) list \<Rightarrow> 'a list" where
  "lefts [] = []"
| "lefts (Inl a # xs) = a # lefts xs"
| "lefts (Inr b # xs) = lefts xs"

fun rights :: "('a + 'b) list \<Rightarrow> 'b list" where
  "rights [] = []"
| "rights (Inl a # xs) = rights xs"
| "rights (Inr b # xs) = b # rights xs"

text \<open>
  \<open>collect_acknowledgements\<close>: the receivers that resolve before the deadline are judged in their order;
  every other one has timed out; both lists are sorted by process.
\<close>

definition collect_acknowledgements ::
  "(u64 \<times> bool) list \<Rightarrow> (u64 \<times> reload_acknowledgement option) list \<Rightarrow> u64 \<Rightarrow> u32 \<Rightarrow> reload_phase \<Rightarrow>
     reload_acknowledgement list \<times> process_reload_error list" where
  "collect_acknowledgements receivers arrivals i target phase =
     (let judged = map (judge phase i target) arrivals;
          pending = filter (\<lambda>p. p \<notin> set (map fst arrivals)) (remdups (map fst receivers)) in
      (sort_key ack_process (rights judged),
       sort_key err_process (lefts judged @
         map (\<lambda>p. \<lparr>err_process = p, err_message = AckTimedOut phase, err_known_version = None\<rparr>) pending)))"

section \<open>The atomic reload\<close>

type_synonym observer = "u64 \<Rightarrow> u32 \<Rightarrow> reload_phase \<Rightarrow> (u64 \<times> bool) list \<Rightarrow> (u64 \<times> reload_acknowledgement option) list"

definition perform_atomic_reload ::
  "(u64 \<Rightarrow> reload_signal \<Rightarrow> bool) \<Rightarrow> observer \<Rightarrow> u64 \<Rightarrow> u32 \<Rightarrow> u32 \<Rightarrow> u64 list \<Rightarrow> coordinator \<Rightarrow>
     (coordinator_error + unit) \<times> coordinator" where
  "perform_atomic_reload send observe i old new affected ops =
     (case start_reload i affected ops of
        Inl e \<Rightarrow> (Inl e, ops)
      | Inr ops1 \<Rightarrow>
      (case get_affected_processes i ops1 of
        None \<Rightarrow> (Inl (NoOperation i), ops1)
      | Some targets \<Rightarrow>
          let receivers = map (\<lambda>p. dispatch_hot_reload send p i old new) targets in
          (case collect_acknowledgements receivers (observe i new ReloadPhase receivers) i new ReloadPhase of
             (acks, []) \<Rightarrow>
               (case set_status i (Committed acks) ops1 of Inl e \<Rightarrow> (Inl e, ops1) | Inr ops2 \<Rightarrow> (Inr (), ops2))
           | (_, apply_errors) \<Rightarrow>
               (case set_status i (RollingBack apply_errors) ops1 of Inl e \<Rightarrow> (Inl e, ops1)
                | Inr ops2 \<Rightarrow>
                  let back_receivers = map (\<lambda>p. dispatch_rollback send p i new old) targets in
                  (case collect_acknowledgements back_receivers (observe i old RollbackPhase back_receivers) i old RollbackPhase of
                     (acks, []) \<Rightarrow>
                       (case set_status i (RolledBack apply_errors acks) ops2 of Inl e \<Rightarrow> (Inl e, ops2)
                        | Inr ops3 \<Rightarrow> (Inl (DidNotCommit i old apply_errors), ops3))
                   | (acks, rollback_errors) \<Rightarrow>
                       (case set_status i (InDoubt apply_errors rollback_errors acks) ops2 of Inl e \<Rightarrow> (Inl e, ops2)
                        | Inr ops3 \<Rightarrow> (Inl (ReloadInDoubt i old apply_errors rollback_errors), ops3)))))))"

section \<open>Reloads along the dependencies\<close>

fun coordinated_loop ::
  "(u64 \<Rightarrow> reload_signal \<Rightarrow> bool) \<Rightarrow> observer \<Rightarrow> (u64 \<Rightarrow> 'm module_registry \<Rightarrow> 'm module_registry) \<Rightarrow> u64 \<Rightarrow> u32 \<Rightarrow>
     (u64, u64 list) hmap \<Rightarrow> u64 list \<Rightarrow> 'm module_registry \<Rightarrow> coordinator \<Rightarrow>
     (coordinator_error + unit) \<times> 'm module_registry \<times> coordinator" where
  "coordinated_loop send observe settle module_id new procs [] r ops = (Inr (), r, ops)"
| "coordinated_loop send observe settle module_id new procs (mid # mids) r ops =
     (let old = get_committed_version_number mid r;
          affected = (case hm_get procs mid of None \<Rightarrow> [] | Some ps \<Rightarrow> ps);
          old_version = (case old of None \<Rightarrow> 0 | Some n \<Rightarrow> n) in
      if affected = [] then coordinated_loop send observe settle module_id new procs mids r ops
      else let version = (if mid = module_id then new else old_version) in
        (case perform_atomic_reload send observe mid old_version version affected ops of
           (Inl e, ops1) \<Rightarrow> (Inl (CoordinatedFailed mid e), settle mid r, ops1)
         | (Inr _, ops1) \<Rightarrow>
             (case mark_committed mid version (settle mid r) of
                Inl e \<Rightarrow> (Inl (UpdateRegistryError e), settle mid r, ops1)
              | Inr r1 \<Rightarrow> coordinated_loop send observe settle module_id new procs mids r1 ops1)))"

definition perform_coordinated_reload ::
  "(u64 \<Rightarrow> reload_signal \<Rightarrow> bool) \<Rightarrow> observer \<Rightarrow> (u64 \<Rightarrow> 'm module_registry \<Rightarrow> 'm module_registry) \<Rightarrow> u64 \<Rightarrow> u64 \<Rightarrow> u32 \<Rightarrow>
     'm module_registry \<Rightarrow> coordinator \<Rightarrow> ((coordinator_error + unit) \<times> 'm module_registry \<times> coordinator) option" where
  "perform_coordinated_reload send observe settle env module_id new r ops =
     map_option (\<lambda>order.
       let procs = fold (\<lambda>mid m. hm_insert mid (processes_for_module mid env r) m) order [] in
       coordinated_loop send observe settle module_id new procs order r ops) (get_reload_order r module_id)"

section \<open>Updating a module\<close>

datatype audit_stage = StagePreparing | StageBlocked | StageApplying | StageCompensating

definition register_module_update_inner ::
  "(u8 list \<Rightarrow> string + 'm) \<Rightarrow> (u64 \<Rightarrow> reload_signal \<Rightarrow> bool) \<Rightarrow> observer \<Rightarrow> ('m module_registry \<Rightarrow> 'm module_registry) \<Rightarrow>
     u64 \<Rightarrow> u64 \<Rightarrow> u8 list \<Rightarrow> 'm module_registry \<Rightarrow> coordinator \<Rightarrow>
     (coordinator_error + u32) \<times> audit_stage \<times> 'm module_registry \<times> coordinator" where
  "register_module_update_inner compile send observe settle env i bytes r ops =
     (if is_reload_in_progress i ops then (Inl (UpdateBlocked i), StageBlocked, r, ops)
      else case get_committed_version_number i r of
        None \<Rightarrow> (Inl (NoCommittedVersion i), StagePreparing, r, ops)
      | Some old \<Rightarrow>
      (case compile bytes of
        Inl e \<Rightarrow> (Inl (CompileFailed e), StagePreparing, r, ops)
      | Inr m \<Rightarrow>
      (case add_version i m r of
        Inl e \<Rightarrow> (Inl (UpdateRegistryError e), StagePreparing, r, ops)
      | Inr (version, r1) \<Rightarrow>
          let affected = processes_for_module i env r1 in
          (case perform_atomic_reload send observe i old version affected ops of
             (Inl e, ops1) \<Rightarrow> (Inl e, StageApplying, settle r1, ops1)
           | (Inr _, ops1) \<Rightarrow>
               (case mark_committed i version (settle r1) of
                  Inr r2 \<Rightarrow> (Inr version, StageApplying, r2, ops1)
                | Inl commit_error \<Rightarrow>
                    (case perform_atomic_reload send observe i version old affected ops1 of
                       (Inr _, ops2) \<Rightarrow> (Inl (CommitFailed commit_error), StageCompensating, settle (settle r1), ops2)
                     | (Inl e, ops2) \<Rightarrow> (Inl (CompensationFailed commit_error e), StageCompensating, settle (settle r1), ops2)))))))"

datatype update_audit_action = AuditCommit | AuditRollback | AuditInDoubt
datatype update_audit_result = AuditSucceeded | AuditDenied | AuditFailed | AuditCancelled
datatype update_audit_reason = ReasonCompleted | ReasonConflict | ReasonRuntimeFailure | ReasonReloadNack | ReasonRollbackFailed | ReasonCancelled

definition audit_outcome :: "bool \<Rightarrow> audit_stage \<Rightarrow> reload_status option \<Rightarrow> update_audit_action \<times> update_audit_result \<times> update_audit_reason" where
  "audit_outcome succeeded stage st =
     (if succeeded then (AuditCommit, AuditSucceeded, ReasonCompleted)
      else case stage of
        StageBlocked \<Rightarrow> (AuditCommit, AuditDenied, ReasonConflict)
      | StagePreparing \<Rightarrow> (AuditCommit, AuditFailed, ReasonRuntimeFailure)
      | _ \<Rightarrow> (case st of
            Some (RolledBack _ _) \<Rightarrow> (AuditRollback, AuditFailed, ReasonReloadNack)
          | Some (InDoubt _ _ _) \<Rightarrow> (AuditInDoubt, AuditFailed, ReasonRollbackFailed)
          | Some Applying \<Rightarrow> (AuditInDoubt, AuditFailed, ReasonRuntimeFailure)
          | Some (RollingBack _) \<Rightarrow> (AuditInDoubt, AuditFailed, ReasonRuntimeFailure)
          | Some (Committed _) \<Rightarrow>
              if stage = StageCompensating then (AuditRollback, AuditFailed, ReasonRuntimeFailure)
              else (AuditCommit, AuditFailed, ReasonRuntimeFailure)
          | None \<Rightarrow> (AuditCommit, AuditFailed, ReasonRuntimeFailure)))"

text \<open>Dropping the pending audit, when the update is cancelled at an await.\<close>

definition audit_drop :: "bool \<Rightarrow> audit_stage \<Rightarrow> (update_audit_action \<times> update_audit_result \<times> update_audit_reason) option" where
  "audit_drop emitted stage =
     (if emitted then None
      else Some (case stage of StagePreparing \<Rightarrow> AuditCommit | StageBlocked \<Rightarrow> AuditCommit
                 | StageApplying \<Rightarrow> AuditInDoubt | StageCompensating \<Rightarrow> AuditInDoubt,
        AuditCancelled, ReasonCancelled))"

text \<open>The update with its audit record.\<close>

definition register_module_update ::
  "(u8 list \<Rightarrow> string + 'm) \<Rightarrow> (u64 \<Rightarrow> reload_signal \<Rightarrow> bool) \<Rightarrow> observer \<Rightarrow> ('m module_registry \<Rightarrow> 'm module_registry) \<Rightarrow>
     u64 \<Rightarrow> u64 \<Rightarrow> u8 list \<Rightarrow> 'm module_registry \<Rightarrow> coordinator \<Rightarrow>
     (coordinator_error + u32) \<times> (update_audit_action \<times> update_audit_result \<times> update_audit_reason) \<times> 'm module_registry \<times> coordinator" where
  "register_module_update compile send observe settle env i bytes r ops =
     (case register_module_update_inner compile send observe settle env i bytes r ops of
        (res, stage, r', ops') \<Rightarrow>
          (case res of
             Inr v \<Rightarrow> (res, audit_outcome True stage None, r', ops')
           | Inl e \<Rightarrow> (res, audit_outcome False stage (status i ops'), r', ops')))"


section \<open>The judgement of a round\<close>

text \<open>What a target has to report: this process and module, success, and the requested version.\<close>

definition confirmed :: "u64 \<Rightarrow> u32 \<Rightarrow> (u64 \<times> reload_acknowledgement option) list \<Rightarrow> u64 \<Rightarrow> bool" where
  "confirmed i target arrivals p \<longleftrightarrow> (\<exists>a. (p, Some a) \<in> set arrivals \<and> ack_process a = p \<and> ack_module a = i \<and>
     is_success (ack_status a) \<and> ack_current a = target)"

text \<open>A one-shot channel resolves at most once, and only those of the round are awaited.\<close>

definition one_shot :: "(u64 \<times> bool) list \<Rightarrow> (u64 \<times> reload_acknowledgement option) list \<Rightarrow> bool" where
  "one_shot receivers arrivals \<longleftrightarrow> distinct (map fst arrivals) \<and> set (map fst arrivals) \<subseteq> set (map fst receivers)"

lemma protocol_error_None:
  "protocol_error phase p i target a = None \<longleftrightarrow>
     ack_process a = p \<and> ack_module a = i \<and> is_success (ack_status a) \<and> ack_current a = target"
  by (cases "ack_status a") (auto simp: protocol_error_def)

lemma judge_Inr:
  "judge phase i target x = Inr a \<longleftrightarrow> snd x = Some a \<and> ack_process a = fst x \<and> ack_module a = i \<and>
     is_success (ack_status a) \<and> ack_current a = target"
proof (cases x)
  case (Pair p res)
  show ?thesis
  proof (cases res)
    case (Some b)
    then show ?thesis
      using Pair protocol_error_None[of phase p i target b] by (cases "protocol_error phase p i target b") (auto simp: judge_def)
  qed (simp add: judge_def Pair)
qed

lemma judge_Inl: "judge phase i target x = Inl e \<Longrightarrow> err_process e = fst x"
  by (auto simp: judge_def split: prod.splits option.splits)

lemma set_lefts: "set (lefts xs) = {a. Inl a \<in> set xs}" and set_rights: "set (rights xs) = {b. Inr b \<in> set xs}"
  by (induction xs rule: lefts.induct) auto

lemma judged_processes:
  "mset (map ack_process (rights (map (judge phase i target) xs))) + mset (map err_process (lefts (map (judge phase i target) xs)))
     = mset (map fst xs)"
proof (induction xs)
  case (Cons x xs)
  then show ?case
  proof (cases "judge phase i target x")
    case (Inl e)
    then show ?thesis using Cons judge_Inl[OF Inl] by simp
  next
    case (Inr a)
    then have "ack_process a = fst x" using judge_Inr[of phase i target x a] by simp
    then show ?thesis using Cons Inr by simp
  qed
qed simp

lemma collect_partition:
  assumes "one_shot rs xs" "distinct (map fst rs)" "collect_acknowledgements rs xs i target phase = (acks, errs)"
  shows "mset (map ack_process acks) + mset (map err_process errs) = mset (map fst rs)"
proof -
  let ?pending = "filter (\<lambda>p. p \<notin> set (map fst xs)) (map fst rs)"
  have "mset (map fst xs @ ?pending) = mset (map fst rs)"
    using assms(1,2) by (subst set_eq_iff_mset_eq_distinct[symmetric]) (auto simp: one_shot_def)
  moreover have "mset (map ack_process acks) + mset (map err_process errs) = mset (map fst xs) + mset ?pending"
  proof -
    have "acks = sort_key ack_process (rights (map (judge phase i target) xs))"
      "errs = sort_key err_process (lefts (map (judge phase i target) xs) @
         map (\<lambda>p. \<lparr>err_process = p, err_message = AckTimedOut phase, err_known_version = None\<rparr>) ?pending)"
      using assms(2,3) by (simp_all add: collect_acknowledgements_def Let_def distinct_remdups_id)
    then have "mset (map ack_process acks) = mset (map ack_process (rights (map (judge phase i target) xs)))"
      "mset (map err_process errs) = mset (map err_process (lefts (map (judge phase i target) xs))) + mset ?pending"
      by (simp_all add: image_mset.compositionality comp_def)
    then show ?thesis unfolding judged_processes[of phase i target xs, symmetric] by (simp only: add.assoc)
  qed
  ultimately show ?thesis by simp
qed

lemma collect_acks:
  assumes "collect_acknowledgements rs xs i target phase = (acks, errs)"
  shows "a \<in> set acks \<longleftrightarrow> (ack_process a, Some a) \<in> set xs \<and> ack_module a = i \<and> is_success (ack_status a) \<and> ack_current a = target"
    and "sorted (map ack_process acks)"
  using assms by (auto simp: collect_acknowledgements_def Let_def set_rights image_iff judge_Inr Bex_def eq_commute[of "Inr _"])

text \<open>No error means that every target confirmed the version.\<close>

lemma collect_no_error:
  assumes "one_shot rs xs" "distinct (map fst rs)" "collect_acknowledgements rs xs i target phase = (acks, errs)"
  shows "errs = [] \<longleftrightarrow> (\<forall>p \<in> set (map fst rs). confirmed i target xs p)"
proof
  assume "errs = []"
  then have "mset (map ack_process acks) = mset (map fst rs)" using collect_partition[OF assms] by simp
  then have same: "ack_process ` set acks = set (map fst rs)" using mset_eq_setD by (metis list.set_map)
  have "confirmed i target xs (ack_process a)" if "a \<in> set acks" for a
    using that collect_acks(1)[OF assms(3), of a] unfolding confirmed_def by blast
  then show "\<forall>p \<in> set (map fst rs). confirmed i target xs p" unfolding same[symmetric] by blast
next
  assume all: "\<forall>p \<in> set (map fst rs). confirmed i target xs p"
  have same: "mset (map ack_process acks @ map err_process errs) = mset (map fst rs)" using collect_partition[OF assms] by simp
  have "False" if e: "e \<in> set errs" for e
  proof -
    have "set (map ack_process acks) \<supseteq> set (map fst rs)"
    proof
      fix p assume "p \<in> set (map fst rs)"
      then obtain a where "(p, Some a) \<in> set xs" "ack_process a = p" "ack_module a = i" "is_success (ack_status a)" "ack_current a = target"
        using all unfolding confirmed_def by blast
      then have "a \<in> set acks" "p = ack_process a" using collect_acks(1)[OF assms(3), of a] by auto
      then show "p \<in> set (map ack_process acks)" by simp
    qed
    then have "err_process e \<in> set (map ack_process acks)"
      using mset_eq_setD[OF same] imageI[OF e, of err_process] unfolding set_append set_map by blast
    moreover have "distinct (map ack_process acks @ map err_process errs)"
      using mset_eq_imp_distinct_iff[OF same] assms(2) by simp
    ultimately show False using imageI[OF e, of err_process] by (auto simp: disjoint_iff)
  qed
  then show "errs = []" by (cases errs) auto
qed

lemma collect_all_acks:
  assumes "one_shot rs xs" "sorted (map fst rs)" "distinct (map fst rs)" "collect_acknowledgements rs xs i target phase = (acks, [])"
  shows "map ack_process acks = map fst rs"
proof -
  have "mset (map ack_process acks) = mset (map fst rs)" using collect_partition[OF assms(1,3,4)] by simp
  then show ?thesis using assms(2) collect_acks(2)[OF assms(4)] properties_for_sort sorted_sort_id by metis
qed


section \<open>The outcome of an atomic reload\<close>

abbreviation reload_targets :: "u64 list \<Rightarrow> u64 list" where
  "reload_targets affected \<equiv> remdups_adj (sort affected)"

abbreviation apply_answers :: "(u64 \<Rightarrow> reload_signal \<Rightarrow> bool) \<Rightarrow> observer \<Rightarrow> u64 \<Rightarrow> u32 \<Rightarrow> u32 \<Rightarrow> u64 list \<Rightarrow> (u64 \<times> reload_acknowledgement option) list" where
  "apply_answers send observe i old new affected \<equiv>
     observe i new ReloadPhase (map (\<lambda>p. dispatch_hot_reload send p i old new) (reload_targets affected))"

abbreviation rollback_answers :: "(u64 \<Rightarrow> reload_signal \<Rightarrow> bool) \<Rightarrow> observer \<Rightarrow> u64 \<Rightarrow> u32 \<Rightarrow> u32 \<Rightarrow> u64 list \<Rightarrow> (u64 \<times> reload_acknowledgement option) list" where
  "rollback_answers send observe i old new affected \<equiv>
     observe i old RollbackPhase (map (\<lambda>p. dispatch_rollback send p i new old) (reload_targets affected))"

definition all_at :: "u64 \<Rightarrow> u32 \<Rightarrow> u64 list \<Rightarrow> reload_acknowledgement list \<Rightarrow> bool" where
  "all_at i version targets acks \<longleftrightarrow> map ack_process acks = targets \<and>
     (\<forall>a \<in> set acks. ack_module a = i \<and> is_success (ack_status a) \<and> ack_current a = version)"

lemma distinct_remdups_adj_sorted: "sorted xs \<Longrightarrow> distinct (remdups_adj xs)"
  by (induction xs rule: remdups_adj.induct) (force simp: remdups_adj.simps)+

lemma targets_sorted: "sorted (reload_targets xs)" "distinct (reload_targets xs)" "set (reload_targets xs) = set xs"
  by (simp_all add: sorted_remdups_adj distinct_remdups_adj_sorted)

lemma set_status_inserted: "set_status i s (hm_insert i op ops) = Inr (hm_insert i (op\<lparr>op_status := s\<rparr>) ops)"
  by (simp add: set_status_def ok_or_def hm_get_insert)

lemma round_outcome:
  assumes "one_shot rs xs" "map fst rs = reload_targets affected" "collect_acknowledgements rs xs i target phase = (acks, errs)"
  shows "errs = [] \<longleftrightarrow> (\<forall>p \<in> set affected. confirmed i target xs p)"
    and "errs = [] \<Longrightarrow> all_at i target (reload_targets affected) acks"
proof -
  have rs: "sorted (map fst rs)" "distinct (map fst rs)" "set (map fst rs) = set affected"
    unfolding assms(2) by (rule targets_sorted)+
  show "errs = [] \<longleftrightarrow> (\<forall>p \<in> set affected. confirmed i target xs p)" using collect_no_error[OF assms(1) rs(2) assms(3)] unfolding rs(3) .
  show "all_at i target (reload_targets affected) acks" if "errs = []"
    using collect_all_acks[OF assms(1) rs(1,2)] collect_acks(1)[OF assms(3)] assms(2,3) that by (simp add: all_at_def)
qed

definition one_shot_channels :: "u64 \<Rightarrow> observer \<Rightarrow> bool" where
  "one_shot_channels i observe \<longleftrightarrow> (\<forall>v phase rs. distinct (map fst rs) \<longrightarrow> one_shot rs (observe i v phase rs))"

text \<open>The three ways an unblocked reload ends, with the status it leaves.\<close>

lemma atomic_reload_cases:
  assumes fresh: "\<not> is_reload_in_progress i ops"
    and shots: "one_shot_channels i observe"
    and res: "perform_atomic_reload send observe i old new affected ops = (res, ops')"
  shows "(\<forall>p \<in> set affected. confirmed i new (apply_answers send observe i old new affected) p) \<and>
      (\<exists>acks. res = Inr () \<and> all_at i new (reload_targets affected) acks \<and>
        ops' = hm_insert i \<lparr>affected_processes = reload_targets affected, op_status = Committed acks\<rparr> ops)
    \<or> \<not> (\<forall>p \<in> set affected. confirmed i new (apply_answers send observe i old new affected) p) \<and>
      (\<forall>p \<in> set affected. confirmed i old (rollback_answers send observe i old new affected) p) \<and>
      (\<exists>errs acks. res = Inl (DidNotCommit i old errs) \<and> errs \<noteq> [] \<and> all_at i old (reload_targets affected) acks \<and>
        ops' = hm_insert i \<lparr>affected_processes = reload_targets affected, op_status = RolledBack errs acks\<rparr> ops)
    \<or> \<not> (\<forall>p \<in> set affected. confirmed i new (apply_answers send observe i old new affected) p) \<and>
      \<not> (\<forall>p \<in> set affected. confirmed i old (rollback_answers send observe i old new affected) p) \<and>
      (\<exists>errs back_errs acks. res = Inl (ReloadInDoubt i old errs back_errs) \<and> errs \<noteq> [] \<and> back_errs \<noteq> [] \<and>
        ops' = hm_insert i \<lparr>affected_processes = reload_targets affected, op_status = InDoubt errs back_errs acks\<rparr> ops)"
proof -
  let ?rs = "map (\<lambda>p. dispatch_hot_reload send p i old new) (reload_targets affected)"
  let ?bs = "map (\<lambda>p. dispatch_rollback send p i new old) (reload_targets affected)"
  have start: "start_reload i affected ops = Inr (hm_insert i \<lparr>affected_processes = reload_targets affected, op_status = Applying\<rparr> ops)"
    using fresh by (auto simp: start_reload_def is_reload_in_progress_def Let_def split: option.splits)
  obtain acks errs where app: "collect_acknowledgements ?rs (observe i new ReloadPhase ?rs) i new ReloadPhase = (acks, errs)" by fastforce
  obtain backs berrs where rb: "collect_acknowledgements ?bs (observe i old RollbackPhase ?bs) i old RollbackPhase = (backs, berrs)" by fastforce
  have targets: "map fst ?rs = reload_targets affected" "map fst ?bs = reload_targets affected"
    by (simp_all add: dispatch_hot_reload_def dispatch_rollback_def comp_def)
  then have "distinct (map fst ?rs)" "distinct (map fst ?bs)" using targets_sorted(2) by metis+
  then have shot: "one_shot ?rs (observe i new ReloadPhase ?rs)" "one_shot ?bs (observe i old RollbackPhase ?bs)"
    using shots unfolding one_shot_channels_def by blast+
  note outcome = round_outcome[OF shot(1) targets(1) app] round_outcome[OF shot(2) targets(2) rb]
  note eval = res[unfolded perform_atomic_reload_def start sum.case Let_def]
  show ?thesis
  proof (cases errs)
    case Nil
    then have "res = Inr ()" "ops' = hm_insert i \<lparr>affected_processes = reload_targets affected, op_status = Committed acks\<rparr> ops"
      using eval by (simp_all add: get_affected_processes_def app set_status_inserted hm_get_insert)
    then show ?thesis using outcome(1,2) Nil by blast
  next
    case apply_failed: (Cons e es)
    show ?thesis
    proof (cases berrs)
      case Nil
      then have "res = Inl (DidNotCommit i old errs)"
        "ops' = hm_insert i \<lparr>affected_processes = reload_targets affected, op_status = RolledBack errs backs\<rparr> ops"
        using eval apply_failed by (simp_all add: get_affected_processes_def app rb set_status_inserted hm_get_insert)
      then show ?thesis using outcome(1,3,4) Nil apply_failed by blast
    next
      case (Cons b bs)
      then have "res = Inl (ReloadInDoubt i old errs berrs)"
        "ops' = hm_insert i \<lparr>affected_processes = reload_targets affected, op_status = InDoubt errs berrs backs\<rparr> ops"
        using eval apply_failed by (simp_all add: get_affected_processes_def app rb set_status_inserted hm_get_insert)
      then show ?thesis using outcome(1,3) Cons apply_failed by blast
    qed
  qed
qed


text \<open>
  C36.  An atomic reload that is not blocked commits exactly when every affected process confirmed the new version
  before the deadline; the recorded status then lists one acknowledgement of that version for each of
  them.  Otherwise, if every process confirmed the old version, the reload is recorded as rolled back and
  a later one may start.  If some process confirmed neither, the module is recorded as in doubt and every
  later attempt is refused.  Operations on other modules are not touched.
\<close>

theorem atomic_reload_outcome:
  assumes "\<not> is_reload_in_progress i ops" "one_shot_channels i observe"
    "perform_atomic_reload send observe i old new affected ops = (res, ops')"
  shows "(res = Inr () \<longleftrightarrow> (\<forall>p \<in> set affected. confirmed i new (apply_answers send observe i old new affected) p)) \<and>
    (res = Inr () \<longrightarrow> (\<exists>acks. status i ops' = Some (Committed acks) \<and> all_at i new (reload_targets affected) acks)) \<and>
    (res \<noteq> Inr () \<and> (\<forall>p \<in> set affected. confirmed i old (rollback_answers send observe i old new affected) p) \<longrightarrow>
      (\<exists>errs acks. status i ops' = Some (RolledBack errs acks) \<and> errs \<noteq> [] \<and> all_at i old (reload_targets affected) acks) \<and>
      \<not> is_reload_in_progress i ops') \<and>
    (res \<noteq> Inr () \<and> \<not> (\<forall>p \<in> set affected. confirmed i old (rollback_answers send observe i old new affected) p) \<longrightarrow>
      (\<exists>errs back_errs acks. status i ops' = Some (InDoubt errs back_errs acks) \<and> errs \<noteq> [] \<and> back_errs \<noteq> []) \<and>
      (\<forall>old' new' affected'. \<exists>e. perform_atomic_reload send observe i old' new' affected' ops' = (Inl e, ops'))) \<and>
    (\<forall>j. j \<noteq> i \<longrightarrow> hm_get ops' j = hm_get ops j)"
  using atomic_reload_cases[OF assms]
  by (elim disjE conjE exE)
    (auto simp: status_def is_reload_in_progress_def hm_get_insert perform_atomic_reload_def start_reload_def Let_def)

definition sample_ack :: "u64 \<Rightarrow> u32 \<Rightarrow> reload_acknowledgement" where
  "sample_ack p v = \<lparr>ack_process = p, ack_module = 7, ack_previous = 0, ack_current = v, ack_status = Applied\<rparr>"

text \<open>Process 2 fails to apply, every process rolls back; the rollback of process 3 is lost when \<open>lossy\<close>.\<close>

definition sample_observe :: "bool \<Rightarrow> observer" where
  "sample_observe lossy = (\<lambda>i v phase rs. case phase of
     ReloadPhase \<Rightarrow> map (\<lambda>(p, d). (p, if d \<and> p \<noteq> 2 then Some (sample_ack p v) else None)) rs
   | RollbackPhase \<Rightarrow> map (\<lambda>(p, d). (p, if d then Some (sample_ack p v) else None)) (filter (\<lambda>(p, d). \<not> lossy \<or> p \<noteq> 3) (rev rs)))"

lemma sample_one_shot: "one_shot_channels i (sample_observe lossy)"
  unfolding one_shot_channels_def
proof (intro allI impI)
  show "one_shot rs (sample_observe lossy i v phase rs)" if "distinct (map fst rs)" for v phase rs
    using that by (cases phase) (auto simp: one_shot_def sample_observe_def comp_def case_prod_beta
        rev_map[symmetric] rev_filter[symmetric] distinct_map_filter)
qed

theorem atomic_reload_outcome_witness:
  "fst (perform_atomic_reload (\<lambda>p s. p \<noteq> 5) (sample_observe False) 7 0 1 [3, 1, 3] []) = Inr () \<and>
   (\<exists>errs acks. status 7 (snd (perform_atomic_reload (\<lambda>p s. True) (sample_observe False) 7 0 1 [3, 2] [])) = Some (RolledBack errs acks)) \<and>
   (\<exists>errs berrs acks. status 7 (snd (perform_atomic_reload (\<lambda>p s. True) (sample_observe True) 7 0 1 [3, 2] [])) = Some (InDoubt errs berrs acks))"
proof -
  have *: "\<not> is_reload_in_progress 7 []" by (simp add: is_reload_in_progress_def)
  note use = atomic_reload_outcome[OF * sample_one_shot prod.collapse[symmetric]]
  note eval = confirmed_def sample_observe_def dispatch_hot_reload_def dispatch_rollback_def sample_ack_def
  have "\<forall>p \<in> set [3, 1, 3]. confirmed 7 1 (apply_answers (\<lambda>p s. p \<noteq> 5) (sample_observe False) 7 0 1 [3, 1, 3]) p"
    by (simp add: eval)
  then have "fst (perform_atomic_reload (\<lambda>p s. p \<noteq> 5) (sample_observe False) 7 0 1 [3, 1, 3] []) = Inr ()"
    by (rule iffD2[OF conjunct1[OF use]])
  moreover have "\<not> (\<forall>p \<in> set [3, 2]. confirmed 7 1 (apply_answers (\<lambda>p s. True) (sample_observe b) 7 0 1 [3, 2]) p)" for b
    by (simp add: eval)
  then have failed: "fst (perform_atomic_reload (\<lambda>p s. True) (sample_observe b) 7 0 1 [3, 2] []) \<noteq> Inr ()" for b
    using iffD1[OF conjunct1[OF use[of "\<lambda>p s. True" b 0 1 "[3, 2]"]]] by blast
  have "\<forall>p \<in> set [3, 2]. confirmed 7 0 (rollback_answers (\<lambda>p s. True) (sample_observe False) 7 0 1 [3, 2]) p"
    by (simp add: eval)
  then have "\<exists>errs acks. status 7 (snd (perform_atomic_reload (\<lambda>p s. True) (sample_observe False) 7 0 1 [3, 2] [])) = Some (RolledBack errs acks)"
    using mp[OF conjunct1[OF conjunct2[OF conjunct2[OF use[of "\<lambda>p s. True" False 0 1 "[3, 2]"]]]] conjI[OF failed]] by fast
  moreover have "\<not> (\<forall>p \<in> set [3, 2]. confirmed 7 0 (rollback_answers (\<lambda>p s. True) (sample_observe True) 7 0 1 [3, 2]) p)"
    by (simp add: eval)
  then have "\<exists>errs berrs acks. status 7 (snd (perform_atomic_reload (\<lambda>p s. True) (sample_observe True) 7 0 1 [3, 2] [])) = Some (InDoubt errs berrs acks)"
    using mp[OF conjunct1[OF conjunct2[OF conjunct2[OF conjunct2[OF use[of "\<lambda>p s. True" True 0 1 "[3, 2]"]]]]] conjI[OF failed]] by fast
  ultimately show ?thesis by blast
qed


section \<open>The registry while a transaction is held\<close>

text \<open>Whoever adds or commits a version of a module holds its transaction lock; other operations go on.\<close>

fun quiet :: "u64 \<Rightarrow> 'm module_registry_op \<Rightarrow> bool" where
  "quiet i (AddVersion j m) = (j \<noteq> i)"
| "quiet i (MarkCommitted j n) = (j \<noteq> i)"
| "quiet i _ = True"

abbreviation quiet_step :: "u64 \<Rightarrow> 'm module_registry \<Rightarrow> 'm module_registry \<Rightarrow> bool" where
  "quiet_step i r r' \<equiv> \<exists>op. quiet i op \<and> registry_step op r = Inr r'"

definition locked :: "u64 \<Rightarrow> ('m module_registry \<Rightarrow> 'm module_registry) \<Rightarrow> bool" where
  "locked i settle \<longleftrightarrow> (\<forall>r. reachable (\<lambda>s. s = r) (quiet_step i) (settle r))"

lemma cleanup_last: "0 < n \<Longrightarrow> hist_versions h \<noteq> [] \<Longrightarrow>
    hist_versions (cleanup_old_versions n h) \<noteq> [] \<and> last (hist_versions (cleanup_old_versions n h)) = last (hist_versions h)"
proof -
  assume "0 < n" "hist_versions h \<noteq> []"
  then have "length (hist_versions h) - n < length (hist_versions h)" by simp
  then show ?thesis by (simp add: cleanup_versions last_append last_drop)
qed

lemma versions_update_first [simp]:
  "(\<And>v. mv_version (f v) = mv_version v) \<Longrightarrow> map mv_version (update_first P f vs) = map mv_version vs"
  by (induction vs) auto

lemma last_versions: "map mv_version vs = map mv_version ws \<Longrightarrow> ws \<noteq> [] \<Longrightarrow> vs \<noteq> [] \<and> mv_version (last vs) = mv_version (last ws)"
  by (metis last_map list.map_disc_iff)

lemma same_history_numbers:
  assumes "hm_get (modules r) i = Some h" "hist_versions h \<noteq> []" "committed_version h' = committed_version h"
    "hist_versions h' \<noteq> [] \<and> mv_version (last (hist_versions h')) = mv_version (last (hist_versions h))"
  shows "get_committed_version_number j (set_history i h' r) = get_committed_version_number j r \<and>
    get_latest_version_number j (set_history i h' r) = get_latest_version_number j r"
  using assms by (simp add: get_committed_version_number_def get_latest_version_number_def hm_get_insert)

lemma history_nonempty: "registry_inv r \<Longrightarrow> hm_get (modules r) i = Some h \<Longrightarrow> hist_versions h \<noteq> []"
  using history_of[of r i h] by (auto simp: history_ok_def)

lemma map_update_same: "f (g (xs ! i)) = f (xs ! i) \<Longrightarrow> map f (xs[i := g (xs ! i)]) = map f xs"
  by (cases "i < length xs") (simp_all add: map_update list_update_same_conv list_update_beyond)

lemma transition_process_shape:
  assumes "transition_process i old new p r = Inr r'"
  shows "r' = r \<or> (\<exists>h vs. hm_get (modules r) i = Some h \<and> map mv_version vs = map mv_version (hist_versions h) \<and>
    r' = set_history i (cleanup_old_versions (max_versions r) (h\<lparr>hist_versions := vs\<rparr>)) r)"
proof -
  have same: "map mv_version (vs[a := mv_processes_update g (vs ! a)]) = map mv_version vs" for vs :: "'a module_version list" and a g
    by (rule map_update_same) simp
  show ?thesis
  proof (cases "old = new")
    case True
    then show ?thesis using assms by (auto simp: transition_process_def result_simps)
  next
    case False
    then obtain h a b where h: "hm_get (modules r) i = Some h" and r': "r' = set_history i (cleanup_old_versions (max_versions r)
        (h\<lparr>hist_versions := (hist_versions h)[a := mv_processes_update (remove1 p) (hist_versions h ! a),
          b := mv_processes_update (List.insert p) ((hist_versions h)[a := mv_processes_update (remove1 p) (hist_versions h ! a)] ! b)]\<rparr>)) r"
      using assms by (auto simp: transition_process_def result_simps Let_def)
    show ?thesis using h r' same by metis
  qed
qed

lemma quiet_step_keeps:
  assumes inv: "registry_inv r" and q: "quiet i op" and step: "registry_step op r = Inr r'"
  shows "get_committed_version_number i r' = get_committed_version_number i r \<and>
    get_latest_version_number i r' = get_latest_version_number i r"
proof (cases op)
  case (AddVersion j m)
  then show ?thesis using q step
    by (auto simp: result_simps add_version_def Let_def get_committed_version_number_def get_latest_version_number_def hm_get_insert split: prod.splits)
next
  case (MarkCommitted j n)
  then show ?thesis using q step
    by (auto simp: result_simps mark_committed_def get_committed_version_number_def get_latest_version_number_def hm_get_insert)
next
  case (RegisterProcess j n p)
  then obtain h where h: "hm_get (modules r) j = Some h"
    and r': "r' = set_history j (h\<lparr>hist_versions := update_first (\<lambda>v. mv_version v = n) (mv_processes_update (List.insert p)) (hist_versions h)\<rparr>) r"
    using step by (auto simp: register_process_def result_simps)
  let ?vs = "update_first (\<lambda>v. mv_version v = n) (mv_processes_update (List.insert p)) (hist_versions h)"
  have "?vs \<noteq> [] \<and> mv_version (last ?vs) = mv_version (last (hist_versions h))"
    by (rule last_versions[OF _ history_nonempty[OF inv h]]) simp
  then show ?thesis unfolding r' by (intro same_history_numbers[OF h]) (simp_all add: history_nonempty[OF inv h])
next
  case (TransitionProcess j old new p)
  then consider "r' = r" | h vs where "hm_get (modules r) j = Some h" "map mv_version vs = map mv_version (hist_versions h)"
    "r' = set_history j (cleanup_old_versions (max_versions r) (h\<lparr>hist_versions := vs\<rparr>)) r"
    using step transition_process_shape[of j old new p r r'] by auto
  then show ?thesis
  proof cases
    case (2 h vs)
    have "2 \<le> max_versions r" using inv by (simp add: registry_inv_def)
    then show ?thesis unfolding 2(3)
      using last_versions[OF 2(2) history_nonempty[OF inv 2(1)]] cleanup_last[of "max_versions r" "h\<lparr>hist_versions := vs\<rparr>"]
      by (intro same_history_numbers[OF 2(1)]) (simp_all add: history_nonempty[OF inv 2(1)])
  qed simp
next
  case (UnregisterProcess j n p)
  then obtain h where h: "hm_get (modules r) j = Some h"
    and r': "r' = set_history j (cleanup_old_versions (max_versions r) (h\<lparr>hist_versions :=
      update_first (\<lambda>v. mv_version v = n) (mv_processes_update (remove1 p)) (hist_versions h)\<rparr>)) r"
    using step by (auto simp: unregister_module_process_def result_simps)
  let ?vs = "update_first (\<lambda>v. mv_version v = n) (mv_processes_update (remove1 p)) (hist_versions h)"
  have "2 \<le> max_versions r" using inv by (simp add: registry_inv_def)
  moreover have "?vs \<noteq> [] \<and> mv_version (last ?vs) = mv_version (last (hist_versions h))"
    by (rule last_versions[OF _ history_nonempty[OF inv h]]) simp
  ultimately show ?thesis unfolding r'
    using cleanup_last[of "max_versions r" "h\<lparr>hist_versions := ?vs\<rparr>"]
    by (intro same_history_numbers[OF h]) (simp_all add: history_nonempty[OF inv h])
next
  case (AddDependency d m)
  then show ?thesis using step
    by (auto simp: add_dependency_def Let_def get_committed_version_number_def get_latest_version_number_def)
qed

lemma quiet_run_keeps:
  assumes "reachable (\<lambda>s. s = r) (quiet_step i) r'" "registry_inv r"
  shows "registry_inv r' \<and> get_committed_version_number i r' = get_committed_version_number i r \<and>
    get_latest_version_number i r' = get_latest_version_number i r"
  using assms
proof (induction rule: reachable.induct)
  case (reach_step s t)
  then obtain op where "quiet i op" "registry_step op s = Inr t" by blast
  then show ?case using reach_step quiet_step_keeps[of s i op t] registry_step_spec[of s op t] by simp
qed simp


section \<open>The module update\<close>

lemma add_version_numbers:
  assumes "registry_inv r" "add_version i m r = Inr (n, r')" "get_committed_version_number i r = Some old"
  shows "get_committed_version_number i r' = Some old" "get_latest_version_number i r' = Some n"
proof -
  obtain h where h: "hm_get (modules r) i = Some h" "committed_version h = old" using assms(3) by (auto simp: get_committed_version_number_def)
  obtain h' where r': "r' = set_history i h' r" "n = next_version h"
    and h': "h' = (if max_versions r < Suc (length (hist_versions h)) then cleanup_old_versions (max_versions r) (appended i m h) else appended i m h)"
    using add_version_result[OF assms(2)] h(1) by auto
  have "0 < max_versions r" using assms(1) by (simp add: registry_inv_def)
  then have "hist_versions h' \<noteq> [] \<and> mv_version (last (hist_versions h')) = n"
    using h' r'(2) cleanup_last[of "max_versions r" "appended i m h"] by auto
  moreover have "committed_version h' = old" using h' h history_nonempty[OF assms(1) h(1)] by (simp add: appended_def)
  ultimately show "get_committed_version_number i r' = Some old" "get_latest_version_number i r' = Some n"
    using r'(1) by (simp_all add: get_committed_version_number_def get_latest_version_number_def hm_get_insert)
qed

lemma mark_committed_latest: "get_latest_version_number i r = Some n \<Longrightarrow> \<exists>r'. mark_committed i n r = Inr r'"
  by (auto simp: get_latest_version_number_def mark_committed_def result_simps list_ex_iff bind_eq_Some_conv
      intro: bexI[OF refl last_in_set] split: if_splits)

lemma concat_filter: "(\<And>x. x \<in> set xs \<Longrightarrow> \<not> P x \<Longrightarrow> f x = []) \<Longrightarrow> concat (map f (filter P xs)) = concat (map f xs)"
  by (induction xs) auto

lemma cleanup_processes: "concat (map mv_processes (hist_versions (cleanup_old_versions n h))) = concat (map mv_processes (hist_versions h))"
proof -
  have "concat (map mv_processes (filter (in_use h) vs)) = concat (map mv_processes vs)" for vs
    by (rule concat_filter) (simp add: in_use_def)
  then show ?thesis unfolding cleanup_versions map_append concat_append by (metis append_take_drop_id concat_append map_append)
qed

lemma add_version_processes:
  assumes "add_version i m r = Inr (n, r')"
  shows "processes_for_module i env r' = processes_for_module i env r"
proof -
  obtain e where e: "e = (case hm_get (modules r) i of Some h \<Rightarrow> h | None \<Rightarrow> fresh_history)"
    and r': "r' = set_history i (if max_versions r < Suc (length (hist_versions e))
      then cleanup_old_versions (max_versions r) (appended i m e) else appended i m e) r"
    using add_version_result[OF assms] by blast
  have same: "concat (map mv_processes (hist_versions (if b then cleanup_old_versions k (appended i m e) else appended i m e)))
      = concat (map mv_processes (hist_versions e))" for b k
    by (simp add: cleanup_processes)
  have "processes_for_module i env r' = remdups_adj (sort (map key_process (filter (\<lambda>p. key_environment p = env)
      (concat (map mv_processes (hist_versions e))))))"
    unfolding r' processes_for_module_def by (simp add: hm_get_insert same)
  then show ?thesis using e by (cases "hm_get (modules r) i") (simp_all add: processes_for_module_def)
qed

lemma processes_are_targets: "reload_targets (processes_for_module i env r) = processes_for_module i env r"
  by (simp add: processes_for_module_def sorted_sort_id sorted_remdups_adj remdups_adj_distinct distinct_remdups_adj_sorted split: option.splits)

text \<open>
  The ways an update ends.  The compensation after a failed registry commit is never needed.
\<close>

lemma module_update_cases:
  assumes inv: "registry_inv r" and lock: "locked i settle" and shots: "one_shot_channels i observe"
    and res: "register_module_update_inner compile send observe settle env i bytes r ops = (res, stage, r', ops')"
  shows "(stage = StageBlocked \<and> is_reload_in_progress i ops \<or> stage = StagePreparing) \<and> (\<exists>e. res = Inl e) \<and> r' = r \<and> ops' = ops
    \<or> stage = StageApplying \<and> registry_inv r' \<and> \<not> is_reload_in_progress i ops \<and>
      (\<exists>v old acks. res = Inr v \<and> get_committed_version_number i r' = Some v \<and> all_at i v (processes_for_module i env r) acks \<and>
         get_committed_version_number i r = Some old \<and> status i ops' = Some (Committed acks))
    \<or> stage = StageApplying \<and> registry_inv r' \<and> \<not> is_reload_in_progress i ops \<and>
      (\<exists>e old. res = Inl e \<and> get_committed_version_number i r = Some old \<and> get_committed_version_number i r' = Some old \<and>
        ((\<exists>errs acks. status i ops' = Some (RolledBack errs acks) \<and> all_at i old (processes_for_module i env r) acks) \<or>
         (\<exists>errs back_errs acks. status i ops' = Some (InDoubt errs back_errs acks))))"
proof -
  note def = res[unfolded register_module_update_inner_def]
  consider "is_reload_in_progress i ops" | "\<not> is_reload_in_progress i ops" "get_committed_version_number i r = None"
    | old e where "\<not> is_reload_in_progress i ops" "get_committed_version_number i r = Some old" "compile bytes = Inl e"
    | old m e where "\<not> is_reload_in_progress i ops" "get_committed_version_number i r = Some old" "compile bytes = Inr m" "add_version i m r = Inl e"
    | old m v r1 where "\<not> is_reload_in_progress i ops" "get_committed_version_number i r = Some old" "compile bytes = Inr m" "add_version i m r = Inr (v, r1)"
    by (metis not_None_eq obj_sumE surj_pair)
  then show ?thesis
  proof cases
    case (5 old m v r1)
    let ?ps = "processes_for_module i env r"
    note run = quiet_run_keeps[OF lock[unfolded locked_def, rule_format, of r1]]
    have "registry_inv r1" using add_version_spec[OF inv 5(4)] by simp
    then have settled: "registry_inv (settle r1)" "get_committed_version_number i (settle r1) = Some old" "get_latest_version_number i (settle r1) = Some v"
      using run add_version_numbers[OF inv 5(4,2)] by simp_all
    obtain r2 where r2: "mark_committed i v (settle r1) = Inr r2" using mark_committed_latest[OF settled(3)] by blast
    obtain res1 ops1 where at: "perform_atomic_reload send observe i old v ?ps ops = (res1, ops1)" by fastforce
    show ?thesis
    proof (cases res1)
      case (Inl e)
      then show ?thesis
        using def 5 at settled atomic_reload_cases[OF 5(1) shots at] add_version_processes[OF 5(4), of env]
        by (auto simp: Let_def status_def hm_get_insert processes_are_targets)
    next
      case (Inr u)
      have "get_committed_version_number i r2 = Some v" "registry_inv r2" using mark_committed_spec[OF settled(1) r2] by simp_all
      then show ?thesis
        using Inr def 5 at r2 atomic_reload_cases[OF 5(1) shots at] add_version_processes[OF 5(4), of env]
        by (auto simp: Let_def status_def hm_get_insert processes_are_targets)
    qed
  qed (use def in auto)
qed



definition running_two :: "nat module_registry" where
  "running_two = \<lparr>modules = [(7, \<lparr>next_version = 1, committed_version = 0,
     hist_versions = [\<lparr>mv_id = 7, mv_version = 0, mv_module = 42, mv_processes = [ProcessKey 1 3, ProcessKey 1 2]\<rparr>]\<rparr>)],
     max_versions = 2, dependencies = []\<rparr>"

lemma running_two_inv: "registry_inv running_two"
  by (simp add: registry_inv_def running_two_def history_ok_def versions_ok_def exclusive_def retained_def hm_wf_def runs_def)

lemma settle_id_locked: "locked i (\<lambda>r. r)"
  by (simp add: locked_def reach_start)


text \<open>A coordinated reload of modules without processes succeeds and commits nothing.\<close>

lemma coordinated_loop_idle:
  "(\<And>mid. mid \<in> set mids \<Longrightarrow> hm_get procs mid \<in> {None, Some []}) \<Longrightarrow>
     coordinated_loop send observe settle i new procs mids r ops = (Inr (), r, ops)"
  by (induction mids) (force simp: Let_def)+

lemma coordinated_reload_skips_idle_modules:
  assumes "get_reload_order r i = Some order" "\<And>mid. processes_for_module mid env r = []"
  shows "perform_coordinated_reload send observe settle env i new r ops = Some (Inr (), r, ops)"
proof -
  have "hm_get (fold (\<lambda>mid m. hm_insert mid [] m) ms acc) x \<in> {None, Some []}" if "\<And>x. hm_get acc x \<in> {None, Some []}"
    for ms and acc :: "(u64, u64 list) hmap" and x
    using that by (induction ms arbitrary: acc) (auto simp: hm_get_insert)
  then show ?thesis using assms by (simp add: perform_coordinated_reload_def Let_def coordinated_loop_idle)
qed

end
