(* ===== verification/Supervisor.thy ===== *)
theory Supervisor
  imports Prelude
begin

text \<open>
  The supervisor of \<open>lunatic-otp-patterns/src/supervisor.rs\<close>.  The environment with its processes is a value
  of type \<open>'w\<close> that only the operations of \<open>child_runtime_ops\<close> read and change; a process handle is its id and
  \<open>'f\<close> is the type of start functions.  An operation that waits for a process may not return, so operations
  give an option, with the result and the new supervisor in it.
\<close>

section \<open>Specifications and state\<close>

datatype restart_strategy = OneForOne | OneForAll | RestForOne | SimpleOneForOne
datatype restart_policy = Permanent | Transient | Temporary
datatype shutdown_policy = Brutal | Timeout u64 | Infinity
datatype child_type = Worker | SupervisorChild
datatype exit_reason = ExitNormal | ExitCrash | ExitKilled | ExitShutdown
datatype child_death_reason = DeathNormal | DeathFailure | DeathNoProcess

record 'f child_spec =
  child_id :: string
  child_start :: 'f
  child_restart :: restart_policy
  child_shutdown :: shutdown_policy
  child_kind :: child_type

record 'f supervisor_spec =
  strategy :: restart_strategy
  max_restarts :: u32
  max_seconds :: u32
  spec_children :: "'f child_spec list"

record 'f child_state =
  state_spec :: "'f child_spec"
  child_process :: "u64 option"
  restart_count :: u32

record restart_event =
  timestamp :: u64
  event_child :: string

record ('f, 'w) supervisor =
  spec :: "'f supervisor_spec"
  environment :: 'w
  children :: "(string, 'f child_state) hmap"
  restart_history :: "restart_event list"
  monitor :: "u64 option"
  cleanup_tracker :: "u64 list option"

datatype start_failure = StartPanicked string | StartRefused string

datatype supervisor_error =
  NotMultiThread
| ChildNotFound string
| ChildNotStarted string
| AlreadyRunning string u64
| StartFailed string start_failure
| MonitorFailed string u64 string
| MonitorTimedOut string u64
| UnregisteredProcess string u64
| StopFailed string string
| StopTimedOut string u64
| IntensityExceeded usize usize
| Escalated supervisor_error supervisor_error

text \<open>
  What the supervisor calls: \<open>get_process\<close>, the clocks (seconds of the system time, milliseconds of a monotonic
  one), the start function under \<open>catch_unwind\<close>, sending \<open>Monitor\<close> and awaiting its acknowledgement, sending
  \<open>Kill\<close>, and sleeping a millisecond while everything else runs.
\<close>

record ('f, 'w) child_runtime_ops =
  rt_multi_thread :: "'w \<Rightarrow> bool"
  rt_alive :: "'w \<Rightarrow> u64 \<Rightarrow> bool"
  rt_terminal :: "'w \<Rightarrow> u64 \<Rightarrow> bool"
  rt_now :: "'w \<Rightarrow> u64"
  rt_millis :: "'w \<Rightarrow> nat"
  rt_start :: "'f \<Rightarrow> 'w \<Rightarrow> (start_failure + u64) \<times> 'w"
  rt_monitor :: "u64 \<Rightarrow> u64 \<Rightarrow> 'w \<Rightarrow> (string + unit) \<times> 'w"
  rt_await_monitor :: "u64 \<Rightarrow> 'w \<Rightarrow> bool \<times> 'w"
  rt_kill :: "u64 \<Rightarrow> 'w \<Rightarrow> (string + unit) \<times> 'w"
  rt_sleep :: "'w \<Rightarrow> 'w"

type_synonym ('f, 'w, 'a) sup_result = "((supervisor_error + 'a) \<times> ('f, 'w) supervisor) option"

definition with_environment :: "'f supervisor_spec \<Rightarrow> 'w \<Rightarrow> ('f, 'w) supervisor" where
  "with_environment sp w = \<lparr>spec = sp, environment = w, children = [], restart_history = [], monitor = None, cleanup_tracker = None\<rparr>"

text \<open>Running a second operation when the first succeeds (\<open>?\<close>), and whatever the first returns (\<open>let _ =\<close>).\<close>

definition sup_then :: "('f, 'w, 'a) sup_result \<Rightarrow> ('a \<Rightarrow> ('f, 'w) supervisor \<Rightarrow> ('f, 'w, 'b) sup_result) \<Rightarrow> ('f, 'w, 'b) sup_result" where
  "sup_then m f = Option.bind m (\<lambda>(r, s). case r of Inl e \<Rightarrow> Some (Inl e, s) | Inr x \<Rightarrow> f x s)"

definition sup_ignore :: "('f, 'w, 'a) sup_result \<Rightarrow> (('f, 'w) supervisor \<Rightarrow> ('f, 'w, 'b) sup_result) \<Rightarrow> ('f, 'w, 'b) sup_result" where
  "sup_ignore m f = Option.bind m (\<lambda>(r, s). f s)"

section \<open>Children\<close>

definition refresh_cleanup_tracker :: "('f, 'w) supervisor \<Rightarrow> ('f, 'w) supervisor" where
  "refresh_cleanup_tracker s =
     (case cleanup_tracker s of None \<Rightarrow> s
      | Some _ \<Rightarrow> s\<lparr>cleanup_tracker := Some (List.map_filter (\<lambda>c. Option.bind (hm_get (children s) (child_id c)) child_process)
          (spec_children (spec s)))\<rparr>)"

definition clear_process :: "string \<Rightarrow> ('f, 'w) supervisor \<Rightarrow> ('f, 'w) supervisor" where
  "clear_process i s =
     (case hm_get (children s) i of None \<Rightarrow> s
      | Some st \<Rightarrow> s\<lparr>children := hm_insert i (st\<lparr>child_process := None\<rparr>) (children s)\<rparr>)"

partial_function (option) wait_loop ::
  "('f, 'w) child_runtime_ops \<Rightarrow> u64 \<Rightarrow> nat option \<Rightarrow> nat \<Rightarrow> 'w \<Rightarrow> (bool \<times> 'w) option" where
  "wait_loop R p limit since w =
     (if \<not> rt_alive R w p then Some (True, w)
      else if (case limit of None \<Rightarrow> False | Some l \<Rightarrow> l \<le> rt_millis R w - since) then Some (False, w)
      else wait_loop R p limit since (rt_sleep R w))"

definition wait_for_process_exit ::
  "('f, 'w) child_runtime_ops \<Rightarrow> string \<Rightarrow> u64 \<Rightarrow> nat option \<Rightarrow> ('f, 'w) supervisor \<Rightarrow> ('f, 'w, unit) sup_result" where
  "wait_for_process_exit R i p limit s =
     map_option (\<lambda>(gone, w). (if gone then Inr () else Inl (StopTimedOut i p), s\<lparr>environment := w\<rparr>))
       (wait_loop R p limit (rt_millis R (environment s)) (environment s))"

definition brutal_shutdown_timeout :: nat where
  "brutal_shutdown_timeout = 5000"

definition send_kill :: "('f, 'w) child_runtime_ops \<Rightarrow> u64 \<Rightarrow> ('f, 'w) supervisor \<Rightarrow> (string + unit) \<times> ('f, 'w) supervisor" where
  "send_kill R p s = (case rt_kill R p (environment s) of (r, w) \<Rightarrow> (r, s\<lparr>environment := w\<rparr>))"

text \<open>Monitoring a new child; a child that cannot be monitored is killed.\<close>

definition abandon ::
  "('f, 'w) child_runtime_ops \<Rightarrow> string \<Rightarrow> u64 \<Rightarrow> supervisor_error \<Rightarrow> ('f, 'w) supervisor \<Rightarrow> ('f, 'w, unit) sup_result" where
  "abandon R i p e s =
     sup_ignore (wait_for_process_exit R i p (Some brutal_shutdown_timeout) (snd (send_kill R p s))) (\<lambda>s'. Some (Inl e, s'))"

definition monitor_child ::
  "('f, 'w) child_runtime_ops \<Rightarrow> string \<Rightarrow> u64 \<Rightarrow> ('f, 'w) supervisor \<Rightarrow> ('f, 'w, unit) sup_result" where
  "monitor_child R i p s =
     (case monitor s of
        None \<Rightarrow> Some (Inr (), s)
      | Some m \<Rightarrow>
          (case rt_monitor R p m (environment s) of
             (Inl e, w) \<Rightarrow> abandon R i p (MonitorFailed i p e) (s\<lparr>environment := w\<rparr>)
           | (Inr _, w) \<Rightarrow>
               (case rt_await_monitor R p w of
                  (False, w') \<Rightarrow> abandon R i p (MonitorTimedOut i p) (s\<lparr>environment := w'\<rparr>)
                | (True, w') \<Rightarrow> Some (Inr (), s\<lparr>environment := w'\<rparr>))))"

definition install_child :: "'f child_spec \<Rightarrow> u64 \<Rightarrow> bool \<Rightarrow> ('f, 'w) supervisor \<Rightarrow> ('f, 'w) supervisor" where
  "install_child c p is_restart s =
     (let st = (case hm_get (children s) (child_id c) of
          Some st \<Rightarrow> st\<lparr>state_spec := c, child_process := Some p,
            restart_count := (if is_restart \<and> restart_count st \<noteq> - 1 then restart_count st + 1 else restart_count st)\<rparr>
        | None \<Rightarrow> \<lparr>state_spec = c, child_process = Some p, restart_count = (if is_restart then 1 else 0)\<rparr>)
      in refresh_cleanup_tracker (s\<lparr>children := hm_insert (child_id c) st (children s)\<rparr>))"

definition launch_child ::
  "('f, 'w) child_runtime_ops \<Rightarrow> 'f child_spec \<Rightarrow> bool \<Rightarrow> ('f, 'w) supervisor \<Rightarrow> ('f, 'w, u64) sup_result" where
  "launch_child R c is_restart s =
     (case rt_start R (child_start c) (environment s) of
        (Inl e, w) \<Rightarrow> Some (Inl (StartFailed (child_id c) e), s\<lparr>environment := w\<rparr>)
      | (Inr p, w) \<Rightarrow>
          sup_then (monitor_child R (child_id c) p (s\<lparr>environment := w\<rparr>)) (\<lambda>_ s1.
            if monitor s1 = None \<and> \<not> rt_alive R (environment s1) p \<and> \<not> rt_terminal R (environment s1) p
            then Some (Inl (UnregisteredProcess (child_id c) p), snd (send_kill R p s1))
            else Some (Inr p, install_child c p is_restart s1)))"

definition start_child_internal ::
  "('f, 'w) child_runtime_ops \<Rightarrow> bool \<Rightarrow> string \<Rightarrow> ('f, 'w) supervisor \<Rightarrow> ('f, 'w, u64) sup_result" where
  "start_child_internal R is_restart i s =
     (if \<not> rt_multi_thread R (environment s) then Some (Inl NotMultiThread, s)
      else case find (\<lambda>c. child_id c = i) (spec_children (spec s)) of
        None \<Rightarrow> Some (Inl (ChildNotFound i), s)
      | Some c \<Rightarrow>
          (case Option.bind (hm_get (children s) i) child_process of
             Some p \<Rightarrow>
               if rt_alive R (environment s) p then Some (Inl (AlreadyRunning i p), s)
               else launch_child R c is_restart (refresh_cleanup_tracker (clear_process i s))
           | None \<Rightarrow> launch_child R c is_restart (refresh_cleanup_tracker (clear_process i s))))"

definition start_child :: "('f, 'w) child_runtime_ops \<Rightarrow> string \<Rightarrow> ('f, 'w) supervisor \<Rightarrow> ('f, 'w, u64) sup_result" where
  "start_child R i s = start_child_internal R False i s"

fun shutdown_timeout :: "shutdown_policy \<Rightarrow> nat option" where
  "shutdown_timeout Brutal = Some brutal_shutdown_timeout"
| "shutdown_timeout (Timeout ms) = Some (unat ms)"
| "shutdown_timeout Infinity = None"

definition stop_child :: "('f, 'w) child_runtime_ops \<Rightarrow> string \<Rightarrow> ('f, 'w) supervisor \<Rightarrow> ('f, 'w, unit) sup_result" where
  "stop_child R i s =
     (if \<not> rt_multi_thread R (environment s) then Some (Inl NotMultiThread, s)
      else case hm_get (children s) i of
        None \<Rightarrow> Some (Inl (ChildNotStarted i), s)
      | Some st \<Rightarrow> (case child_process st of
            None \<Rightarrow> Some (Inr (), s)
          | Some p \<Rightarrow>
              if \<not> rt_alive R (environment s) p then Some (Inr (), refresh_cleanup_tracker (clear_process i s))
              else (case send_kill R p s of
                  (Inl e, s1) \<Rightarrow> Some (Inl (StopFailed i e), s1)
                | (Inr _, s1) \<Rightarrow>
                    sup_then (wait_for_process_exit R i p (shutdown_timeout (child_shutdown (state_spec st))) s1)
                      (\<lambda>_ s2. Some (Inr (), refresh_cleanup_tracker (clear_process i s2))))))"

section \<open>Groups of children\<close>

text \<open>Stopping with \<open>?\<close>, stopping with the results ignored, and starting with the started ones undone on an error.\<close>

fun stop_each :: "('f, 'w) child_runtime_ops \<Rightarrow> string list \<Rightarrow> ('f, 'w) supervisor \<Rightarrow> ('f, 'w, unit) sup_result" where
  "stop_each R [] s = Some (Inr (), s)"
| "stop_each R (i # ids) s = sup_then (stop_child R i s) (\<lambda>_ s'. stop_each R ids s')"

fun stop_quietly :: "('f, 'w) child_runtime_ops \<Rightarrow> string list \<Rightarrow> ('f, 'w) supervisor \<Rightarrow> ('f, 'w, unit) sup_result" where
  "stop_quietly R [] s = Some (Inr (), s)"
| "stop_quietly R (i # ids) s = sup_ignore (stop_child R i s) (\<lambda>s'. stop_quietly R ids s')"

fun start_each ::
  "('f, 'w) child_runtime_ops \<Rightarrow> bool \<Rightarrow> string list \<Rightarrow> string list \<Rightarrow> ('f, 'w) supervisor \<Rightarrow> ('f, 'w, unit) sup_result" where
  "start_each R is_restart finished [] s = Some (Inr (), s)"
| "start_each R is_restart finished (i # ids) s =
     Option.bind (start_child_internal R is_restart i s) (\<lambda>(r, s1).
       case r of
         Inl e \<Rightarrow> sup_ignore (stop_quietly R (rev finished) s1) (\<lambda>s2. Some (Inl e, s2))
       | Inr _ \<Rightarrow> start_each R is_restart (finished @ [i]) ids s1)"

definition start_children :: "('f, 'w) child_runtime_ops \<Rightarrow> ('f, 'w) supervisor \<Rightarrow> ('f, 'w, unit) sup_result" where
  "start_children R s = start_each R False [] (map child_id (spec_children (spec s))) s"

definition saturating_sub :: "u64 \<Rightarrow> u64 \<Rightarrow> u64" where
  "saturating_sub a b = (if a < b then 0 else a - b)"

definition reserve_restart_events ::
  "('f, 'w) child_runtime_ops \<Rightarrow> string list \<Rightarrow> ('f, 'w) supervisor \<Rightarrow> (supervisor_error + unit) \<times> ('f, 'w) supervisor" where
  "reserve_restart_events R ids s =
     (let now = rt_now R (environment s);
          window_start = saturating_sub now (ucast (max_seconds (spec s)));
          kept = filter (\<lambda>e. window_start \<le> timestamp e) (restart_history s) in
      if unat (max_restarts (spec s)) < length kept + length ids
      then (Inl (IntensityExceeded (length kept) (length ids)), s\<lparr>restart_history := kept\<rparr>)
      else (Inr (), s\<lparr>restart_history := kept @ map (\<lambda>i. \<lparr>timestamp = now, event_child = i\<rparr>) ids\<rparr>))"

definition restart_children :: "('f, 'w) child_runtime_ops \<Rightarrow> string list \<Rightarrow> ('f, 'w) supervisor \<Rightarrow> ('f, 'w, unit) sup_result" where
  "restart_children R ids s =
     sup_then (Some (reserve_restart_events R ids s)) (\<lambda>_ s1.
     sup_then (stop_each R (rev ids) s1) (\<lambda>_ s2.
     start_each R True [] ids s2))"

definition is_running :: "('f, 'w) supervisor \<Rightarrow> string \<Rightarrow> bool" where
  "is_running s i \<longleftrightarrow> Option.bind (hm_get (children s) i) child_process \<noteq> None"

fun should_restart :: "restart_policy \<Rightarrow> exit_reason \<Rightarrow> bool" where
  "should_restart Permanent _ = True"
| "should_restart Transient r = (r \<noteq> ExitNormal)"
| "should_restart Temporary _ = False"

text \<open>The children a strategy restarts, in start order.\<close>

definition affected_children :: "string \<Rightarrow> ('f, 'w) supervisor \<Rightarrow> supervisor_error + string list" where
  "affected_children i s =
     (case strategy (spec s) of
        OneForOne \<Rightarrow> Inr [i]
      | SimpleOneForOne \<Rightarrow> Inr [i]
      | OneForAll \<Rightarrow> Inr (map child_id (filter (\<lambda>c. child_id c = i \<or> is_running s (child_id c)) (spec_children (spec s))))
      | RestForOne \<Rightarrow>
          and_then (ok_or (ChildNotFound i) (position (\<lambda>c. child_id c = i) (spec_children (spec s)))) (\<lambda>k.
          Inr (map child_id (filter (\<lambda>c. child_id c = i \<or> is_running s (child_id c)) (drop k (spec_children (spec s)))))))"

definition handle_child_exit ::
  "('f, 'w) child_runtime_ops \<Rightarrow> string \<Rightarrow> exit_reason \<Rightarrow> ('f, 'w) supervisor \<Rightarrow> ('f, 'w, unit) sup_result" where
  "handle_child_exit R i reason s =
     (case hm_get (children s) i of
        None \<Rightarrow> Some (Inl (ChildNotFound i), s)
      | Some st \<Rightarrow>
          if \<not> should_restart (child_restart (state_spec st)) reason then stop_child R i s
          else (case affected_children i s of
              Inl e \<Rightarrow> Some (Inl e, s)
            | Inr ids \<Rightarrow> restart_children R ids s))"

fun exit_of_death :: "child_death_reason \<Rightarrow> exit_reason" where
  "exit_of_death DeathNormal = ExitNormal"
| "exit_of_death _ = ExitCrash"

definition handle_process_exit ::
  "('f, 'w) child_runtime_ops \<Rightarrow> u64 \<Rightarrow> child_death_reason \<Rightarrow> ('f, 'w) supervisor \<Rightarrow> ('f, 'w, unit) sup_result" where
  "handle_process_exit R p reason s =
     (case find (\<lambda>(i, st). child_process st = Some p) (children s) of
        None \<Rightarrow> Some (Inr (), s)
      | Some (i, _) \<Rightarrow> handle_child_exit R i (exit_of_death reason) s)"

fun stop_known :: "('f, 'w) child_runtime_ops \<Rightarrow> string list \<Rightarrow> ('f, 'w) supervisor \<Rightarrow> ('f, 'w, unit) sup_result" where
  "stop_known R [] s = Some (Inr (), s)"
| "stop_known R (i # ids) s =
     (if hm_get (children s) i = None then stop_known R ids s
      else sup_then (stop_child R i s) (\<lambda>_ s'. stop_known R ids s'))"

definition shutdown :: "('f, 'w) child_runtime_ops \<Rightarrow> ('f, 'w) supervisor \<Rightarrow> ('f, 'w, unit) sup_result" where
  "shutdown R s = stop_known R (rev (map child_id (spec_children (spec s)))) s"

section \<open>Reports\<close>

record child_info =
  info_id :: string
  info_process :: "u64 option"
  info_type :: child_type
  info_restarts :: u32

definition which_children :: "('f, 'w) supervisor \<Rightarrow> child_info list" where
  "which_children s = List.map_filter (\<lambda>c. map_option (\<lambda>st. \<lparr>info_id = child_id c, info_process = child_process st,
     info_type = child_kind (state_spec st), info_restarts = restart_count st\<rparr>) (hm_get (children s) (child_id c))) (spec_children (spec s))"

record children_count =
  count_specs :: usize
  count_active :: usize
  count_supervisors :: usize
  count_workers :: usize

definition count_children :: "('f, 'w) child_runtime_ops \<Rightarrow> ('f, 'w) supervisor \<Rightarrow> children_count" where
  "count_children R s = \<lparr>
     count_specs = length (spec_children (spec s)),
     count_active = length (filter (\<lambda>(i, st). case child_process st of None \<Rightarrow> False | Some p \<Rightarrow> rt_alive R (environment s) p) (children s)),
     count_supervisors = length (filter (\<lambda>c. child_kind c = SupervisorChild) (spec_children (spec s))),
     count_workers = length (filter (\<lambda>c. child_kind c = Worker) (spec_children (spec s)))\<rparr>"

section \<open>The supervisor process\<close>

text \<open>The guard kills what the tracker lists when the process ends without an orderly shutdown.\<close>

definition guard_drop :: "('f, 'w) child_runtime_ops \<Rightarrow> bool \<Rightarrow> ('f, 'w) supervisor \<Rightarrow> ('f, 'w) supervisor" where
  "guard_drop R armed s =
     (if \<not> armed then s
      else case cleanup_tracker s of None \<Rightarrow> s
        | Some ps \<Rightarrow> fold (\<lambda>p s. snd (send_kill R p s)) (rev ps) s)"

definition guard_disarm :: "('f, 'w) supervisor \<Rightarrow> ('f, 'w) supervisor" where
  "guard_disarm s = s\<lparr>cleanup_tracker := map_option (\<lambda>_. []) (cleanup_tracker s)\<rparr>"

datatype sup_event = ShutdownChanged bool | ProcessDied u64 child_death_reason | OtherMessage

datatype sup_loop = KeepRunning | ExitOk | ExitError supervisor_error

definition start_process ::
  "('f, 'w) child_runtime_ops \<Rightarrow> u64 \<Rightarrow> 'f supervisor_spec \<Rightarrow> 'w \<Rightarrow> (sup_loop \<times> ('f, 'w) supervisor) option" where
  "start_process R self sp w =
     map_option (\<lambda>(r, s). case r of Inr _ \<Rightarrow> (KeepRunning, s) | Inl e \<Rightarrow> (ExitError e, guard_drop R True s))
       (start_children R ((with_environment sp w)\<lparr>monitor := Some self, cleanup_tracker := Some []\<rparr>))"

definition sup_loop_step ::
  "('f, 'w) child_runtime_ops \<Rightarrow> sup_event \<Rightarrow> ('f, 'w) supervisor \<Rightarrow> (sup_loop \<times> ('f, 'w) supervisor) option" where
  "sup_loop_step R ev s =
     (case ev of
        ShutdownChanged stop \<Rightarrow>
          if stop then
            map_option (\<lambda>(r, s'). case r of Inr _ \<Rightarrow> (ExitOk, guard_disarm s') | Inl e \<Rightarrow> (ExitError e, guard_drop R True s')) (shutdown R s)
          else Some (KeepRunning, s)
      | OtherMessage \<Rightarrow> Some (KeepRunning, s)
      | ProcessDied p reason \<Rightarrow>
          Option.bind (handle_process_exit R p reason s) (\<lambda>(r, s1).
            case r of
              Inr _ \<Rightarrow> Some (KeepRunning, s1)
            | Inl e \<Rightarrow>
                map_option (\<lambda>(r2, s2). (ExitError (case r2 of Inl e2 \<Rightarrow> Escalated e e2 | Inr _ \<Rightarrow> e), guard_drop R True s2))
                  (shutdown R s1)))"


section \<open>What every operation keeps\<close>

named_theorems sup_simps

lemma sup_then_Some [sup_simps]:
  "sup_then m f = Some (r, s') \<longleftrightarrow> (\<exists>e s. m = Some (Inl e, s) \<and> r = Inl e \<and> s' = s) \<or> (\<exists>x s. m = Some (Inr x, s) \<and> f x s = Some (r, s'))"
  by (cases m) (auto simp: sup_then_def split: sum.splits prod.splits)

lemma sup_ignore_Some [sup_simps]: "sup_ignore m f = Some x \<longleftrightarrow> (\<exists>r s. m = Some (r, s) \<and> f s = Some x)"
  by (auto simp: sup_ignore_def bind_eq_Some_conv)

text \<open>
  A reflexive and transitive relation that stopping and starting one child respect is respected by every
  operation on groups.
\<close>

locale sup_preserved =
  fixes R :: "('f, 'w) child_runtime_ops" and Q :: "('f, 'w) supervisor \<Rightarrow> ('f, 'w) supervisor \<Rightarrow> bool"
  assumes refl: "Q s s" and trans: "Q s s1 \<Longrightarrow> Q s1 s2 \<Longrightarrow> Q s s2"
    and stop: "stop_child R i s = Some (r, s') \<Longrightarrow> Q s s'"
    and start: "start_child_internal R b i s = Some (q, s') \<Longrightarrow> Q s s'"
begin

lemma stop_each_Q: "stop_each R ids s = Some (r, s') \<Longrightarrow> Q s s'"
proof (induction ids arbitrary: s)
  case (Cons i ids)
  then show ?case by (auto simp: sup_simps dest: stop intro: trans)
qed (simp add: refl)

lemma stop_quietly_Q: "stop_quietly R ids s = Some (r, s') \<Longrightarrow> Q s s'"
proof (induction ids arbitrary: s)
  case (Cons i ids)
  then show ?case by (auto simp: sup_simps dest: stop intro: trans)
qed (simp add: refl)

lemma stop_known_Q: "stop_known R ids s = Some (r, s') \<Longrightarrow> Q s s'"
proof (induction ids arbitrary: s)
  case (Cons i ids)
  then show ?case by (auto simp: sup_simps split: if_splits dest: stop intro: trans)
qed (simp add: refl)

lemma start_each_Q: "start_each R b finished ids s = Some (r, s') \<Longrightarrow> Q s s'"
proof (induction ids arbitrary: finished s)
  case (Cons i ids)
  then obtain q s1 where s1: "start_child_internal R b i s = Some (q, s1)" by (auto simp: bind_eq_Some_conv)
  then show ?case
    using Cons trans[OF start[OF s1]] by (cases q) (auto simp: sup_simps dest: stop_quietly_Q)
qed (simp add: refl)

lemma shutdown_Q: "shutdown R s = Some (r, s') \<Longrightarrow> Q s s'"
  by (auto simp: shutdown_def dest: stop_known_Q)

lemma start_children_Q: "start_children R s = Some (r, s') \<Longrightarrow> Q s s'"
  by (auto simp: start_children_def dest: start_each_Q)

lemma restart_children_Q:
  "restart_children R ids s = Some (r, s') \<Longrightarrow> Q (snd (reserve_restart_events R ids s)) s'"
proof -
  assume res: "restart_children R ids s = Some (r, s')"
  obtain q s1 where s1: "reserve_restart_events R ids s = (q, s1)" by fastforce
  show ?thesis
  proof (cases q)
    case (Inl e)
    then show ?thesis using res s1 refl by (simp add: restart_children_def sup_then_def)
  next
    case (Inr u)
    then have "sup_then (stop_each R (rev ids) s1) (\<lambda>_ s2. start_each R True [] ids s2) = Some (r, s')"
      using res s1 by (simp add: restart_children_def sup_then_def)
    then have "Q s1 s'" by (auto simp: sup_simps dest!: stop_each_Q start_each_Q intro: trans)
    then show ?thesis using s1 by simp
  qed
qed

end

text \<open>Nothing but a reservation changes the history, and nothing changes the specification.\<close>

definition same_frame :: "('f, 'w) supervisor \<Rightarrow> ('f, 'w) supervisor \<Rightarrow> bool" where
  "same_frame s s' \<longleftrightarrow> spec s' = spec s \<and> restart_history s' = restart_history s \<and> monitor s' = monitor s \<and>
     (cleanup_tracker s' = None \<longleftrightarrow> cleanup_tracker s = None)"

lemma refresh_tracker_None [simp]: "cleanup_tracker (refresh_cleanup_tracker s) = None \<longleftrightarrow> cleanup_tracker s = None"
  by (simp add: refresh_cleanup_tracker_def split: option.splits)

lemma refresh_simps [simp]:
  "spec (refresh_cleanup_tracker s) = spec s" "environment (refresh_cleanup_tracker s) = environment s"
  "children (refresh_cleanup_tracker s) = children s" "restart_history (refresh_cleanup_tracker s) = restart_history s"
  "monitor (refresh_cleanup_tracker s) = monitor s"
  by (simp_all add: refresh_cleanup_tracker_def split: option.splits)

lemma clear_simps [simp]:
  "spec (clear_process i s) = spec s" "environment (clear_process i s) = environment s"
  "restart_history (clear_process i s) = restart_history s" "monitor (clear_process i s) = monitor s"
  "cleanup_tracker (clear_process i s) = cleanup_tracker s"
  by (simp_all add: clear_process_def split: option.splits)

lemma install_simps [simp]:
  "spec (install_child c p b s) = spec s" "environment (install_child c p b s) = environment s"
  "restart_history (install_child c p b s) = restart_history s" "monitor (install_child c p b s) = monitor s"
  "cleanup_tracker (install_child c p b s) = None \<longleftrightarrow> cleanup_tracker s = None"
  by (simp_all add: install_child_def Let_def)

definition only_env :: "('f, 'w) supervisor \<Rightarrow> ('f, 'w) supervisor \<Rightarrow> bool" where
  "only_env s s' \<longleftrightarrow> s' = s\<lparr>environment := environment s'\<rparr>"

lemma only_envD:
  "only_env s s' \<Longrightarrow> spec s' = spec s" "only_env s s' \<Longrightarrow> children s' = children s" "only_env s s' \<Longrightarrow> restart_history s' = restart_history s"
  "only_env s s' \<Longrightarrow> monitor s' = monitor s" "only_env s s' \<Longrightarrow> cleanup_tracker s' = cleanup_tracker s"
  unfolding only_env_def by (metis supervisor.select_convs supervisor.surjective supervisor.update_convs(2))+

lemma only_env_fields:
  "only_env s s' \<Longrightarrow> spec s' = spec s \<and> children s' = children s \<and> restart_history s' = restart_history s \<and>
     monitor s' = monitor s \<and> cleanup_tracker s' = cleanup_tracker s"
  using only_envD by blast

lemma only_env_update: "only_env s (s\<lparr>environment := w\<rparr>)"
  by (simp add: only_env_def)

lemma only_env_trans: "only_env s s1 \<Longrightarrow> only_env s1 s2 \<Longrightarrow> only_env s s2"
  by (intro iffD2[OF only_env_def] supervisor.equality) (simp_all add: only_envD)

lemma wait_environment: "wait_for_process_exit R i p l s = Some (r, s') \<Longrightarrow> only_env s s'"
  by (auto simp: wait_for_process_exit_def only_env_update)

lemma kill_environment: "only_env s (snd (send_kill R p s))"
  by (simp add: send_kill_def only_env_update split: prod.splits)

lemmas kill_simps [simp] = only_envD[OF kill_environment]

lemma abandon_environment: "abandon R i p e s = Some (r, s') \<Longrightarrow> only_env s s' \<and> r = Inl e"
  by (auto simp: abandon_def sup_simps dest!: wait_environment intro: only_env_trans[OF kill_environment])

section \<open>The outcomes of each operation\<close>

lemma monitor_child_cases:
  assumes "monitor_child R i p s = Some (r, s')"
  obtains (unmonitored) "monitor s = None" "r = Inr ()" "s' = s"
    | (send_failed) m e w where "monitor s = Some m" "rt_monitor R p m (environment s) = (Inl e, w)"
        "abandon R i p (MonitorFailed i p e) (s\<lparr>environment := w\<rparr>) = Some (r, s')"
    | (timed_out) m w w' where "monitor s = Some m" "rt_monitor R p m (environment s) = (Inr (), w)" "rt_await_monitor R p w = (False, w')"
        "abandon R i p (MonitorTimedOut i p) (s\<lparr>environment := w'\<rparr>) = Some (r, s')"
    | (monitored) m w w' where "monitor s = Some m" "rt_monitor R p m (environment s) = (Inr (), w)" "rt_await_monitor R p w = (True, w')"
        "r = Inr ()" "s' = s\<lparr>environment := w'\<rparr>"
proof (cases "monitor s")
  case None
  then have "r = Inr ()" "s' = s" using assms by (simp_all add: monitor_child_def)
  then show ?thesis using None unmonitored by blast
next
  case (Some m)
  obtain q w where q: "rt_monitor R p m (environment s) = (q, w)" by (metis surj_pair)
  obtain b w' where b: "rt_await_monitor R p w = (b, w')" by (metis surj_pair)
  show ?thesis
  proof (cases q)
    case (Inl e)
    then show ?thesis using assms Some q send_failed[of m e w] by (simp add: monitor_child_def)
  next
    case (Inr u)
    then show ?thesis
      using assms Some q b timed_out[of m w w'] monitored[of m w w'] by (cases b) (simp_all add: monitor_child_def)
  qed
qed

lemma monitor_environment: "monitor_child R i p s = Some (r, s') \<Longrightarrow> only_env s s'"
proof (erule monitor_child_cases)
  show "s' = s \<Longrightarrow> only_env s s'" by (simp add: only_env_def)
  show "abandon R i p e (s\<lparr>environment := w\<rparr>) = Some (r, s') \<Longrightarrow> only_env s s'" for e w
    by (drule abandon_environment) (blast intro: only_env_trans[OF only_env_update])
  then show "abandon R i p e (s\<lparr>environment := w\<rparr>) = Some (r, s') \<Longrightarrow> only_env s s'" for e w .
  show "s' = s\<lparr>environment := w\<rparr> \<Longrightarrow> only_env s s'" for w by (simp add: only_env_update)
qed

lemma launch_child_cases:
  assumes "launch_child R c b s = Some (r, s')"
  obtains (start_failed) e w where "rt_start R (child_start c) (environment s) = (Inl e, w)" "r = Inl (StartFailed (child_id c) e)" "s' = s\<lparr>environment := w\<rparr>"
    | (unmonitored) p w e where "rt_start R (child_start c) (environment s) = (Inr p, w)"
        "monitor_child R (child_id c) p (s\<lparr>environment := w\<rparr>) = Some (Inl e, s')" "r = Inl e"
    | (unregistered) p w s1 where "rt_start R (child_start c) (environment s) = (Inr p, w)"
        "monitor_child R (child_id c) p (s\<lparr>environment := w\<rparr>) = Some (Inr (), s1)" "s' = snd (send_kill R p s1)"
        "r = Inl (UnregisteredProcess (child_id c) p)"
    | (installed) p w s1 where "rt_start R (child_start c) (environment s) = (Inr p, w)"
        "monitor_child R (child_id c) p (s\<lparr>environment := w\<rparr>) = Some (Inr (), s1)" "s' = install_child c p b s1" "r = Inr p"
proof -
  obtain q w where st: "rt_start R (child_start c) (environment s) = (q, w)" by fastforce
  show ?thesis
  proof (cases q)
    case (Inl e)
    then show ?thesis using assms st start_failed by (simp add: launch_child_def)
  next
    case (Inr p)
    then show ?thesis
      using assms st unmonitored[of p w] unregistered[of p w] installed[of p w]
      by (auto simp: launch_child_def sup_simps split: if_splits)
  qed
qed

lemma start_child_cases:
  assumes "start_child_internal R b i s = Some (r, s')"
  obtains (refused) e where "r = Inl e" "s' = s"
    | (launched) c where "find (\<lambda>c. child_id c = i) (spec_children (spec s)) = Some c"
        "\<And>p. Option.bind (hm_get (children s) i) child_process = Some p \<Longrightarrow> \<not> rt_alive R (environment s) p"
        "launch_child R c b (refresh_cleanup_tracker (clear_process i s)) = Some (r, s')"
  using assms unfolding start_child_internal_def by (auto split: if_splits option.splits)

lemma stop_child_cases:
  assumes "stop_child R i s = Some (r, s')"
  obtains (idle) "s' = s" "r = Inr () \<Longrightarrow> \<exists>st. hm_get (children s) i = Some st \<and> child_process st = None"
    | (dead) st p where "hm_get (children s) i = Some st" "child_process st = Some p" "\<not> rt_alive R (environment s) p"
        "r = Inr ()" "s' = refresh_cleanup_tracker (clear_process i s)"
    | (kill_failed) st p e where "hm_get (children s) i = Some st" "child_process st = Some p"
        "r = Inl (StopFailed i e)" "s' = snd (send_kill R p s)"
    | (timed_out) st p e where "hm_get (children s) i = Some st" "child_process st = Some p"
        "wait_for_process_exit R i p (shutdown_timeout (child_shutdown (state_spec st))) (snd (send_kill R p s)) = Some (Inl e, s')" "r = Inl e"
    | (stopped) st p s1 where "hm_get (children s) i = Some st" "child_process st = Some p"
        "wait_for_process_exit R i p (shutdown_timeout (child_shutdown (state_spec st))) (snd (send_kill R p s)) = Some (Inr (), s1)"
        "r = Inr ()" "s' = refresh_cleanup_tracker (clear_process i s1)"
proof (cases "Option.bind (hm_get (children s) i) child_process")
  case None
  then show ?thesis using assms idle by (auto simp: stop_child_def bind_eq_None_conv split: if_splits option.splits)
next
  case (Some p)
  then obtain st where st: "hm_get (children s) i = Some st" "child_process st = Some p" by (auto simp: bind_eq_Some_conv)
  obtain q s1 where k: "send_kill R p s = (q, s1)" by fastforce
  consider "\<not> rt_multi_thread R (environment s)" | "rt_multi_thread R (environment s)" "\<not> rt_alive R (environment s) p"
    | e where "rt_multi_thread R (environment s)" "rt_alive R (environment s) p" "q = Inl e"
    | "rt_multi_thread R (environment s)" "rt_alive R (environment s) p" "q = Inr ()"
    by (cases q) auto
  then show ?thesis
  proof cases
    case 1
    then show ?thesis using assms idle by (auto simp: stop_child_def)
  next
    case 2
    then show ?thesis using assms st dead by (simp add: stop_child_def)
  next
    case (3 e)
    then show ?thesis using assms st k kill_failed[OF st, of e] by (simp add: stop_child_def)
  next
    case 4
    then have "sup_then (wait_for_process_exit R i p (shutdown_timeout (child_shutdown (state_spec st))) s1)
        (\<lambda>_ s2. Some (Inr (), refresh_cleanup_tracker (clear_process i s2))) = Some (r, s')"
      using assms st k by (simp add: stop_child_def)
    then show ?thesis using k timed_out[OF st] stopped[OF st] by (auto simp: sup_simps)
  qed
qed

lemma stop_child_frame: "stop_child R i s = Some (r, s') \<Longrightarrow> same_frame s s'"
  by (erule stop_child_cases) (auto simp: same_frame_def dest!: wait_environment only_env_fields)

lemma launch_child_frame: "launch_child R c b s = Some (r, s') \<Longrightarrow> same_frame s s'"
  by (erule launch_child_cases) (auto simp: same_frame_def dest!: monitor_environment only_env_fields)

lemma start_child_frame: "start_child_internal R b i s = Some (r, s') \<Longrightarrow> same_frame s s'"
  by (erule start_child_cases) (auto simp: same_frame_def dest!: launch_child_frame)

interpretation frame: sup_preserved R same_frame for R
  by unfold_locales (auto simp: stop_child_frame start_child_frame, auto simp: same_frame_def)

end
