(* ===== verification/Supervision.thy ===== *)
theory Supervision
  imports Supervisor Environment
begin

text \<open>
  What the supervisor guarantees: the bound on restarts, that no child is left behind, which children a
  restart touches, and that it does not wait for ever.  The locale \<open>child_runtime\<close> is what it relies on of the
  environment; the model of the environment with a start function that admits a process satisfies it.
\<close>

section \<open>Restart intensity\<close>

definition restart_events :: "u64 \<Rightarrow> string list \<Rightarrow> restart_event list" where
  "restart_events now ids = map (\<lambda>i. \<lparr>timestamp = now, event_child = i\<rparr>) ids"

text \<open>The restarts that one exit is granted.\<close>

definition granted :: "('f, 'w) child_runtime_ops \<Rightarrow> u64 \<Rightarrow> child_death_reason \<Rightarrow> ('f, 'w) supervisor \<Rightarrow> restart_event list" where
  "granted R p reason s =
     (case find (\<lambda>(i, st). child_process st = Some p) (children s) of
        None \<Rightarrow> []
      | Some (i, _) \<Rightarrow> (case hm_get (children s) i of
            None \<Rightarrow> []
          | Some st \<Rightarrow>
              if \<not> should_restart (child_restart (state_spec st)) (exit_of_death reason) then []
              else (case affected_children i s of
                  Inl e \<Rightarrow> []
                | Inr ids \<Rightarrow> (case fst (reserve_restart_events R ids s) of
                    Inl e \<Rightarrow> [] | Inr _ \<Rightarrow> restart_events (rt_now R (environment s)) ids))))"

text \<open>A run of the supervisor over exits, each met in some state of the environment, with all granted restarts.\<close>

fun run_exits ::
  "('f, 'w) child_runtime_ops \<Rightarrow> (u64 \<times> child_death_reason \<times> 'w) list \<Rightarrow> ('f, 'w) supervisor \<Rightarrow> (restart_event list \<times> ('f, 'w) supervisor) option" where
  "run_exits R [] s = Some ([], s)"
| "run_exits R ((p, reason, w) # evs) s =
     Option.bind (handle_process_exit R p reason (s\<lparr>environment := w\<rparr>)) (\<lambda>(r, s').
       map_option (\<lambda>(log, s2). (granted R p reason (s\<lparr>environment := w\<rparr>) @ log, s2)) (run_exits R evs s'))"

definition in_window :: "u64 \<Rightarrow> u32 \<Rightarrow> restart_event \<Rightarrow> bool" where
  "in_window t secs e \<longleftrightarrow> t \<le> timestamp e \<and> unat (timestamp e) \<le> unat t + unat secs"

definition recent :: "u64 \<Rightarrow> u32 \<Rightarrow> restart_event list \<Rightarrow> restart_event list" where
  "recent now secs = filter (\<lambda>e. saturating_sub now (ucast secs) \<le> timestamp e)"

text \<open>The history holds what a later reservation has to count of the whole log.\<close>

definition history_covers :: "u64 \<Rightarrow> u32 \<Rightarrow> u32 \<Rightarrow> restart_event list \<Rightarrow> restart_event list \<Rightarrow> bool" where
  "history_covers now secs most log hist \<longleftrightarrow> (\<forall>e \<in> set log. timestamp e \<le> now) \<and>
     recent now secs log = recent now secs hist \<and> (\<forall>t. length (filter (in_window t secs) log) \<le> unat most)"

lemma unat_saturating_sub: "unat (saturating_sub a b) = unat a - unat b"
  by (auto simp: saturating_sub_def unat_sub_if' word_less_nat_alt)

lemma unat_secs [simp]: "unat (ucast (secs :: u32) :: u64) = unat secs"
  using unsigned_less[where ?'a = nat, of secs] by (simp add: unsigned_ucast_eq take_bit_nat_eq_self_iff)

lemma recent_later: "now \<le> now' \<Longrightarrow> recent now' secs (recent now secs xs) = recent now' secs xs"
  by (auto simp: recent_def filter_filter word_le_nat_alt unat_saturating_sub intro!: filter_cong)

lemma recent_mono: "now \<le> now' \<Longrightarrow> recent now secs xs = recent now secs ys \<Longrightarrow> recent now' secs xs = recent now' secs ys"
  by (metis recent_later)

lemma history_covers_later:
  "history_covers now secs most log hist \<Longrightarrow> now \<le> now' \<Longrightarrow> history_covers now' secs most log hist"
  unfolding history_covers_def using recent_mono order.trans by blast

lemma filter_length_mono: "(\<And>x. x \<in> set xs \<Longrightarrow> P x \<Longrightarrow> Q x) \<Longrightarrow> length (filter P xs) \<le> length (filter Q xs)"
  by (induction xs) auto

lemma grant_covers:
  assumes "history_covers now secs most log hist" "length (recent now secs hist) + length ids \<le> unat most"
  shows "history_covers now secs most (log @ restart_events now ids) (recent now secs hist @ restart_events now ids)"
proof -
  have old: "recent now secs log = recent now secs hist" "\<And>t. length (filter (in_window t secs) log) \<le> unat most"
    using assms(1) by (simp_all add: history_covers_def)
  have "length (filter (in_window t secs) (log @ restart_events now ids)) \<le> unat most" for t
  proof (cases "t \<le> now \<and> unat now \<le> unat t + unat secs")
    case True
    then have "length (filter (in_window t secs) log) \<le> length (recent now secs log)"
      unfolding recent_def by (intro filter_length_mono) (auto simp: in_window_def word_le_nat_alt unat_saturating_sub)
    moreover have "length (filter (in_window t secs) (restart_events now ids)) \<le> length ids"
      by (metis length_filter_le length_map restart_events_def)
    ultimately show ?thesis using assms(2) old(1) by simp
  next
    case False
    then have "filter (in_window t secs) (restart_events now ids) = []"
      by (auto simp: restart_events_def in_window_def filter_empty_conv)
    then show ?thesis using old(2) by simp
  qed
  moreover have "recent now secs (log @ restart_events now ids) = recent now secs (recent now secs hist @ restart_events now ids)"
    using old(1) by (simp add: recent_def)
  ultimately show ?thesis using assms(1) by (auto simp: history_covers_def restart_events_def)
qed

lemma drop_covers: "history_covers now secs most log hist \<Longrightarrow> history_covers now secs most log (recent now secs hist)"
  by (simp add: history_covers_def recent_later)

lemma reserve_covers:
  assumes "history_covers (rt_now R (environment s)) (max_seconds (spec s)) (max_restarts (spec s)) log (restart_history s)"
    "reserve_restart_events R ids s = (r, s')"
  shows "history_covers (rt_now R (environment s)) (max_seconds (spec s)) (max_restarts (spec s))
      (log @ (case r of Inl e \<Rightarrow> [] | Inr _ \<Rightarrow> restart_events (rt_now R (environment s)) ids)) (restart_history s') \<and> spec s' = spec s"
  using assms(2) drop_covers[OF assms(1)] grant_covers[OF assms(1), of ids]
  by (auto simp: reserve_restart_events_def Let_def recent_def restart_events_def split: if_splits)

lemma exit_covers:
  assumes cov: "history_covers (rt_now R (environment s)) (max_seconds (spec s)) (max_restarts (spec s)) log (restart_history s)"
    and res: "handle_process_exit R p reason s = Some (r, s')"
  shows "history_covers (rt_now R (environment s)) (max_seconds (spec s)) (max_restarts (spec s))
      (log @ granted R p reason s) (restart_history s') \<and> spec s' = spec s"
proof -
  consider "granted R p reason s = []" "same_frame s s'"
    | ids where "granted R p reason s = (case fst (reserve_restart_events R ids s) of Inl e \<Rightarrow> [] | Inr _ \<Rightarrow> restart_events (rt_now R (environment s)) ids)"
        "restart_children R ids s = Some (r, s')"
    using res frame.refl[of s]
    by (auto simp: handle_process_exit_def handle_child_exit_def granted_def split: option.splits if_splits sum.splits dest!: stop_child_frame)
  then show ?thesis
  proof cases
    case 1
    then show ?thesis using cov by (simp add: same_frame_def)
  next
    case (2 ids)
    then show ?thesis
      using frame.restart_children_Q[OF 2(2)] reserve_covers[OF cov, of ids "fst (reserve_restart_events R ids s)"]
      by (simp add: same_frame_def)
  qed
qed


lemma run_exits_covers:
  assumes "history_covers now (max_seconds (spec s)) (max_restarts (spec s)) log (restart_history s)"
    "sorted (now # map (\<lambda>(p, reason, w). rt_now R w) evs)" "run_exits R evs s = Some (granted_log, s')"
  shows "\<forall>t. length (filter (in_window t (max_seconds (spec s))) (log @ granted_log)) \<le> unat (max_restarts (spec s))"
  using assms
proof (induction evs arbitrary: now log s granted_log)
  case Nil
  then show ?case by (simp add: history_covers_def)
next
  case (Cons ev evs)
  obtain p reason w where ev: "ev = (p, reason, w)" by (cases ev)
  let ?s = "s\<lparr>environment := w\<rparr>"
  obtain r s1 rest where step: "handle_process_exit R p reason ?s = Some (r, s1)" "run_exits R evs s1 = Some (rest, s')"
    "granted_log = granted R p reason ?s @ rest"
    using Cons.prems(3) ev by (auto simp: bind_eq_Some_conv)
  have "history_covers (rt_now R w) (max_seconds (spec s)) (max_restarts (spec s)) log (restart_history s)"
    using history_covers_later[OF Cons.prems(1)] Cons.prems(2) ev by simp
  then have cov: "history_covers (rt_now R w) (max_seconds (spec s)) (max_restarts (spec s)) (log @ granted R p reason ?s) (restart_history s1)"
    and same: "spec s1 = spec s"
    using exit_covers[of R ?s log p reason r s1] step(1) by simp_all
  then show ?case using Cons.IH[of "rt_now R w" s1 "log @ granted R p reason ?s" rest] Cons.prems(2) ev step(2,3) by simp
qed



section \<open>No child is left behind\<close>

definition owned :: "('f, 'w) supervisor \<Rightarrow> u64 set" where
  "owned s = {p. \<exists>i st. hm_get (children s) i = Some st \<and> child_process st = Some p}"

definition evolves ::
  "('f, 'w) child_runtime_ops \<Rightarrow> ('w \<Rightarrow> u64 set) \<Rightarrow> ('w \<Rightarrow> u64 set) \<Rightarrow> 'w \<Rightarrow> 'w \<Rightarrow> bool" where
  "evolves R started signalled w w' \<longleftrightarrow> started w' = started w \<and> signalled w \<subseteq> signalled w' \<and>
     (\<forall>p \<in> started w. rt_alive R w' p \<longrightarrow> rt_alive R w p)"

text \<open>
  The environment: \<open>started w\<close> are the processes that start functions have returned and \<open>signalled w\<close> those
  that were sent \<open>Kill\<close>.  A process id is not used again, a dead process stays dead, and a start function that
  fails leaves no process.
\<close>

locale child_runtime =
  fixes R :: "('f, 'w) child_runtime_ops" and started :: "'w \<Rightarrow> u64 set" and signalled :: "'w \<Rightarrow> u64 set"
  assumes sleep_evolves: "evolves R started signalled w (rt_sleep R w)"
    and monitor_evolves: "rt_monitor R p m w = (r, w1) \<Longrightarrow> evolves R started signalled w w1"
    and await_evolves: "rt_await_monitor R p w = (b, w1) \<Longrightarrow> evolves R started signalled w w1"
    and kill_evolves: "rt_kill R p w = (r, w1) \<Longrightarrow> evolves R started signalled w w1 \<and> p \<in> signalled w1"
    and start_failed: "rt_start R f w = (Inl e, w1) \<Longrightarrow> evolves R started signalled w w1"
    and start_fresh: "rt_start R f w = (Inr p, w1) \<Longrightarrow> p \<notin> started w \<and> started w1 = insert p (started w) \<and>
      signalled w \<subseteq> signalled w1 \<and> (\<forall>q \<in> started w. rt_alive R w1 q \<longrightarrow> rt_alive R w q)"

text \<open>
  Every live process a start function returned is a child or was sent \<open>Kill\<close>, apart from those in \<open>X\<close>; and the
  tracker of the guard lists the children.
\<close>

definition safe_but ::
  "('f, 'w) child_runtime_ops \<Rightarrow> ('w \<Rightarrow> u64 set) \<Rightarrow> ('w \<Rightarrow> u64 set) \<Rightarrow> u64 set \<Rightarrow> ('f, 'w) supervisor \<Rightarrow> bool" where
  "safe_but R started signalled X s \<longleftrightarrow>
     (\<forall>p \<in> started (environment s) - X. rt_alive R (environment s) p \<longrightarrow> p \<in> owned s \<or> p \<in> signalled (environment s)) \<and>
     owned s \<subseteq> started (environment s)"

definition tracker_ok :: "('f, 'w) supervisor \<Rightarrow> bool" where
  "tracker_ok s \<longleftrightarrow> (\<forall>ps. cleanup_tracker s = Some ps \<longrightarrow> set ps = owned s) \<and>
     hm_keys (children s) \<subseteq> child_id ` set (spec_children (spec s))"

definition safe :: "('f, 'w) child_runtime_ops \<Rightarrow> ('w \<Rightarrow> u64 set) \<Rightarrow> ('w \<Rightarrow> u64 set) \<Rightarrow> ('f, 'w) supervisor \<Rightarrow> bool" where
  "safe R started signalled s \<longleftrightarrow> safe_but R started signalled {} s \<and> tracker_ok s"

lemma owned_env [simp]: "owned (s\<lparr>environment := w\<rparr>) = owned s"
  by (simp add: owned_def)

lemma owned_refresh [simp]: "owned (refresh_cleanup_tracker s) = owned s"
  by (simp add: owned_def)

lemma owned_clear: "q \<in> owned s \<Longrightarrow> Option.bind (hm_get (children s) i) child_process \<noteq> Some q \<Longrightarrow> q \<in> owned (clear_process i s)"
  by (auto simp: owned_def clear_process_def hm_get_insert split: option.splits) (metis bind.bind_lunit option.inject)+

lemma owned_clear_subset: "owned (clear_process i s) \<subseteq> owned s"
  by (auto simp: owned_def clear_process_def hm_get_insert split: option.splits if_splits)

lemma clear_get: "hm_get (children (clear_process i s)) j =
    (if j = i then map_option (\<lambda>st. st\<lparr>child_process := None\<rparr>) (hm_get (children s) i) else hm_get (children s) j)"
  by (auto simp: clear_process_def hm_get_insert split: option.splits)

lemma install_get: "hm_get (children (install_child c p b s)) j = (if j = child_id c then
    Some (case hm_get (children s) (child_id c) of
        Some st \<Rightarrow> st\<lparr>state_spec := c, child_process := Some p,
          restart_count := (if b \<and> restart_count st \<noteq> - 1 then restart_count st + 1 else restart_count st)\<rparr>
      | None \<Rightarrow> \<lparr>state_spec = c, child_process = Some p, restart_count = (if b then 1 else 0)\<rparr>)
    else hm_get (children s) j)"
  by (simp add: install_child_def Let_def hm_get_insert)

lemma owned_install:
  assumes "Option.bind (hm_get (children s) (child_id c)) child_process = None"
  shows "owned (install_child c p b s) = insert p (owned s)"
proof -
  have "q \<in> owned (install_child c p b s) \<longleftrightarrow> q = p \<or> q \<in> owned s" for q
    using assms unfolding owned_def install_get
    by (auto split: option.splits if_splits) (metis bind.bind_lunit option.distinct(1))+
  then show ?thesis by blast
qed

lemma tracker_refresh:
  assumes "hm_keys (children s) \<subseteq> child_id ` set (spec_children (spec s))"
  shows "tracker_ok (refresh_cleanup_tracker s)"
proof -
  have "set (List.map_filter (\<lambda>c. Option.bind (hm_get (children s) (child_id c)) child_process) (spec_children (spec s))) = owned s"
  proof -
    have "set (List.map_filter f xs) = {y. \<exists>x \<in> set xs. f x = Some y}" for f :: "'a child_spec \<Rightarrow> u64 option" and xs
      by (induction xs) (auto simp: map_filter_simps split: option.splits)
    moreover have "\<exists>c \<in> set (spec_children (spec s)). child_id c = i" if "hm_get (children s) i = Some st" for i st
      using hm_get_SomeD[OF that] assms by auto
    ultimately show ?thesis unfolding owned_def by (auto simp: bind_eq_Some_conv) blast+
  qed
  then show ?thesis using assms by (auto simp: tracker_ok_def refresh_cleanup_tracker_def owned_def split: option.splits)
qed


lemma evolves_refl: "evolves R started signalled w w"
  by (simp add: evolves_def)

lemma evolves_trans: "evolves R started signalled w w1 \<Longrightarrow> evolves R started signalled w1 w2 \<Longrightarrow> evolves R started signalled w w2"
  unfolding evolves_def by (metis order.trans)

lemma safe_but_evolves:
  "safe_but R started signalled X s \<Longrightarrow> evolves R started signalled (environment s) w \<Longrightarrow> safe_but R started signalled X (s\<lparr>environment := w\<rparr>)"
  by (auto simp: safe_but_def evolves_def)

lemma safe_but_only_env:
  "safe_but R started signalled X s \<Longrightarrow> only_env s s' \<Longrightarrow> evolves R started signalled (environment s) (environment s') \<Longrightarrow>
     safe_but R started signalled X s'"
  using safe_but_evolves[of R started signalled X s "environment s'"] by (simp add: only_env_def)

lemma safe_but_refresh [simp]: "safe_but R started signalled X (refresh_cleanup_tracker s) = safe_but R started signalled X s"
  by (simp add: safe_but_def)

lemma safe_but_clear:
  assumes "safe_but R started signalled X s" "\<And>p. Option.bind (hm_get (children s) i) child_process = Some p \<Longrightarrow> \<not> rt_alive R (environment s) p"
  shows "safe_but R started signalled X (clear_process i s)"
  using assms owned_clear[of _ s i] owned_clear_subset[of i s] unfolding safe_but_def clear_simps by blast

lemma clear_keys [simp]: "hm_keys (children (clear_process i s)) = hm_keys (children s)"
  by (auto simp: clear_process_def hm_keys_insert split: option.splits dest: hm_get_SomeD)

lemma tracker_clear: "tracker_ok s \<Longrightarrow> tracker_ok (refresh_cleanup_tracker (clear_process i s))"
  by (rule tracker_refresh) (simp add: tracker_ok_def)

lemma tracker_only_env: "tracker_ok s \<Longrightarrow> only_env s s' \<Longrightarrow> tracker_ok s'"
  by (drule only_env_fields) (simp add: tracker_ok_def owned_def)

lemma safe_only_env:
  "safe R started signalled s \<Longrightarrow> only_env s s' \<Longrightarrow> evolves R started signalled (environment s) (environment s') \<Longrightarrow> safe R started signalled s'"
  unfolding safe_def using safe_but_only_env tracker_only_env by blast

lemma wait_loop_sleeps:
  assumes "wait_loop R p limit since w = Some y"
  shows "(\<exists>n. snd y = (rt_sleep R ^^ n) w) \<and> (fst y \<longrightarrow> \<not> rt_alive R (snd y) p)"
proof (rule wait_loop.raw_induct[where P = "\<lambda>R p limit since w y. (\<exists>n. snd y = (rt_sleep R ^^ n) w) \<and> (fst y \<longrightarrow> \<not> rt_alive R (snd y) p)", OF _ assms])
  fix loop and R :: "('f, 'w) child_runtime_ops" and p limit since w y
  assume 1: "\<And>R p limit since w y. loop R p limit since w = Some y \<Longrightarrow> (\<exists>n. snd y = (rt_sleep R ^^ n) w) \<and> (fst y \<longrightarrow> \<not> rt_alive R (snd y) p)"
    "(if \<not> rt_alive R w p then Some (True, w) else if case limit of None \<Rightarrow> False | Some l \<Rightarrow> l \<le> rt_millis R w - since then Some (False, w)
      else loop R p limit since (rt_sleep R w)) = Some y"
  show "(\<exists>n. snd y = (rt_sleep R ^^ n) w) \<and> (fst y \<longrightarrow> \<not> rt_alive R (snd y) p)"
  proof (cases "rt_alive R w p \<and> \<not> (case limit of None \<Rightarrow> False | Some l \<Rightarrow> l \<le> rt_millis R w - since)")
    case True
    then have "loop R p limit since (rt_sleep R w) = Some y" using 1(2) by simp
    from 1(1)[OF this] show ?thesis by (metis comp_apply funpow_Suc_right)
  next
    case False
    then have "y = (\<not> rt_alive R w p, w)" using 1(2) by (auto split: if_splits)
    then show ?thesis by (metis fst_conv funpow_0 snd_conv)
  qed
qed

context child_runtime
begin

lemma sleeps_evolve: "evolves R started signalled w ((rt_sleep R ^^ n) w)"
  by (induction n) (auto intro: evolves_refl evolves_trans[OF _ sleep_evolves])

lemma wait_loop_evolves:
  "wait_loop R p limit since w = Some (gone, w1) \<Longrightarrow> evolves R started signalled w w1 \<and> (gone \<longrightarrow> \<not> rt_alive R w1 p)"
  using wait_loop_sleeps[of R p limit since w "(gone, w1)"] sleeps_evolve by auto

lemma wait_evolves:
  "wait_for_process_exit R i p limit s = Some (r, s') \<Longrightarrow>
     evolves R started signalled (environment s) (environment s') \<and> (r = Inr () \<longrightarrow> \<not> rt_alive R (environment s') p)"
  by (auto simp: wait_for_process_exit_def dest!: wait_loop_evolves split: if_splits)

lemma send_kill_evolves:
  "evolves R started signalled (environment s) (environment (snd (send_kill R p s))) \<and> p \<in> signalled (environment (snd (send_kill R p s)))"
  using kill_evolves by (simp add: send_kill_def split: prod.splits)

lemma abandon_evolves:
  assumes "abandon R i p e s = Some (r, s')"
  shows "evolves R started signalled (environment s) (environment s') \<and> p \<in> signalled (environment s')"
proof -
  obtain q where "wait_for_process_exit R i p (Some brutal_shutdown_timeout) (snd (send_kill R p s)) = Some (q, s')"
    using assms by (auto simp: abandon_def sup_simps)
  then show ?thesis using wait_evolves send_kill_evolves[of s p] evolves_trans unfolding evolves_def by blast
qed

lemma monitor_child_evolves:
  assumes "monitor_child R i p s = Some (r, s')"
  shows "evolves R started signalled (environment s) (environment s') \<and> (r \<noteq> Inr () \<longrightarrow> p \<in> signalled (environment s'))"
  using assms
proof (cases rule: monitor_child_cases)
  case (send_failed m e w)
  then show ?thesis using abandon_evolves[OF send_failed(3)] evolves_trans[OF monitor_evolves[OF send_failed(2)]] by simp
next
  case (timed_out m w w')
  then show ?thesis
    using abandon_evolves[OF timed_out(4)] evolves_trans[OF evolves_trans[OF monitor_evolves[OF timed_out(2)] await_evolves[OF timed_out(3)]]] by simp
next
  case (monitored m w w')
  then show ?thesis using evolves_trans[OF monitor_evolves[OF monitored(2)] await_evolves[OF monitored(3)]] by simp
qed (simp add: evolves_refl)

lemma stop_child_safe:
  assumes "stop_child R i s = Some (r, s')" "safe R started signalled s"
  shows "safe R started signalled s'"
  using assms(1)
proof (cases rule: stop_child_cases)
  case (dead st p)
  then have "safe_but R started signalled {} (clear_process i s)" using assms(2) by (intro safe_but_clear) (simp_all add: safe_def)
  then show ?thesis using dead(5) assms(2) tracker_clear[of s i] by (simp add: safe_def)
next
  case (kill_failed st p e)
  then show ?thesis using safe_only_env[OF assms(2) kill_environment conjunct1[OF send_kill_evolves]] by simp
next
  case (timed_out st p e)
  show ?thesis
    using safe_only_env[OF assms(2) only_env_trans[OF kill_environment wait_environment[OF timed_out(3)]]]
      evolves_trans[OF conjunct1[OF send_kill_evolves] conjunct1[OF wait_evolves[OF timed_out(3)]]] .
next
  case (stopped st p s1)
  have env: "only_env s s1" using only_env_trans[OF kill_environment wait_environment[OF stopped(3)]] .
  have "safe R started signalled s1"
    using safe_only_env[OF assms(2) env evolves_trans[OF conjunct1[OF send_kill_evolves] conjunct1[OF wait_evolves[OF stopped(3)]]]] .
  then have "safe_but R started signalled {} s1" "tracker_ok s1" by (simp_all add: safe_def)
  moreover have "Option.bind (hm_get (children s1) i) child_process = Some p" "\<not> rt_alive R (environment s1) p"
    using stopped(1,2) only_env_fields[OF env] wait_evolves[OF stopped(3)] by simp_all
  ultimately have "safe_but R started signalled {} (clear_process i s1)" by (intro safe_but_clear) simp_all
  then show ?thesis using stopped(5) tracker_clear[OF \<open>tracker_ok s1\<close>] by (simp add: safe_def)
qed (use assms(2) in simp)

lemma launch_child_safe:
  assumes res: "launch_child R c b s = Some (r, s')" and safe: "safe R started signalled s"
    and free: "Option.bind (hm_get (children s) (child_id c)) child_process = None" and c: "c \<in> set (spec_children (spec s))"
  shows "safe R started signalled s'"
proof -
  have s: "safe_but R started signalled {} s" "tracker_ok s" using safe by (simp_all add: safe_def)
  have started: "safe_but R started signalled {p} (s\<lparr>environment := w\<rparr>)" if "rt_start R (child_start c) (environment s) = (Inr p, w)" for p w
    using s(1) start_fresh[OF that] by (auto simp: safe_but_def)
  have monitored: "safe_but R started signalled {p} s1" "only_env s s1" "q \<noteq> Inr () \<longrightarrow> p \<in> signalled (environment s1)"
    if st: "rt_start R (child_start c) (environment s) = (Inr p, w)"
      and m: "monitor_child R (child_id c) p (s\<lparr>environment := w\<rparr>) = Some (q, s1)" for p w q s1
    using safe_but_only_env[OF started[OF st] monitor_environment[OF m]] monitor_child_evolves[OF m]
      only_env_trans[OF only_env_update monitor_environment[OF m]] by simp_all
  show ?thesis
    using res
  proof (cases rule: launch_child_cases)
    case (start_failed e w)
    have "evolves R started signalled (environment s) w" using child_runtime.start_failed[OF child_runtime_axioms start_failed(1)] .
    then show ?thesis using safe_only_env[OF safe only_env_update, of w] start_failed(3) by simp
  next
    case (unmonitored p w e)
    have "safe_but R started signalled {} s'"
      using monitored(1,3)[OF unmonitored(1,2)] by (auto simp: safe_but_def)
    then show ?thesis using tracker_only_env[OF s(2) monitored(2)[OF unmonitored(1,2)]] by (simp add: safe_def)
  next
    case (unregistered p w s1)
    have "safe_but R started signalled {p} s'"
      using safe_but_only_env[OF monitored(1)[OF unregistered(1,2)] kill_environment] send_kill_evolves unregistered(3) by blast
    moreover have "p \<in> signalled (environment s')" using send_kill_evolves unregistered(3) by blast
    moreover have "tracker_ok s'"
      using tracker_only_env[OF s(2) only_env_trans[OF monitored(2)[OF unregistered(1,2)] kill_environment]] unregistered(3) by simp
    ultimately show ?thesis by (auto simp: safe_def safe_but_def)
  next
    case (installed p w s1)
    note fields = only_env_fields[OF monitored(2)[OF installed(1,2)]]
    have own: "owned s' = insert p (owned s1)" unfolding installed(3) by (rule owned_install) (use free fields in simp)
    have "p \<in> started (environment s1)"
      using start_fresh[OF installed(1)] monitor_child_evolves[OF installed(2)] by (simp add: evolves_def)
    then have "safe_but R started signalled {} s'"
      using monitored(1)[OF installed(1,2)] own unfolding safe_but_def installed(3) install_simps by auto
    moreover have "tracker_ok s'" unfolding installed(3) install_child_def Let_def
      by (rule tracker_refresh) (use s(2) fields c in \<open>auto simp: tracker_ok_def hm_keys_insert\<close>)
    ultimately show ?thesis by (simp add: safe_def)
  qed
qed

lemma start_child_safe:
  assumes "start_child_internal R b i s = Some (r, s')" "safe R started signalled s"
  shows "safe R started signalled s'"
  using assms(1)
proof (cases rule: start_child_cases)
  case (launched c)
  have c: "c \<in> set (spec_children (spec s))" "child_id c = i" using launched(1) by (auto simp: find_Some_iff)
  have "safe_but R started signalled {} (clear_process i s)"
    using assms(2) launched(2) by (intro safe_but_clear) (simp_all add: safe_def)
  then have "safe R started signalled (refresh_cleanup_tracker (clear_process i s))"
    using assms(2) tracker_clear[of s i] by (simp add: safe_def)
  then show ?thesis using launch_child_safe[OF launched(3)] c by (simp add: clear_get bind_map_option comp_def)
qed (use assms(2) in simp)

end

sublocale child_runtime < keeps: sup_preserved R "\<lambda>s s'. safe R started signalled s \<longrightarrow> safe R started signalled s'"
  by unfold_locales (auto dest: stop_child_safe start_child_safe)


lemma stop_child_result:
  assumes "stop_child R i s = Some (r, s')"
  shows "(\<forall>j. j \<noteq> i \<longrightarrow> hm_get (children s') j = hm_get (children s) j) \<and>
    (r = Inr () \<longrightarrow> hm_get (children s') i \<noteq> None \<and> hm_get (children s') i = map_option (\<lambda>st. st\<lparr>child_process := None\<rparr>) (hm_get (children s) i))"
  using assms
proof (cases rule: stop_child_cases)
  case idle
  then show ?thesis by fastforce
next
  case (dead st p)
  then show ?thesis by (simp add: clear_get)
next
  case (timed_out st p e)
  then show ?thesis using only_env_fields[OF wait_environment[OF timed_out(3)]] by simp
next
  case (stopped st p s1)
  then show ?thesis using only_env_fields[OF wait_environment[OF stopped(3)]] by (simp add: clear_get)
qed simp

lemma stop_known_result:
  assumes "stop_known R ids s = Some (Inr (), s')"
  shows "(\<forall>i \<in> set ids. Option.bind (hm_get (children s') i) child_process = None) \<and>
    (\<forall>i. Option.bind (hm_get (children s) i) child_process = None \<longrightarrow> Option.bind (hm_get (children s') i) child_process = None) \<and>
    hm_keys (children s') = hm_keys (children s)"
  using assms
proof (induction ids arbitrary: s)
  case (Cons i ids)
  show ?case
  proof (cases "hm_get (children s) i")
    case None
    then show ?thesis using Cons by auto
  next
    case (Some st)
    then obtain s1 where s1: "stop_child R i s = Some (Inr (), s1)" "stop_known R ids s1 = Some (Inr (), s')"
      using Cons.prems by (auto simp: sup_simps)
    note first = stop_child_result[OF s1(1)] and rest = Cons.IH[OF s1(2)]
    have "Option.bind (hm_get (children s1) i) child_process = None" using first Some by simp
    moreover have "Option.bind (hm_get (children s1) j) child_process = None" if "Option.bind (hm_get (children s) j) child_process = None" for j
      using that first Some by (cases "j = i") auto
    moreover have "x \<in> hm_keys (children s1) \<longleftrightarrow> x \<in> hm_keys (children s)" for x
      using first Some hm_get_None[of "children s1" x] hm_get_None[of "children s" x] by (cases "x = i") auto
    ultimately show ?thesis using rest by auto
  qed
qed simp

definition all_signalled :: "('f, 'w) child_runtime_ops \<Rightarrow> ('w \<Rightarrow> u64 set) \<Rightarrow> ('w \<Rightarrow> u64 set) \<Rightarrow> 'w \<Rightarrow> bool" where
  "all_signalled R started signalled w \<longleftrightarrow> (\<forall>p \<in> started w. rt_alive R w p \<longrightarrow> p \<in> signalled w)"

context child_runtime
begin

lemma fold_kill:
  "evolves R started signalled (environment s) (environment (fold (\<lambda>p s. snd (send_kill R p s)) ps s)) \<and>
     set ps \<subseteq> signalled (environment (fold (\<lambda>p s. snd (send_kill R p s)) ps s))"
proof (induction ps arbitrary: s)
  case (Cons p ps)
  let ?s = "snd (send_kill R p s)"
  have "signalled (environment ?s) \<subseteq> signalled (environment (fold (\<lambda>p s. snd (send_kill R p s)) ps ?s))"
    using Cons[of ?s] by (simp add: evolves_def)
  then show ?case using Cons[of ?s] send_kill_evolves[of s p] evolves_trans by auto
qed (simp add: evolves_refl)

lemma guard_drop_signals:
  assumes "safe R started signalled s" "cleanup_tracker s \<noteq> None"
  shows "all_signalled R started signalled (environment (guard_drop R True s))"
proof -
  obtain ps where ps: "cleanup_tracker s = Some ps" using assms(2) by blast
  then have "set ps = owned s" using assms(1) by (simp add: safe_def tracker_ok_def)
  then show ?thesis using ps assms(1) fold_kill[of s "rev ps"] unfolding all_signalled_def safe_def safe_but_def guard_drop_def evolves_def
    by auto
qed

lemma orderly_shutdown:
  assumes "safe R started signalled s" "shutdown R s = Some (Inr (), s')"
  shows "owned s' = {} \<and> all_signalled R started signalled (environment s')"
proof -
  note stopped = stop_known_result[OF assms(2)[unfolded shutdown_def]]
  have safe: "safe R started signalled s'" using keeps.shutdown_Q[OF assms(2)] assms(1) by blast
  have free: "Option.bind (hm_get (children s') i) child_process = None" for i
  proof (cases "hm_get (children s') i")
    case (Some st)
    then have "i \<in> child_id ` set (spec_children (spec s))"
      using stopped assms(1) hm_get_SomeD[OF Some] by (auto simp: safe_def tracker_ok_def)
    then show ?thesis using stopped by auto
  qed simp
  have "owned s' = {}"
  proof (rule ccontr)
    assume "owned s' \<noteq> {}"
    then obtain i st p where "hm_get (children s') i = Some st" "child_process st = Some p" by (auto simp: owned_def)
    then show False using free[of i] by simp
  qed
  then show ?thesis using safe by (auto simp: safe_def safe_but_def all_signalled_def)
qed

end


text \<open>The life of a supervisor process; the environment changes by itself between its steps.\<close>

definition sup_started ::
  "('f, 'w) child_runtime_ops \<Rightarrow> ('w \<Rightarrow> u64 set) \<Rightarrow> u64 \<Rightarrow> 'f supervisor_spec \<Rightarrow> ('f, 'w) supervisor \<Rightarrow> bool" where
  "sup_started R started self sp s \<longleftrightarrow> (\<exists>w. started w = {} \<and> start_process R self sp w = Some (KeepRunning, s))"

definition sup_runs ::
  "('f, 'w) child_runtime_ops \<Rightarrow> ('w \<Rightarrow> u64 set) \<Rightarrow> ('w \<Rightarrow> u64 set) \<Rightarrow> ('f, 'w) supervisor \<Rightarrow> ('f, 'w) supervisor \<Rightarrow> bool" where
  "sup_runs R started signalled s s' \<longleftrightarrow> (\<exists>ev. sup_loop_step R ev s = Some (KeepRunning, s')) \<or>
     (\<exists>w. evolves R started signalled (environment s) w \<and> s' = s\<lparr>environment := w\<rparr>)"

definition sup_good ::
  "('f, 'w) child_runtime_ops \<Rightarrow> ('w \<Rightarrow> u64 set) \<Rightarrow> ('w \<Rightarrow> u64 set) \<Rightarrow> ('f, 'w) supervisor \<Rightarrow> bool" where
  "sup_good R started signalled s \<longleftrightarrow> safe R started signalled s \<and> cleanup_tracker s \<noteq> None"

context child_runtime
begin

lemma reserve_fields: "reserve_restart_events R ids s = (r, s') \<Longrightarrow> \<exists>h. s' = s\<lparr>restart_history := h\<rparr>"
  by (auto simp: reserve_restart_events_def Let_def split: if_splits)

lemma history_safe [simp]: "safe R started signalled (s\<lparr>restart_history := h\<rparr>) = safe R started signalled s"
  by (simp add: safe_def safe_but_def tracker_ok_def owned_def)

lemma exit_good:
  assumes "handle_process_exit R p reason s = Some (r, s')" "sup_good R started signalled s"
  shows "sup_good R started signalled s'"
proof -
  have stop: "stop_child R i s = Some (r, s') \<Longrightarrow> ?thesis" for i
    using stop_child_safe stop_child_frame assms(2) unfolding sup_good_def same_frame_def by metis
  have restart: "restart_children R ids s = Some (r, s') \<Longrightarrow> ?thesis" for ids
  proof -
    assume r: "restart_children R ids s = Some (r, s')"
    obtain h where "snd (reserve_restart_events R ids s) = s\<lparr>restart_history := h\<rparr>" using reserve_fields prod.collapse by metis
    then show ?thesis
      using keeps.restart_children_Q[OF r] frame.restart_children_Q[OF r] assms(2) by (simp add: sup_good_def same_frame_def)
  qed
  show ?thesis
    using assms stop restart
    by (auto simp: handle_process_exit_def handle_child_exit_def split: option.splits if_splits sum.splits)
qed

lemma start_good:
  assumes "start_process R self sp w = Some (l, s)" "started w = {}"
  shows "(l = KeepRunning \<longrightarrow> sup_good R started signalled s) \<and> (l \<noteq> KeepRunning \<longrightarrow> all_signalled R started signalled (environment s))"
proof -
  let ?s = "(with_environment sp w)\<lparr>monitor := Some self, cleanup_tracker := Some []\<rparr>"
  have good: "safe R started signalled ?s" using assms(2) by (simp add: safe_def safe_but_def tracker_ok_def owned_def with_environment_def)
  obtain r s1 where s1: "start_children R ?s = Some (r, s1)" "(l, s) = (case r of Inr _ \<Rightarrow> (KeepRunning, s1) | Inl e \<Rightarrow> (ExitError e, guard_drop R True s1))"
    using assms(1) by (auto simp: start_process_def)
  have "safe R started signalled s1" "cleanup_tracker s1 \<noteq> None"
    using keeps.start_children_Q[OF s1(1)] frame.start_children_Q[OF s1(1)] good by (simp_all add: same_frame_def)
  then show ?thesis using s1(2) guard_drop_signals by (cases r) (auto simp: sup_good_def)
qed

lemma loop_good:
  assumes "sup_loop_step R ev s = Some (l, s')" "sup_good R started signalled s"
  shows "(l = KeepRunning \<longrightarrow> sup_good R started signalled s') \<and> (l \<noteq> KeepRunning \<longrightarrow> all_signalled R started signalled (environment s'))"
proof -
  have down: "sup_good R started signalled s1" if "shutdown R s0 = Some (r, s1)" "sup_good R started signalled s0" for s0 s1 r
    using keeps.shutdown_Q[OF that(1)] frame.shutdown_Q[OF that(1)] that(2) by (auto simp: sup_good_def same_frame_def)
  show ?thesis
  proof (cases ev)
    case (ShutdownChanged stop)
    show ?thesis
    proof (cases stop)
      case True
      then obtain r s1 where s1: "shutdown R s = Some (r, s1)"
        "(l, s') = (case r of Inr _ \<Rightarrow> (ExitOk, guard_disarm s1) | Inl e \<Rightarrow> (ExitError e, guard_drop R True s1))"
        using assms(1) ShutdownChanged by (auto simp: sup_loop_step_def)
      have "r = Inr () \<Longrightarrow> all_signalled R started signalled (environment s1)" using orderly_shutdown[of s s1] s1(1) assms(2) by (simp add: sup_good_def)
      then show ?thesis
        using s1(2) down[OF s1(1) assms(2)] guard_drop_signals by (cases r) (auto simp: sup_good_def guard_disarm_def)
    qed (use assms ShutdownChanged in \<open>simp add: sup_loop_step_def\<close>)
  next
    case (ProcessDied p reason)
    then obtain r s1 where s1: "handle_process_exit R p reason s = Some (r, s1)"
      using assms(1) by (auto simp: sup_loop_step_def bind_eq_Some_conv)
    note good = exit_good[OF s1 assms(2)]
    show ?thesis
    proof (cases r)
      case (Inl e)
      then obtain r2 s2 where "shutdown R s1 = Some (r2, s2)" "s' = guard_drop R True s2" "l \<noteq> KeepRunning"
        using assms(1) ProcessDied s1 by (auto simp: sup_loop_step_def)
      then show ?thesis using down[OF _ good] guard_drop_signals by (simp add: sup_good_def)
    qed (use assms ProcessDied s1 good in \<open>simp add: sup_loop_step_def\<close>)
  qed (use assms in \<open>simp add: sup_loop_step_def\<close>)
qed

lemma runs_good: "reachable (sup_started R started self sp) (sup_runs R started signalled) s \<Longrightarrow> sup_good R started signalled s"
proof (induction rule: reachable.induct)
  case (reach_start s)
  then show ?case using start_good by (auto simp: sup_started_def)
next
  case (reach_step s t)
  then show ?case
    using loop_good[of _ s KeepRunning t] safe_only_env[OF _ only_env_update] by (auto simp: sup_runs_def sup_good_def)
qed

end


text \<open>
  C37.  A supervisor leaves no child behind.  Whenever the supervisor process is killed, whenever its loop ends,
  orderly or by an error, and whenever its start fails, every process that a start function ever returned
  is dead or has been sent \<open>Kill\<close>; and after an orderly shutdown none is listed as a child any more.
\<close>

theorem supervisor_leaves_no_orphans:
  assumes "child_runtime R started signalled"
  shows "(reachable (sup_started R started self sp) (sup_runs R started signalled) s \<longrightarrow>
      all_signalled R started signalled (environment (guard_drop R True s)) \<and>
      (\<forall>ev l s'. sup_loop_step R ev s = Some (l, s') \<and> l \<noteq> KeepRunning \<longrightarrow> all_signalled R started signalled (environment s')) \<and>
      (\<forall>s'. shutdown R s = Some (Inr (), s') \<longrightarrow> owned s' = {})) \<and>
    (\<forall>w l s'. started w = {} \<and> start_process R self sp w = Some (l, s') \<and> l \<noteq> KeepRunning \<longrightarrow>
      all_signalled R started signalled (environment s'))"
  using child_runtime.runs_good[OF assms, of self sp s] child_runtime.guard_drop_signals[OF assms, of s]
    child_runtime.loop_good[OF assms] child_runtime.start_good[OF assms] child_runtime.orderly_shutdown[OF assms]
  unfolding sup_good_def by blast


section \<open>What a restart does\<close>

definition bumped :: "bool \<Rightarrow> 'f child_state option \<Rightarrow> u32" where
  "bumped is_restart st = (case st of None \<Rightarrow> (if is_restart then 1 else 0)
     | Some st \<Rightarrow> (if is_restart \<and> restart_count st \<noteq> - 1 then restart_count st + 1 else restart_count st))"

definition grows :: "('f, 'w) child_runtime_ops \<Rightarrow> ('w \<Rightarrow> u64 set) \<Rightarrow> 'w \<Rightarrow> 'w \<Rightarrow> bool" where
  "grows R started w w' \<longleftrightarrow> started w \<subseteq> started w' \<and> (\<forall>p \<in> started w. rt_alive R w' p \<longrightarrow> rt_alive R w p)"

lemma grows_trans: "grows R started w w1 \<Longrightarrow> grows R started w1 w2 \<Longrightarrow> grows R started w w2"
  unfolding grows_def by (meson subset_iff)

lemma evolves_grows: "evolves R started signalled w w' \<Longrightarrow> grows R started w w'"
  by (simp add: evolves_def grows_def)

context child_runtime
begin

lemma stop_child_evolves:
  assumes "stop_child R i s = Some (r, s')"
  shows "evolves R started signalled (environment s) (environment s') \<and>
    (r = Inr () \<longrightarrow> (\<forall>p. Option.bind (hm_get (children s) i) child_process = Some p \<longrightarrow> \<not> rt_alive R (environment s') p))"
  using assms
proof (cases rule: stop_child_cases)
  case (timed_out st p e)
  then show ?thesis using evolves_trans[OF conjunct1[OF send_kill_evolves] conjunct1[OF wait_evolves[OF timed_out(3)]]] by simp
next
  case (stopped st p s1)
  then show ?thesis
    using evolves_trans[OF conjunct1[OF send_kill_evolves] conjunct1[OF wait_evolves[OF stopped(3)]]] wait_evolves[OF stopped(3)] by simp
next
  case idle
  then show ?thesis by (auto simp: evolves_refl)
qed (auto simp: evolves_refl send_kill_evolves)

lemma stop_each_result:
  assumes "stop_each R ids s = Some (Inr (), s')" "owned s \<subseteq> started (environment s)"
  shows "evolves R started signalled (environment s) (environment s') \<and>
    (\<forall>j. j \<notin> set ids \<longrightarrow> hm_get (children s') j = hm_get (children s) j) \<and>
    (\<forall>j \<in> set ids. hm_get (children s) j \<noteq> None \<and> hm_get (children s') j = map_option (\<lambda>st. st\<lparr>child_process := None\<rparr>) (hm_get (children s) j) \<and>
      (\<forall>p. Option.bind (hm_get (children s) j) child_process = Some p \<longrightarrow> \<not> rt_alive R (environment s') p))"
  using assms
proof (induction ids arbitrary: s)
  case (Cons i ids)
  obtain s1 where s1: "stop_child R i s = Some (Inr (), s1)" "stop_each R ids s1 = Some (Inr (), s')"
    using Cons.prems(1) by (auto simp: sup_simps)
  note first = stop_child_result[OF s1(1)] and ev = stop_child_evolves[OF s1(1)]
  have get1: "hm_get (children s1) j = (if j = i then map_option (\<lambda>st. st\<lparr>child_process := None\<rparr>) (hm_get (children s) i) else hm_get (children s) j)" for j
    using first by simp
  have "owned s1 \<subseteq> owned s" using get1 by (auto simp: owned_def split: if_splits)
  then have "owned s1 \<subseteq> started (environment s1)" using Cons.prems(2) ev by (auto simp: evolves_def)
  note rest = Cons.IH[OF s1(2) this]
  have dead: "\<not> rt_alive R (environment s') p" if "Option.bind (hm_get (children s) i) child_process = Some p" for p
  proof -
    have "p \<in> owned s" using that by (auto simp: owned_def bind_eq_Some_conv)
    then show ?thesis using that ev rest Cons.prems(2) unfolding evolves_def by blast
  qed
  have known: "hm_get (children s) i \<noteq> None" using first by (cases "hm_get (children s) i") auto
  have step: "evolves R started signalled (environment s) (environment s')"
    using evolves_trans[OF conjunct1[OF ev] conjunct1[OF rest]] .
  show ?case
  proof (intro conjI allI ballI impI)
    fix j assume "j \<in> set (i # ids)"
    then show "hm_get (children s') j = map_option (\<lambda>st. st\<lparr>child_process := None\<rparr>) (hm_get (children s) j)"
      and "hm_get (children s) j \<noteq> None"
      using rest get1 known by (cases "j \<in> set ids"; cases "j = i"; auto simp: option.map_comp comp_def)+
    fix p assume "Option.bind (hm_get (children s) j) child_process = Some p"
    then show "\<not> rt_alive R (environment s') p"
      using \<open>j \<in> set (i # ids)\<close> dead rest get1[of j] by (cases "j = i") auto
  next
    show "hm_get (children s') j = hm_get (children s) j" if "j \<notin> set (i # ids)" for j using that rest get1 by simp
  qed (rule step)
qed (simp add: evolves_refl)

lemma start_child_result:
  assumes "start_child_internal R b i s = Some (Inr p, s')"
  shows "grows R started (environment s) (environment s') \<and> p \<notin> started (environment s) \<and>
    (\<forall>j. j \<noteq> i \<longrightarrow> hm_get (children s') j = hm_get (children s) j) \<and>
    (\<exists>st. hm_get (children s') i = Some st \<and> child_process st = Some p \<and> restart_count st = bumped b (hm_get (children s) i))"
  using assms
proof (cases rule: start_child_cases)
  case (launched c)
  have i: "child_id c = i" using launched(1) by (auto simp: find_Some_iff)
  let ?s = "refresh_cleanup_tracker (clear_process i s)"
  from launched(3) obtain w s1 where st: "rt_start R (child_start c) (environment s) = (Inr p, w)"
    and m: "monitor_child R (child_id c) p (?s\<lparr>environment := w\<rparr>) = Some (Inr (), s1)" and s': "s' = install_child c p b s1"
    by (cases rule: launch_child_cases) auto
  have "hm_get (children s1) j = hm_get (children (clear_process i s)) j" for j
    using only_env_fields[OF monitor_environment[OF m]] by simp
  then have get: "hm_get (children s1) j = (if j = i then map_option (\<lambda>st. st\<lparr>child_process := None\<rparr>) (hm_get (children s) i) else hm_get (children s) j)" for j
    by (simp add: clear_get)
  have "grows R started w (environment s1)" using evolves_grows conjunct1[OF monitor_child_evolves[OF m]] by fastforce
  moreover have "grows R started (environment s) w" "p \<notin> started (environment s)" using start_fresh[OF st] by (auto simp: grows_def)
  ultimately have "grows R started (environment s) (environment s')" "p \<notin> started (environment s)" using grows_trans s' by auto
  then show ?thesis
    unfolding s' install_get i get by (cases "hm_get (children s) i") (simp_all add: bumped_def)
qed simp

lemma start_each_result:
  assumes "start_each R b finished ids s = Some (Inr (), s')" "distinct ids"
  shows "grows R started (environment s) (environment s') \<and>
    (\<forall>j. j \<notin> set ids \<longrightarrow> hm_get (children s') j = hm_get (children s) j) \<and>
    (\<forall>j \<in> set ids. \<exists>p st. p \<notin> started (environment s) \<and> hm_get (children s') j = Some st \<and> child_process st = Some p \<and>
      restart_count st = bumped b (hm_get (children s) j))"
  using assms
proof (induction ids arbitrary: finished s)
  case (Cons i ids)
  obtain q s1 where q: "start_child_internal R b i s = Some (q, s1)" using Cons.prems(1) by (auto simp: bind_eq_Some_conv)
  then obtain p where s1: "start_child_internal R b i s = Some (Inr p, s1)" "start_each R b (finished @ [i]) ids s1 = Some (Inr (), s')"
    using Cons.prems(1) by (cases q) (auto simp: sup_simps)
  note first = start_child_result[OF s1(1)]
  have "distinct ids" "i \<notin> set ids" using Cons.prems(2) by auto
  note rest = Cons.IH[OF s1(2) this(1)]
  have "started (environment s) \<subseteq> started (environment s1)" using first by (simp add: grows_def)
  show ?case
  proof (intro conjI allI ballI impI)
    show "grows R started (environment s) (environment s')" using grows_trans[OF conjunct1[OF first] conjunct1[OF rest]] .
    show "hm_get (children s') j = hm_get (children s) j" if "j \<notin> set (i # ids)" for j using that rest first by simp
    show "\<exists>p st. p \<notin> started (environment s) \<and> hm_get (children s') j = Some st \<and> child_process st = Some p \<and>
        restart_count st = bumped b (hm_get (children s) j)" if j: "j \<in> set (i # ids)" for j
    proof (cases "j = i")
      case True
      then show ?thesis using first rest \<open>i \<notin> set ids\<close> by auto
    next
      case False
      then obtain p st where "p \<notin> started (environment s1)" "hm_get (children s') j = Some st" "child_process st = Some p"
        "restart_count st = bumped b (hm_get (children s1) j)" using j rest by auto
      then show ?thesis using first False \<open>started (environment s) \<subseteq> started (environment s1)\<close> by auto
    qed
  qed
qed (simp add: grows_def)

end


lemma affected_distinct: "distinct (map child_id (spec_children (spec s))) \<Longrightarrow> affected_children i s = Inr ids \<Longrightarrow> distinct ids"
proof -
  assume d: "distinct (map child_id (spec_children (spec s)))" and a: "affected_children i s = Inr ids"
  have "distinct (map child_id (drop k (spec_children (spec s))))" for k using d by (simp add: drop_map[symmetric])
  then show "distinct ids"
    using d a distinct_map_filter[of child_id] by (auto simp: affected_children_def result_simps split: restart_strategy.splits)
qed



section \<open>Waiting ends\<close>

definition bounded_waits :: "('f, 'w) supervisor \<Rightarrow> bool" where
  "bounded_waits s \<longleftrightarrow> (\<forall>c \<in> set (spec_children (spec s)). child_shutdown c \<noteq> Infinity) \<and>
     (\<forall>i st. hm_get (children s) i = Some st \<longrightarrow> child_shutdown (state_spec st) \<noteq> Infinity)"

lemma wait_loop_ends:
  assumes "\<And>w. rt_millis R w < rt_millis R (rt_sleep R w)"
  shows "wait_loop R p (Some l) since w \<noteq> None"
proof (induction "l + since - rt_millis R w" arbitrary: w rule: less_induct)
  case less
  show ?case
  proof (cases "rt_alive R w p \<and> \<not> l \<le> rt_millis R w - since")
    case True
    then have "l + since - rt_millis R (rt_sleep R w) < l + since - rt_millis R w" using assms[of w] by linarith
    then show ?thesis using less True by (subst wait_loop.simps) simp
  next
    case False
    then show ?thesis by (subst wait_loop.simps) auto
  qed
qed

lemma only_env_bounded: "only_env s s' \<Longrightarrow> bounded_waits s' = bounded_waits s"
  by (drule only_env_fields) (simp add: bounded_waits_def)

lemmas bounded_env_simps [simp] = only_env_bounded[OF kill_environment] only_env_bounded[OF only_env_update]

lemma bounded_refresh [simp]: "bounded_waits (refresh_cleanup_tracker s) = bounded_waits s"
  by (simp add: bounded_waits_def)

lemma bounded_clear: "bounded_waits s \<Longrightarrow> bounded_waits (clear_process i s)"
  by (auto simp: bounded_waits_def clear_get split: if_splits)

lemma bounded_install: "bounded_waits s \<Longrightarrow> child_shutdown c \<noteq> Infinity \<Longrightarrow> bounded_waits (install_child c p b s)"
  by (auto simp: bounded_waits_def install_get split: if_splits option.splits)

lemma stop_child_bounded:
  assumes "stop_child R i s = Some (r, s')" "bounded_waits s"
  shows "bounded_waits s'"
  using assms(1)
proof (cases rule: stop_child_cases)
  case (kill_failed st p e)
  then show ?thesis using assms(2) by simp
next
  case (timed_out st p e)
  then show ?thesis using assms(2) only_env_bounded[OF only_env_trans[OF kill_environment wait_environment[OF timed_out(3)]]] by simp
next
  case (stopped st p s1)
  then show ?thesis
    using assms(2) only_env_bounded[OF only_env_trans[OF kill_environment wait_environment[OF stopped(3)]]] by (simp add: bounded_clear)
qed (use assms(2) in \<open>simp_all add: bounded_clear\<close>)

lemma start_child_bounded:
  assumes "start_child_internal R b i s = Some (r, s')" "bounded_waits s"
  shows "bounded_waits s'"
  using assms(1)
proof (cases rule: start_child_cases)
  case (launched c)
  let ?s = "refresh_cleanup_tracker (clear_process i s)"
  have c: "child_shutdown c \<noteq> Infinity" using launched(1) assms(2) by (auto simp: find_Some_iff bounded_waits_def)
  have s: "bounded_waits ?s" using assms(2) by (simp add: bounded_clear)
  from launched(3) show ?thesis
  proof (cases rule: launch_child_cases)
    case (start_failed e w)
    then show ?thesis using s by simp
  next
    case (unmonitored p w e)
    then show ?thesis using s only_env_bounded[OF monitor_environment[OF unmonitored(2)]] by simp
  next
    case (unregistered p w s1)
    then show ?thesis using s only_env_bounded[OF monitor_environment[OF unregistered(2)]] by simp
  next
    case (installed p w s1)
    then show ?thesis
      using s c only_env_bounded[OF monitor_environment[OF installed(2)]] by (simp add: bounded_install)
  qed
qed (use assms(2) in simp)

interpretation waits: sup_preserved R "\<lambda>s s'. bounded_waits s \<longrightarrow> bounded_waits s'" for R
  by unfold_locales (auto dest: stop_child_bounded start_child_bounded)

definition returns :: "'a option \<Rightarrow> bool" where
  "returns m \<longleftrightarrow> m \<noteq> None"

lemma returns_Some [simp]: "returns (Some x)"
  by (simp add: returns_def)

lemma returns_then: "returns m \<Longrightarrow> (\<And>x s. m = Some (Inr x, s) \<Longrightarrow> returns (f x s)) \<Longrightarrow> returns (sup_then m f)"
  by (cases m) (auto simp: sup_then_def returns_def split: sum.splits)

lemma returns_ignore: "returns m \<Longrightarrow> (\<And>r s. m = Some (r, s) \<Longrightarrow> returns (f s)) \<Longrightarrow> returns (sup_ignore m f)"
  by (cases m) (auto simp: sup_ignore_def returns_def)

lemma returns_bind: "returns m \<Longrightarrow> (\<And>x. m = Some x \<Longrightarrow> returns (f x)) \<Longrightarrow> returns (Option.bind m f)"
  by (cases m) (auto simp: returns_def)

lemma returns_map [simp]: "returns (map_option f m) = returns m"
  by (simp add: returns_def)

lemma bounded_reserve [simp]: "bounded_waits (snd (reserve_restart_events R ids s)) = bounded_waits s"
  by (simp add: reserve_restart_events_def Let_def bounded_waits_def)

text \<open>An environment whose clock advances while the supervisor sleeps.\<close>

locale ticking =
  fixes R :: "('f, 'w) child_runtime_ops"
  assumes ticks: "rt_millis R w < rt_millis R (rt_sleep R w)"
begin

lemma wait_ends: "returns (wait_for_process_exit R i p (Some l) s)"
  using wait_loop_ends[OF ticks] by (simp add: wait_for_process_exit_def returns_def)

lemma abandon_ends: "returns (abandon R i p e s)"
  unfolding abandon_def by (intro returns_ignore wait_ends) simp

lemma stop_child_ends:
  assumes "bounded_waits s"
  shows "returns (stop_child R i s)"
proof (cases "hm_get (children s) i")
  case (Some st)
  then obtain l where "shutdown_timeout (child_shutdown (state_spec st)) = Some l"
    using assms by (cases "child_shutdown (state_spec st)") (auto simp: bounded_waits_def)
  then have "returns (sup_then (wait_for_process_exit R i p (shutdown_timeout (child_shutdown (state_spec st))) s1)
      (\<lambda>_ s2. Some (Inr (), refresh_cleanup_tracker (clear_process i s2))))" for p s1
    by (intro returns_then) (simp_all add: wait_ends)
  then show ?thesis using Some by (auto simp: stop_child_def split: option.splits sum.splits prod.splits)
qed (simp add: stop_child_def)

lemma monitor_child_ends: "returns (monitor_child R i p s)"
  using abandon_ends by (auto simp: monitor_child_def split: option.splits sum.splits prod.splits bool.splits)

lemma start_child_ends: "returns (start_child_internal R b i s)"
proof -
  have "returns (launch_child R c b s)" for c s
    unfolding launch_child_def by (auto split: sum.splits prod.splits intro!: returns_then monitor_child_ends)
  then show ?thesis by (auto simp: start_child_internal_def split: option.splits)
qed

lemma stop_each_ends: "bounded_waits s \<Longrightarrow> returns (stop_each R ids s)"
  by (induction ids arbitrary: s) (auto intro!: returns_then stop_child_ends dest: stop_child_bounded)

lemma stop_quietly_ends: "bounded_waits s \<Longrightarrow> returns (stop_quietly R ids s)"
  by (induction ids arbitrary: s) (auto intro!: returns_ignore stop_child_ends dest: stop_child_bounded)

lemma stop_known_ends: "bounded_waits s \<Longrightarrow> returns (stop_known R ids s)"
  by (induction ids arbitrary: s) (auto intro!: returns_then stop_child_ends dest: stop_child_bounded)

lemma start_each_ends: "bounded_waits s \<Longrightarrow> returns (start_each R b finished ids s)"
proof (induction ids arbitrary: finished s)
  case (Cons i ids)
  have "returns (case q of Inl e \<Rightarrow> sup_ignore (stop_quietly R (rev finished) s1) (\<lambda>s2. Some (Inl e, s2))
      | Inr _ \<Rightarrow> start_each R b (finished @ [i]) ids s1)" if "start_child_internal R b i s = Some (q, s1)" for q s1
    using Cons start_child_bounded[OF that] by (cases q) (auto intro!: returns_ignore stop_quietly_ends)
  then show ?case unfolding start_each.simps by (intro returns_bind start_child_ends) auto
qed simp

lemma shutdown_ends: "bounded_waits s \<Longrightarrow> returns (shutdown R s)"
  unfolding shutdown_def by (rule stop_known_ends)

lemma restart_ends:
  assumes "bounded_waits s"
  shows "returns (restart_children R ids s)"
proof -
  obtain r s1 where s1: "reserve_restart_events R ids s = (r, s1)" by (metis surj_pair)
  then have "bounded_waits s1" using assms bounded_reserve[of R ids s] by (metis snd_conv)
  then have "returns (sup_then (stop_each R (rev ids) s1) (\<lambda>_ s2. start_each R True [] ids s2))"
    using waits.stop_each_Q[of R "rev ids" s1] by (intro returns_then stop_each_ends start_each_ends) auto
  then show ?thesis unfolding restart_children_def s1 by (cases r) (simp_all add: sup_then_def)
qed

lemma exit_ends: "bounded_waits s \<Longrightarrow> returns (handle_process_exit R p reason s)"
  using stop_child_ends[of s] restart_ends[of s]
  by (auto simp: handle_process_exit_def handle_child_exit_def split: option.splits sum.splits)

lemma exit_bounded:
  assumes "handle_process_exit R p reason s = Some (r, s')" "bounded_waits s"
  shows "bounded_waits s'"
proof -
  have "restart_children R ids s = Some (r, s') \<Longrightarrow> bounded_waits s'" for ids
    using waits.restart_children_Q[of R ids s r s'] assms(2) by simp
  then show ?thesis
    using assms stop_child_bounded[of R _ s r s']
    by (auto simp: handle_process_exit_def handle_child_exit_def split: option.splits sum.splits if_splits)
qed

end


text \<open>
  C40.  A supervisor whose children all have a finite shutdown time does not hang: starting it, and every step of
  its loop, whatever the processes do, comes back with a result, and the children keep finite shutdown
  times.  Only the clock has to advance while the supervisor sleeps.
\<close>

theorem supervisor_does_not_hang:
  assumes "\<And>w. rt_millis R w < rt_millis R (rt_sleep R w)"
  shows "((\<forall>c \<in> set (spec_children sp). child_shutdown c \<noteq> Infinity) \<longrightarrow>
      (\<exists>l s'. start_process R self sp w = Some (l, s') \<and> (l = KeepRunning \<longrightarrow> bounded_waits s'))) \<and>
    (bounded_waits s \<longrightarrow> (\<exists>l s'. sup_loop_step R ev s = Some (l, s') \<and> (l = KeepRunning \<longrightarrow> bounded_waits s')))"
proof -
  have tick: "ticking R" using assms by unfold_locales
  have start: "\<exists>l s'. start_process R self sp w = Some (l, s') \<and> (l = KeepRunning \<longrightarrow> bounded_waits s')"
    if sp: "\<forall>c \<in> set (spec_children sp). child_shutdown c \<noteq> Infinity"
  proof -
    let ?s = "(with_environment sp w)\<lparr>monitor := Some self, cleanup_tracker := Some []\<rparr>"
    have b: "bounded_waits ?s" using sp by (simp add: bounded_waits_def with_environment_def)
    then obtain r s1 where s1: "start_children R ?s = Some (r, s1)"
      using ticking.start_each_ends[OF tick, of ?s] unfolding start_children_def returns_def by (metis not_None_eq surj_pair)
    then have "bounded_waits s1" using b waits.start_children_Q by blast
    then show ?thesis using s1 by (cases r) (auto simp: start_process_def)
  qed
  have "\<exists>l s'. sup_loop_step R ev s = Some (l, s') \<and> (l = KeepRunning \<longrightarrow> bounded_waits s')" if b: "bounded_waits s"
  proof (cases ev)
    case (ShutdownChanged stop)
    obtain r s1 where "shutdown R s = Some (r, s1)" using ticking.shutdown_ends[OF tick b] unfolding returns_def by (metis not_None_eq surj_pair)
    then show ?thesis using ShutdownChanged b by (cases r) (auto simp: sup_loop_step_def)
  next
    case (ProcessDied p reason)
    obtain r s1 where s1: "handle_process_exit R p reason s = Some (r, s1)"
      using ticking.exit_ends[OF tick b] unfolding returns_def by (metis not_None_eq surj_pair)
    then have b1: "bounded_waits s1" using ticking.exit_bounded[OF tick s1 b] by simp
    obtain r2 s2 where "shutdown R s1 = Some (r2, s2)" using ticking.shutdown_ends[OF tick b1] unfolding returns_def by (metis not_None_eq surj_pair)
    then show ?thesis using ProcessDied s1 b1 by (cases r) (auto simp: sup_loop_step_def)
  qed (use b in \<open>simp add: sup_loop_step_def\<close>)
  then show ?thesis using start by blast
qed

section \<open>Supervision in an environment\<close>

text \<open>
  The environment with its admission control as the runtime of a supervisor.  A start function takes the next
  process id and admits the process, or gives up; a killed process is removed while the supervisor sleeps.
\<close>

record env_world =
  ew_env :: "unit environment"
  ew_quota :: node_process_quota
  ew_next :: u64
  ew_children :: "u64 list"
  ew_killed :: "u64 list"
  ew_millis :: nat

definition env_start :: "bool \<Rightarrow> env_world \<Rightarrow> (start_failure + u64) \<times> env_world" where
  "env_start f w =
     (case allocator_next (ew_next w) of
        None \<Rightarrow> (Inl (StartRefused ''no process id''), w)
      | Some (p, c) \<Rightarrow>
          if \<not> f \<or> p \<in> set (ew_children w) then (Inl (StartRefused ''not started''), w)
          else (case add_process p () (ew_env w) (ew_quota w) of
              Some (Inr _, e, q) \<Rightarrow> (Inr p, w\<lparr>ew_env := e, ew_quota := q, ew_next := c, ew_children := p # ew_children w\<rparr>)
            | _ \<Rightarrow> (Inl (StartRefused ''not admitted''), w)))"

fun reap :: "u64 list \<Rightarrow> unit environment \<times> node_process_quota \<Rightarrow> unit environment \<times> node_process_quota" where
  "reap [] eq = eq"
| "reap (p # ps) (e, q) = reap ps (case remove_process p e q of None \<Rightarrow> (e, q) | Some (_, e', q') \<Rightarrow> (e', q'))"

definition env_sleep :: "env_world \<Rightarrow> env_world" where
  "env_sleep w = (case reap (ew_killed w) (ew_env w, ew_quota w) of (e, q) \<Rightarrow>
     w\<lparr>ew_env := e, ew_quota := q, ew_millis := ew_millis w + 1\<rparr>)"

definition env_runtime :: "(bool, env_world) child_runtime_ops" where
  "env_runtime = \<lparr>
     rt_multi_thread = (\<lambda>w. True),
     rt_alive = (\<lambda>w p. get_process p (ew_env w) \<noteq> None),
     rt_terminal = (\<lambda>w p. p \<in> set (ew_children w) \<and> get_process p (ew_env w) = None),
     rt_now = (\<lambda>w. of_nat (ew_millis w div 1000)),
     rt_millis = ew_millis,
     rt_start = env_start,
     rt_monitor = (\<lambda>p m w. (Inr (), w)),
     rt_await_monitor = (\<lambda>p w. (True, w)),
     rt_kill = (\<lambda>p w. (if get_process p (ew_env w) = None then Inl ''closed'' else Inr (), w\<lparr>ew_killed := p # ew_killed w\<rparr>)),
     rt_sleep = env_sleep\<rparr>"

abbreviation env_started :: "env_world \<Rightarrow> u64 set" where
  "env_started w \<equiv> set (ew_children w)"

abbreviation env_signalled :: "env_world \<Rightarrow> u64 set" where
  "env_signalled w \<equiv> set (ew_killed w)"

lemma remove_process_get: "remove_process i e q = Some (b, e', q') \<Longrightarrow> get_process j e' \<noteq> None \<Longrightarrow> get_process j e \<noteq> None"
  by (auto simp: remove_process_def release_process_slot_def get_process_def hm_get_remove split: option.splits if_splits)

lemma reap_get: "get_process j (fst (reap ps (e, q))) \<noteq> None \<Longrightarrow> get_process j e \<noteq> None"
proof (induction ps arbitrary: e q)
  case (Cons p ps)
  show ?case
  proof (cases "remove_process p e q")
    case None
    then show ?thesis using Cons.IH[of e q] Cons.prems by simp
  next
    case (Some x)
    obtain b e' q' where x: "x = (b, e', q')" by (cases x)
    have "get_process j e' \<noteq> None" using Cons.IH[of e' q'] Cons.prems Some x by simp
    then show ?thesis using remove_process_get[of p e q b e' q' j] Some x by simp
  qed
qed simp

lemma add_process_get:
  "add_process i p e q = Some (Inr u, e', q') \<Longrightarrow> get_process j e' = (if j = i then Some p else get_process j e)"
  by (auto simp: add_process_def reserve_process_slot_def quota_reserve_def get_process_def hm_get_insert
      split: option.splits sum.splits if_splits)

interpretation env_rt: child_runtime env_runtime env_started env_signalled
proof unfold_locales
  fix w w1 :: env_world and f p e
  show "evolves env_runtime env_started env_signalled w (rt_sleep env_runtime w)"
    using reap_get[of _ "ew_killed w" "ew_env w" "ew_quota w"]
    by (auto simp: evolves_def env_runtime_def env_sleep_def split: prod.splits)
  show "evolves env_runtime env_started env_signalled w w1" if "rt_start env_runtime f w = (Inl e, w1)"
    using that by (auto simp: env_runtime_def env_start_def evolves_def split: option.splits prod.splits sum.splits if_splits)
  show "p \<notin> env_started w \<and> env_started w1 = insert p (env_started w) \<and> env_signalled w \<subseteq> env_signalled w1 \<and>
      (\<forall>q \<in> env_started w. rt_alive env_runtime w1 q \<longrightarrow> rt_alive env_runtime w q)" if "rt_start env_runtime f w = (Inr p, w1)"
    using that by (auto simp: env_runtime_def env_start_def add_process_get split: option.splits prod.splits sum.splits if_splits)
qed (auto simp: env_runtime_def evolves_def)

interpretation env_clock: ticking env_runtime
  by unfold_locales (simp add: env_runtime_def env_sleep_def split: prod.splits)


text \<open>Two children under one strategy, in an environment with room for three processes.\<close>

definition sample_child :: "string \<Rightarrow> bool child_spec" where
  "sample_child i = \<lparr>child_id = i, child_start = True, child_restart = Permanent, child_shutdown = Brutal, child_kind = Worker\<rparr>"

definition sample_spec :: "restart_strategy \<Rightarrow> u32 \<Rightarrow> bool supervisor_spec" where
  "sample_spec strat n = \<lparr>strategy = strat, max_restarts = n, max_seconds = 5, spec_children = [sample_child ''a'', sample_child ''b'']\<rparr>"

definition fresh_world :: env_world where
  "fresh_world = \<lparr>ew_env = environment_with_node_options 1 (Some 3) False None None, ew_quota = \<lparr>quota_count = 0, quota_limit = 3\<rparr>,
     ew_next = 2, ew_children = [], ew_killed = [], ew_millis = 0\<rparr>"

definition running_world :: env_world where
  "running_world = fresh_world\<lparr>ew_env := (ew_env fresh_world)\<lparr>
     processes := [(2, \<lparr>entry_process = (), node_lease = False\<rparr>), (3, \<lparr>entry_process = (), node_lease = False\<rparr>)], process_count := 2\<rparr>,
     ew_next := 4, ew_children := [3, 2]\<rparr>"

definition running_supervisor :: "(bool, env_world) supervisor" where
  "running_supervisor = \<lparr>spec = sample_spec OneForAll 2, environment = running_world,
     children = [(''a'', \<lparr>state_spec = sample_child ''a'', child_process = Some 2, restart_count = 0\<rparr>),
       (''b'', \<lparr>state_spec = sample_child ''b'', child_process = Some 3, restart_count = 0\<rparr>)],
     restart_history = [], monitor = Some 1, cleanup_tracker = Some [2, 3]\<rparr>"

lemmas sup_eval = start_process_def with_environment_def sample_spec_def sample_child_def start_children_def start_child_internal_def
  launch_child_def env_runtime_def env_start_def fresh_world_def allocator_next_def checked_succ_def add_process_def
  environment_with_node_options_def reserve_process_slot_def reserve_below_def sup_then_def monitor_child_def install_child_def
  refresh_cleanup_tracker_def clear_process_def map_filter_simps hm_insert_def get_process_def running_world_def Let_def

lemma running_supervisor_eval:
  "start_process env_runtime 1 (sample_spec OneForAll 2) fresh_world = Some (KeepRunning, running_supervisor)"
  by (simp add: sup_eval running_supervisor_def)


text \<open>Both processes have died.\<close>

definition dead_world :: env_world where
  "dead_world = running_world\<lparr>ew_env := ew_env fresh_world\<rparr>"

definition bereft_supervisor :: "(bool, env_world) supervisor" where
  "bereft_supervisor = running_supervisor\<lparr>environment := dead_world\<rparr>"

lemmas sup_exit_eval = sup_eval running_supervisor_def dead_world_def bereft_supervisor_def handle_process_exit_def handle_child_exit_def
  affected_children_def is_running_def restart_children_def reserve_restart_events_def saturating_sub_def stop_child_def
  granted_def restart_events_def

lemma bereft_restart:
  "\<exists>s'. handle_child_exit env_runtime ''a'' ExitCrash bereft_supervisor = Some (Inr (), s') \<and>
     run_exits env_runtime [(2, DeathFailure, dead_world)] running_supervisor = Some (restart_events 0 [''a'', ''b''], s')"
  by (simp add: sup_exit_eval)

lemma running_supervisor_good: "sup_good env_runtime env_started env_signalled running_supervisor"
proof -
  have "env_started fresh_world = {}" by (simp add: fresh_world_def)
  then show ?thesis using env_rt.start_good[OF running_supervisor_eval] by simp
qed

lemma bereft_supervisor_safe: "safe env_runtime env_started env_signalled bereft_supervisor"
  unfolding bereft_supervisor_def
proof (rule safe_only_env[OF _ only_env_update])
  show "safe env_runtime env_started env_signalled running_supervisor" using running_supervisor_good by (simp add: sup_good_def)
  show "evolves env_runtime env_started env_signalled (environment running_supervisor) (environment (running_supervisor\<lparr>environment := dead_world\<rparr>))"
    by (simp add: evolves_def env_runtime_def running_supervisor_def running_world_def dead_world_def fresh_world_def
        environment_with_node_options_def get_process_def)
qed



theorem supervisor_leaves_no_orphans_witness:
  "env_started (environment running_supervisor) = {2, 3} \<and>
   all_signalled env_runtime env_started env_signalled (environment (guard_drop env_runtime True running_supervisor))"
proof -
  have "sup_started env_runtime env_started 1 (sample_spec OneForAll 2) running_supervisor"
    using running_supervisor_eval by (auto simp: sup_started_def fresh_world_def intro!: exI[of _ fresh_world])
  then show ?thesis
    using supervisor_leaves_no_orphans[OF env_rt.child_runtime_axioms, of 1 "sample_spec OneForAll 2" running_supervisor]
    by (auto simp: running_supervisor_def running_world_def intro: reach_start)
qed


theorem supervisor_does_not_hang_witness:
  "\<exists>l s'. sup_loop_step env_runtime (ProcessDied 2 DeathFailure) running_supervisor = Some (l, s')"
proof -
  have "bounded_waits running_supervisor"
    by (auto simp: bounded_waits_def running_supervisor_def sample_spec_def sample_child_def split: if_splits)
  then show ?thesis using supervisor_does_not_hang[OF env_clock.ticks, of "sample_spec OneForAll 2" 1 fresh_world running_supervisor] by blast
qed

end
