(* ===== verification/Signals.thy ===== *)
theory Signals
  imports Mailbox
begin

text \<open>
  \<open>lunatic-process/src/state.rs\<close>, the signal ingress of a process: a bounded queue of envelopes, the
  kill latch, the terminal reason, and three admission pools (data, links, monitors).  A signal that
  can become a message reserves its slot in the destination mailbox before it is queued; a monitor
  reserves the slot of its future death notice in the observer's mailbox.

  The shared allocations of one process (\<open>SignalSender\<close>, \<open>SignalReceiver\<close>, \<open>LinkState\<close> and the message
  mailbox) are one cell, and a world maps addresses to cells.  The semaphores and the queue are those
  of the runtime contracts.
\<close>

section \<open>Data\<close>

type_synonym addr = nat

text \<open>
  An \<open>Arc<dyn Process>\<close>: a built-in handle (\<open>WasmProcess\<close>, \<open>NativeProcess\<close>) with its identity and the
  address of its cell, or an implementation from outside that keeps the defaults of the trait.
\<close>

datatype process_ref = BuiltIn u64 addr | Custom u64

fun process_ref_id :: "process_ref \<Rightarrow> u64" where
  "process_ref_id (BuiltIn i _) = i"
| "process_ref_id (Custom i) = i"

text \<open>
  A monitor's acknowledgement channel is a number; the world records the acknowledgements sent.  A
  reload's acknowledgement is answered elsewhere, here only its presence counts.
\<close>

datatype signal =
  SigMessage message
| SigDieWhenLinkDies bool
| SigLink "i64 option" process_ref
| SigUnLink u64
| SigLinkDied u64 "i64 option" death_reason
| SigMonitor process_ref "nat option"
| SigStopMonitoring u64
| SigProcessDied u64 death_reason
| SigKill
| SigHotReload u64 "u32 option" u32 bool
| SigRollback u64 "u32 option" u32 bool

text \<open>A slot reserved in the mailbox of the cell \<open>mn_addr\<close>.\<close>

record monitor_notification =
  mn_addr :: addr
  mn_permit :: mailbox_permit

datatype monitor_notification_error = ObserverMailboxFull | ObserverClosed

record envelope =
  env_signal :: signal
  env_mailbox_permit :: "mailbox_permit option"
  env_data_permit :: bool
  env_monitor_permit :: bool
  env_notification :: "monitor_notification option"

definition control :: "signal \<Rightarrow> envelope" where
  "control sg = \<lparr>env_signal = sg, env_mailbox_permit = None, env_data_permit = False,
     env_monitor_permit = False, env_notification = None\<rparr>"

text \<open>\<open>peer_state\<close> and \<open>peer_sender\<close> point into the same cell; the relation owns a link permit.\<close>

record link_relation =
  rel_token :: nat
  rel_peer :: addr
  rel_exit_tag :: "i64 option"

datatype signal_send_error =
  SendMessageTooLarge signal nat nat
| SendTooManyResources signal nat nat
| SendMailboxFull signal
| SendQueueFull signal
| SendClosed signal

datatype signal_send_error_kind =
  KindMessageTooLarge | KindTooManyMessageResources | KindMailboxFull | KindQueueFull | KindClosed

fun send_error_kind :: "signal_send_error \<Rightarrow> signal_send_error_kind" where
  "send_error_kind (SendMessageTooLarge _ _ _) = KindMessageTooLarge"
| "send_error_kind (SendTooManyResources _ _ _) = KindTooManyMessageResources"
| "send_error_kind (SendMailboxFull _) = KindMailboxFull"
| "send_error_kind (SendQueueFull _) = KindQueueFull"
| "send_error_kind (SendClosed _) = KindClosed"

fun send_error_signal :: "signal_send_error \<Rightarrow> signal" where
  "send_error_signal (SendMessageTooLarge sg _ _) = sg"
| "send_error_signal (SendTooManyResources sg _ _) = sg"
| "send_error_signal (SendMailboxFull sg) = sg"
| "send_error_signal (SendQueueFull sg) = sg"
| "send_error_signal (SendClosed sg) = sg"

text \<open>
  One process.  \<open>c_alive\<close> says whether the \<open>LinkState\<close> can still be upgraded from a \<open>Weak\<close>.  The last
  two fields are the locals of the process loop: \<open>die_when_link_dies\<close> and \<open>monitors\<close> (each entry owns
  a monitor permit).
\<close>

record ('s, 'q) cell =
  c_chan :: 'q
  c_kill :: bool
  c_death :: "death_reason option"
  c_data :: 's
  c_link :: 's
  c_mon :: 's
  c_mailbox :: "'s mailbox"
  c_capacity :: usize
  c_max_bytes :: nat
  c_max_resources :: nat
  c_alive :: bool
  c_id :: "u64 option"
  c_terminal :: "death_reason option"
  c_relations :: "(u64, link_relation) hmap"
  t_die :: bool
  t_monitors :: "(u64, process_ref \<times> monitor_notification option) hmap"

text \<open>
  \<open>counted_alive\<close> is the flag of each \<open>LinkToken\<close> and \<open>links_alive\<close> the gauge of the \<open>metrics\<close> feature;
  \<open>custom_calls\<close> records the calls of \<open>send\<close> on processes from outside.
\<close>

record ('s, 'q) world =
  cells :: "addr \<Rightarrow> ('s, 'q) cell"
  next_cell :: addr
  next_token :: nat
  counted_alive :: "nat \<Rightarrow> bool"
  links_alive :: int
  custom_calls :: "(u64 \<times> signal) list"
  ack_sent :: "nat list"

record ('s, 'q) signal_rt =
  rt_sem :: "'s semaphore_ops"
  rt_chan :: "('q, envelope) channel_ops"

definition upd_cell :: "addr \<Rightarrow> (('s, 'q) cell \<Rightarrow> ('s, 'q) cell) \<Rightarrow> ('s, 'q) world \<Rightarrow> ('s, 'q) world" where
  "upd_cell a f w = w\<lparr>cells := (cells w)(a := f (cells w a))\<rparr>"

section \<open>Creating mailboxes\<close>

definition data_capacity :: "usize \<Rightarrow> usize" where
  "data_capacity cap = max (cap - 1) 1"

text \<open>\<open>None\<close> is the panic of the capacity assertion.\<close>

definition signal_mailbox_with_limits ::
  "('s, 'q) signal_rt \<Rightarrow> usize \<Rightarrow> 's mailbox \<Rightarrow> nat \<Rightarrow> nat \<Rightarrow> ('s, 'q) cell option" where
  "signal_mailbox_with_limits R cap mb max_bytes max_res =
     (if cap = 0 then None
      else Some \<lparr>c_chan = ch_new (rt_chan R) cap, c_kill = False, c_death = None,
        c_data = sem_new (rt_sem R) (data_capacity cap), c_link = sem_new (rt_sem R) cap,
        c_mon = sem_new (rt_sem R) cap, c_mailbox = mb, c_capacity = cap,
        c_max_bytes = max_bytes, c_max_resources = max_res, c_alive = True, c_id = None,
        c_terminal = None, c_relations = [], t_die = True, t_monitors = []\<rparr>)"

definition signal_mailbox :: "('s, 'q) signal_rt \<Rightarrow> usize \<Rightarrow> 's mailbox \<Rightarrow> ('s, 'q) cell option" where
  "signal_mailbox R cap mb = signal_mailbox_with_limits R cap mb 1048576 64"

text \<open>The fresh cell takes the next address, which also names the mailbox's semaphore.\<close>

definition mailboxes_with_limits ::
  "('s, 'q) signal_rt \<Rightarrow> usize \<Rightarrow> usize \<Rightarrow> nat \<Rightarrow> nat \<Rightarrow> ('s, 'q) world \<Rightarrow> (addr \<times> ('s, 'q) world) option" where
  "mailboxes_with_limits R cap msg_cap max_bytes max_res w =
     (let a = next_cell w; mb = mailbox_with_limits (rt_sem R) a msg_cap max_bytes max_res in
      case signal_mailbox_with_limits R cap mb max_bytes max_res of
        None \<Rightarrow> None
      | Some c \<Rightarrow> Some (a, w\<lparr>cells := (cells w)(a := c), next_cell := Suc a\<rparr>))"

definition mailboxes_with_capacity ::
  "('s, 'q) signal_rt \<Rightarrow> usize \<Rightarrow> usize \<Rightarrow> ('s, 'q) world \<Rightarrow> (addr \<times> ('s, 'q) world) option" where
  "mailboxes_with_capacity R cap msg_cap = mailboxes_with_limits R cap msg_cap 1048576 64"

definition default_mailboxes :: "('s, 'q) signal_rt \<Rightarrow> ('s, 'q) world \<Rightarrow> (addr \<times> ('s, 'q) world) option" where
  "default_mailboxes R = mailboxes_with_limits R 1088 1024 1048576 64"

section \<open>Permits\<close>

text \<open>Dropping the permits a value owns.\<close>

definition drop_notification ::
  "('s, 'q) signal_rt \<Rightarrow> monitor_notification option \<Rightarrow> ('s, 'q) world \<Rightarrow> ('s, 'q) world" where
  "drop_notification R n w =
     (case n of None \<Rightarrow> w
      | Some m \<Rightarrow> upd_cell (mn_addr m) (\<lambda>c. c\<lparr>c_mailbox := drop_permit (rt_sem R) (c_mailbox c)\<rparr>) w)"

definition drop_mailbox_permit ::
  "('s, 'q) signal_rt \<Rightarrow> addr \<Rightarrow> mailbox_permit option \<Rightarrow> ('s, 'q) world \<Rightarrow> ('s, 'q) world" where
  "drop_mailbox_permit R a p w =
     (if p = None then w
      else upd_cell a (\<lambda>c. c\<lparr>c_mailbox := drop_permit (rt_sem R) (c_mailbox c)\<rparr>) w)"

definition drop_data_permit :: "('s, 'q) signal_rt \<Rightarrow> addr \<Rightarrow> bool \<Rightarrow> ('s, 'q) world \<Rightarrow> ('s, 'q) world" where
  "drop_data_permit R a held w =
     (if held then upd_cell a (\<lambda>c. c\<lparr>c_data := sem_release (rt_sem R) (c_data c)\<rparr>) w else w)"

definition drop_monitor_permit :: "('s, 'q) signal_rt \<Rightarrow> addr \<Rightarrow> bool \<Rightarrow> ('s, 'q) world \<Rightarrow> ('s, 'q) world" where
  "drop_monitor_permit R a held w =
     (if held then upd_cell a (\<lambda>c. c\<lparr>c_mon := sem_release (rt_sem R) (c_mon c)\<rparr>) w else w)"

definition drop_envelope :: "('s, 'q) signal_rt \<Rightarrow> addr \<Rightarrow> envelope \<Rightarrow> ('s, 'q) world \<Rightarrow> ('s, 'q) world" where
  "drop_envelope R a e w =
     drop_notification R (env_notification e)
      (drop_monitor_permit R a (env_monitor_permit e)
        (drop_data_permit R a (env_data_permit e)
          (drop_mailbox_permit R a (env_mailbox_permit e) w)))"

text \<open>\<open>MonitorNotification::reserve\<close> and \<open>SignalSender::reserve_monitor_notification\<close>.\<close>

definition reserve_monitor_notification ::
  "('s, 'q) signal_rt \<Rightarrow> addr \<Rightarrow> ('s, 'q) world \<Rightarrow>
    monitor_notification_error + monitor_notification \<times> ('s, 'q) world" where
  "reserve_monitor_notification R b w =
     (if ch_is_closed (rt_chan R) (c_chan (cells w b)) then Inl ObserverClosed
      else case try_reserve (rt_sem R) (c_mailbox (cells w b)) of
        None \<Rightarrow> Inl ObserverMailboxFull
      | Some (p, mb) \<Rightarrow> Inr (\<lparr>mn_addr = b, mn_permit = p\<rparr>, upd_cell b (\<lambda>c. c\<lparr>c_mailbox := mb\<rparr>) w))"

text \<open>The trait method: a process from outside keeps the default and reserves nothing.\<close>

fun process_reserve ::
  "('s, 'q) signal_rt \<Rightarrow> process_ref \<Rightarrow> ('s, 'q) world \<Rightarrow>
    monitor_notification_error + monitor_notification option \<times> ('s, 'q) world" where
  "process_reserve R (BuiltIn _ b) w =
     (case reserve_monitor_notification R b w of
        Inl e \<Rightarrow> Inl e | Inr (n, w') \<Rightarrow> Inr (Some n, w'))"
| "process_reserve R (Custom _) w = Inr (None, w)"

text \<open>A failed delivery is logged; the error drops the permit it carries.\<close>

definition deliver_notification ::
  "('s, 'q) signal_rt \<Rightarrow> monitor_notification \<Rightarrow> u64 \<Rightarrow> death_reason \<Rightarrow> ('s, 'q) world \<Rightarrow> ('s, 'q) world" where
  "deliver_notification R n pid reason w =
     (case push_with_permit (ProcessDied pid reason) (mn_permit n) (c_mailbox (cells w (mn_addr n))) of
        (Inr _, mb) \<Rightarrow> upd_cell (mn_addr n) (\<lambda>c. c\<lparr>c_mailbox := mb\<rparr>) w
      | (Inl _, mb) \<Rightarrow> drop_notification R (Some n) w)"

section \<open>Sending\<close>

definition reserves_mailbox_capacity :: "signal \<Rightarrow> bool" where
  "reserves_mailbox_capacity sg =
     (case sg of
        SigMessage _ \<Rightarrow> True
      | SigProcessDied _ _ \<Rightarrow> True
      | SigLinkDied _ _ reason \<Rightarrow> reason = Failure \<or> reason = NoProcess
      | _ \<Rightarrow> False)"

definition request_kill :: "addr \<Rightarrow> ('s, 'q) world \<Rightarrow> ('s, 'q) world" where
  "request_kill a = upd_cell a (\<lambda>c. c\<lparr>c_kill := True\<rparr>)"

text \<open>
  The notice to an observer that could not reserve, \<open>observer.send(Signal::ProcessDied ..)\<close>: \<open>died\<close>
  sends it to a built-in process, a process from outside is called.  The result is only logged.
\<close>

definition observer_send ::
  "(addr \<Rightarrow> u64 \<Rightarrow> signal \<Rightarrow> ('s, 'q) world \<Rightarrow> ('s, 'q) world) \<Rightarrow> process_ref \<Rightarrow> signal \<Rightarrow> ('s, 'q) world \<Rightarrow>
    ('s, 'q) world" where
  "observer_send died obs sg w =
     (case obs of BuiltIn i b \<Rightarrow> died b i sg w
      | Custom i \<Rightarrow> w\<lparr>custom_calls := custom_calls w @ [(i, sg)]\<rparr>)"

definition acknowledge :: "nat option \<Rightarrow> ('s, 'q) world \<Rightarrow> ('s, 'q) world" where
  "acknowledge ack w = (case ack of None \<Rightarrow> w | Some k \<Rightarrow> w\<lparr>ack_sent := ack_sent w @ [k]\<rparr>)"

definition complete_exited_monitor ::
  "('s, 'q) signal_rt \<Rightarrow> (addr \<Rightarrow> u64 \<Rightarrow> signal \<Rightarrow> ('s, 'q) world \<Rightarrow> ('s, 'q) world) \<Rightarrow> process_ref \<Rightarrow> nat option \<Rightarrow>
    monitor_notification option \<Rightarrow> u64 \<Rightarrow> death_reason \<Rightarrow> ('s, 'q) world \<Rightarrow> ('s, 'q) world" where
  "complete_exited_monitor R died obs ack n pid reason w =
     acknowledge ack
       (case n of Some m \<Rightarrow> deliver_notification R m pid reason w
        | None \<Rightarrow> observer_send died obs (SigProcessDied pid reason) w)"

definition complete_monitor_after_exit ::
  "('s, 'q) signal_rt \<Rightarrow> (addr \<Rightarrow> u64 \<Rightarrow> signal \<Rightarrow> ('s, 'q) world \<Rightarrow> ('s, 'q) world) \<Rightarrow> u64 \<Rightarrow> death_reason \<Rightarrow> signal \<Rightarrow>
    ('s, 'q) world \<Rightarrow> (signal_send_error + unit) \<times> ('s, 'q) world" where
  "complete_monitor_after_exit R died pid reason sg w =
     (case sg of
        SigMonitor obs ack \<Rightarrow>
          (case process_reserve R obs w of
             Inr (n, w') \<Rightarrow> (Inr (), complete_exited_monitor R died obs ack n pid reason w')
           | Inl ObserverMailboxFull \<Rightarrow> (Inl (SendMailboxFull sg), w)
           | Inl ObserverClosed \<Rightarrow> (Inl (SendClosed sg), w))
      | _ \<Rightarrow> (Inl (SendClosed sg), w))"

text \<open>The method of the envelope: its reservation was made before the queue turned out to be closed.\<close>

definition envelope_complete_after_exit ::
  "('s, 'q) signal_rt \<Rightarrow> (addr \<Rightarrow> u64 \<Rightarrow> signal \<Rightarrow> ('s, 'q) world \<Rightarrow> ('s, 'q) world) \<Rightarrow> addr \<Rightarrow> u64 \<Rightarrow> death_reason \<Rightarrow> envelope \<Rightarrow>
    ('s, 'q) world \<Rightarrow> (signal_send_error + unit) \<times> ('s, 'q) world" where
  "envelope_complete_after_exit R died a pid reason e w =
     (case env_signal e of
        SigMonitor obs ack \<Rightarrow>
          (Inr (), drop_envelope R a (e\<lparr>env_notification := None\<rparr>)
                     (complete_exited_monitor R died obs ack (env_notification e) pid reason w))
      | sg \<Rightarrow> (Inl (SendClosed sg), drop_envelope R a e w))"

definition message_limit_error :: "('s, 'q) cell \<Rightarrow> signal \<Rightarrow> signal_send_error option" where
  "message_limit_error c sg =
     (case sg of
        SigMessage (Data m) \<Rightarrow>
          (let bytes = u64_of_usize (buffer_cap m); res = u64_of_usize (resources_cap m) in
           if c_max_bytes c < bytes then Some (SendMessageTooLarge sg bytes (c_max_bytes c))
           else if c_max_resources c < res then Some (SendTooManyResources sg res (c_max_resources c))
           else None)
      | _ \<Rightarrow> None)"

text \<open>
  The admission steps of \<open>send_inner\<close> on an envelope in the making.  A failing step gives the error and
  drops what the envelope holds so far.
\<close>

type_synonym ('s, 'q) signal_admission_step = "envelope \<Rightarrow> ('s, 'q) world \<Rightarrow> signal_send_error + envelope \<times> ('s, 'q) world"

definition admit_mailbox :: "('s, 'q) signal_rt \<Rightarrow> addr \<Rightarrow> ('s, 'q) signal_admission_step" where
  "admit_mailbox R a e w =
     (if reserves_mailbox_capacity (env_signal e) then
        (case try_reserve (rt_sem R) (c_mailbox (cells w a)) of
           None \<Rightarrow> Inl (SendMailboxFull (env_signal e))
         | Some (p, mb) \<Rightarrow>
             Inr (e\<lparr>env_mailbox_permit := Some p\<rparr>, upd_cell a (\<lambda>c. c\<lparr>c_mailbox := mb\<rparr>) w))
      else Inr (e, w))"

definition admit_data :: "('s, 'q) signal_rt \<Rightarrow> addr \<Rightarrow> ('s, 'q) signal_admission_step" where
  "admit_data R a e w =
     (if env_mailbox_permit e \<noteq> None then
        (case sem_try_acquire (rt_sem R) (c_data (cells w a)) of
           None \<Rightarrow> Inl (SendQueueFull (env_signal e))
         | Some s \<Rightarrow> Inr (e\<lparr>env_data_permit := True\<rparr>, upd_cell a (\<lambda>c. c\<lparr>c_data := s\<rparr>) w))
      else Inr (e, w))"

definition admit_monitor_permit :: "('s, 'q) signal_rt \<Rightarrow> addr \<Rightarrow> ('s, 'q) signal_admission_step" where
  "admit_monitor_permit R a e w =
     (case env_signal e of
        SigMonitor _ _ \<Rightarrow>
          (case sem_try_acquire (rt_sem R) (c_mon (cells w a)) of
             None \<Rightarrow> Inl (SendQueueFull (env_signal e))
           | Some s \<Rightarrow> Inr (e\<lparr>env_monitor_permit := True\<rparr>, upd_cell a (\<lambda>c. c\<lparr>c_mon := s\<rparr>) w))
      | _ \<Rightarrow> Inr (e, w))"

definition admit_notification :: "('s, 'q) signal_rt \<Rightarrow> ('s, 'q) signal_admission_step" where
  "admit_notification R e w =
     (case env_signal e of
        SigMonitor obs _ \<Rightarrow>
          (case process_reserve R obs w of
             Inr (n, w') \<Rightarrow> Inr (e\<lparr>env_notification := n\<rparr>, w')
           | Inl ObserverMailboxFull \<Rightarrow> Inl (SendMailboxFull (env_signal e))
           | Inl ObserverClosed \<Rightarrow> Inl (SendClosed (env_signal e)))
      | _ \<Rightarrow> Inr (e, w))"

definition or_drop ::
  "('s, 'q) signal_rt \<Rightarrow> addr \<Rightarrow> ('s, 'q) signal_admission_step \<Rightarrow> envelope \<Rightarrow> ('s, 'q) world \<Rightarrow>
    (envelope \<Rightarrow> ('s, 'q) world \<Rightarrow> (signal_send_error + unit) \<times> ('s, 'q) world) \<Rightarrow>
    (signal_send_error + unit) \<times> ('s, 'q) world" where
  "or_drop R a f e w k =
     (case f e w of Inl err \<Rightarrow> (Inl err, drop_envelope R a e w) | Inr (e', w') \<Rightarrow> k e' w')"

definition terminal_or_gone :: "('s, 'q) cell \<Rightarrow> death_reason" where
  "terminal_or_gone c = (case c_death c of Some r \<Rightarrow> r | None \<Rightarrow> NoProcess)"

definition enqueue ::
  "('s, 'q) signal_rt \<Rightarrow> (addr \<Rightarrow> u64 \<Rightarrow> signal \<Rightarrow> ('s, 'q) world \<Rightarrow> ('s, 'q) world) \<Rightarrow> addr \<Rightarrow> u64 option \<Rightarrow> envelope \<Rightarrow>
    ('s, 'q) world \<Rightarrow> (signal_send_error + unit) \<times> ('s, 'q) world" where
  "enqueue R died a target e w =
     (case ch_try_send (rt_chan R) (c_chan (cells w a)) e of
        Inr q \<Rightarrow> (Inr (), upd_cell a (\<lambda>c. c\<lparr>c_chan := q\<rparr>) w)
      | Inl (ChanFull e') \<Rightarrow> (Inl (SendQueueFull (env_signal e')), drop_envelope R a e' w)
      | Inl (ChanClosed e') \<Rightarrow>
          (case target of
             Some pid \<Rightarrow> envelope_complete_after_exit R died a pid (terminal_or_gone (cells w a)) e' w
           | None \<Rightarrow> (Inl (SendClosed (env_signal e')), drop_envelope R a e' w)))"

definition admit ::
  "('s, 'q) signal_rt \<Rightarrow> (addr \<Rightarrow> u64 \<Rightarrow> signal \<Rightarrow> ('s, 'q) world \<Rightarrow> ('s, 'q) world) \<Rightarrow> addr \<Rightarrow> u64 option \<Rightarrow> signal \<Rightarrow>
    ('s, 'q) world \<Rightarrow> (signal_send_error + unit) \<times> ('s, 'q) world" where
  "admit R died a target sg w =
     or_drop R a (admit_mailbox R a) (control sg) w (\<lambda>e1 w1.
     or_drop R a (admit_data R a) e1 w1 (\<lambda>e2 w2.
     or_drop R a (admit_monitor_permit R a) e2 w2 (\<lambda>e3 w3.
     or_drop R a (admit_notification R) e3 w3 (enqueue R died a target))))"

text \<open>\<open>send_inner\<close>; \<open>died\<close> is the notice to a built-in observer described above.\<close>

definition send_with ::
  "('s, 'q) signal_rt \<Rightarrow> (addr \<Rightarrow> u64 \<Rightarrow> signal \<Rightarrow> ('s, 'q) world \<Rightarrow> ('s, 'q) world) \<Rightarrow> addr \<Rightarrow> signal \<Rightarrow> u64 option \<Rightarrow>
    ('s, 'q) world \<Rightarrow> (signal_send_error + unit) \<times> ('s, 'q) world" where
  "send_with R died a sg target w =
     (let c = cells w a in
      case sg of SigLink _ _ \<Rightarrow> (Inl (SendClosed sg), w) | SigUnLink _ \<Rightarrow> (Inl (SendClosed sg), w)
      | _ \<Rightarrow>
        (case (target, c_death c) of
           (Some pid, Some reason) \<Rightarrow> complete_monitor_after_exit R died pid reason sg w
         | _ \<Rightarrow>
             if ch_is_closed (rt_chan R) (c_chan c) then
               (case target of
                  Some pid \<Rightarrow> complete_monitor_after_exit R died pid (terminal_or_gone c) sg w
                | None \<Rightarrow> (Inl (SendClosed sg), w))
             else if sg = SigKill then (Inr (), request_kill a w)
             else case message_limit_error c sg of
               Some err \<Rightarrow> (Inl err, w)
             | None \<Rightarrow> admit R died a target sg w))"

text \<open>
  The notice itself is no monitor, so sending it never comes back to this place: one unrolling of the
  mutual recursion between \<open>send_inner\<close> and \<open>complete_exited_monitor\<close> is exact.
\<close>

definition send_died :: "('s, 'q) signal_rt \<Rightarrow> addr \<Rightarrow> u64 \<Rightarrow> signal \<Rightarrow> ('s, 'q) world \<Rightarrow> ('s, 'q) world" where
  "send_died R b i sg w = snd (send_with R (\<lambda>_ _ _ w. w) b sg (Some i) w)"

definition send_inner ::
  "('s, 'q) signal_rt \<Rightarrow> addr \<Rightarrow> signal \<Rightarrow> u64 option \<Rightarrow> ('s, 'q) world \<Rightarrow>
    (signal_send_error + unit) \<times> ('s, 'q) world" where
  "send_inner R = send_with R (send_died R)"

definition sender_send ::
  "('s, 'q) signal_rt \<Rightarrow> addr \<Rightarrow> signal \<Rightarrow> ('s, 'q) world \<Rightarrow> (signal_send_error + unit) \<times> ('s, 'q) world" where
  "sender_send R a sg = send_inner R a sg None"

definition send_to_process ::
  "('s, 'q) signal_rt \<Rightarrow> addr \<Rightarrow> u64 \<Rightarrow> signal \<Rightarrow> ('s, 'q) world \<Rightarrow> (signal_send_error + unit) \<times> ('s, 'q) world" where
  "send_to_process R a pid sg = send_inner R a sg (Some pid)"

text \<open>\<open>Process::send\<close>.  What a process from outside answers is not observed by its callers here.\<close>

fun process_send ::
  "('s, 'q) signal_rt \<Rightarrow> process_ref \<Rightarrow> signal \<Rightarrow> ('s, 'q) world \<Rightarrow> (signal_send_error + unit) \<times> ('s, 'q) world" where
  "process_send R (BuiltIn i a) sg w = send_to_process R a i sg w"
| "process_send R (Custom i) sg w = (Inr (), w\<lparr>custom_calls := custom_calls w @ [(i, sg)]\<rparr>)"

section \<open>Receiving\<close>

text \<open>
  One poll of \<open>recv\<close>: pending (\<open>None\<close>), or ready with an envelope or with the end of the queue.  The
  receiver keeps a sender alive, so the queue ends only by being closed.
\<close>

definition recv_poll ::
  "('s, 'q) signal_rt \<Rightarrow> addr \<Rightarrow> ('s, 'q) world \<Rightarrow> envelope option option \<times> ('s, 'q) world" where
  "recv_poll R a w =
     (let c = cells w a in
      if c_kill c then (Some (Some (control SigKill)), upd_cell a (\<lambda>c. c\<lparr>c_kill := False\<rparr>) w)
      else case ch_try_recv (rt_chan R) (c_chan c) of
        Some (e, q) \<Rightarrow> (Some (Some e), upd_cell a (\<lambda>c. c\<lparr>c_chan := q\<rparr>) w)
      | None \<Rightarrow> (if ch_is_closed (rt_chan R) (c_chan c) then Some None else None, w))"

text \<open>\<open>OnceLock::set\<close> keeps the first value.\<close>

definition publish_terminal_reason :: "addr \<Rightarrow> death_reason \<Rightarrow> ('s, 'q) world \<Rightarrow> ('s, 'q) world" where
  "publish_terminal_reason a reason =
     upd_cell a (\<lambda>c. c\<lparr>c_death := (case c_death c of None \<Rightarrow> Some reason | Some r \<Rightarrow> Some r)\<rparr>)"

definition close_with_reason ::
  "('s, 'q) signal_rt \<Rightarrow> addr \<Rightarrow> death_reason \<Rightarrow> ('s, 'q) world \<Rightarrow> ('s, 'q) world" where
  "close_with_reason R a reason w =
     upd_cell a (\<lambda>c. c\<lparr>c_chan := ch_close (rt_chan R) (c_chan c)\<rparr>) (publish_terminal_reason a reason w)"

definition try_recv :: "('s, 'q) signal_rt \<Rightarrow> addr \<Rightarrow> ('s, 'q) world \<Rightarrow> (envelope \<times> ('s, 'q) world) option" where
  "try_recv R a w =
     (case ch_try_recv (rt_chan R) (c_chan (cells w a)) of
        None \<Rightarrow> None
      | Some (e, q) \<Rightarrow> Some (e, upd_cell a (\<lambda>c. c\<lparr>c_chan := q\<rparr>) w))"

section \<open>The shape of a world update\<close>

lemma cells_upd_cell [simp]: "cells (upd_cell a f w) = (cells w)(a := f (cells w a))"
  by (simp add: upd_cell_def)

lemma upd_cell_frame [simp]:
  "next_cell (upd_cell a f w) = next_cell w" "next_token (upd_cell a f w) = next_token w"
  "counted_alive (upd_cell a f w) = counted_alive w" "links_alive (upd_cell a f w) = links_alive w"
  "custom_calls (upd_cell a f w) = custom_calls w" "ack_sent (upd_cell a f w) = ack_sent w"
  by (simp_all add: upd_cell_def)

lemma upd_cell_twice [simp]: "upd_cell a f (upd_cell a g w) = upd_cell a (\<lambda>c. f (g c)) w"
  by (simp add: upd_cell_def)

lemma upd_cell_same: "f (cells w a) = cells w a \<Longrightarrow> upd_cell a f w = w"
  by (simp add: upd_cell_def)

lemma upd_cell_cong: "f (cells w a) = g (cells w a) \<Longrightarrow> upd_cell a f w = upd_cell a g w"
  by (simp add: upd_cell_def)

lemma upd_cell_swap: "a \<noteq> b \<Longrightarrow> upd_cell a f (upd_cell b g w) = upd_cell b g (upd_cell a f w)"
  by (simp add: upd_cell_def fun_upd_twist)

lemmas drop_defs = drop_envelope_def drop_notification_def drop_monitor_permit_def
  drop_data_permit_def drop_mailbox_permit_def

lemma control_simps [simp]:
  "env_signal (control sg) = sg" "env_mailbox_permit (control sg) = None"
  "\<not> env_data_permit (control sg)" "\<not> env_monitor_permit (control sg)"
  "env_notification (control sg) = None"
  by (simp_all add: control_def)

lemma control_no_notification [simp]:
  "(control sg)\<lparr>env_monitor_permit := m, env_notification := None\<rparr> = (control sg)\<lparr>env_monitor_permit := m\<rparr>"
  by (simp add: control_def)

lemma drop_control [simp]: "drop_envelope R a (control sg) w = w"
  by (simp add: drop_defs)

section \<open>What a send does\<close>

text \<open>A refused signal: nothing is left reserved, and the caller gets its signal back.\<close>

definition refused :: "signal \<Rightarrow> ('s, 'q) world \<Rightarrow> (signal_send_error + unit) \<times> ('s, 'q) world \<Rightarrow> bool" where
  "refused sg w r \<longleftrightarrow> (\<exists>err. r = (Inl err, w) \<and> send_error_signal err = sg)"

text \<open>
  An accepted signal, by kind: the kill latch; a signal that becomes a message; a monitor of a built-in
  observer or of one from outside; any other control signal; and a monitor of a process that has exited,
  which is answered at once.
\<close>

definition receiver_gone :: "('s, 'q) signal_rt \<Rightarrow> ('s, 'q) cell \<Rightarrow> bool" where
  "receiver_gone R c \<longleftrightarrow> c_death c \<noteq> None \<or> ch_is_closed (rt_chan R) (c_chan c)"

fun plain_control :: "signal \<Rightarrow> bool" where
  "plain_control (SigDieWhenLinkDies _) = True"
| "plain_control (SigLinkDied _ _ reason) = (reason = Normal)"
| "plain_control (SigStopMonitoring _) = True"
| "plain_control (SigHotReload _ _ _ _) = True"
| "plain_control (SigRollback _ _ _ _) = True"
| "plain_control _ = False"

lemma signal_classes:
  "plain_control sg \<or> reserves_mailbox_capacity sg \<or> sg = SigKill \<or>
   (\<exists>o' k. sg = SigMonitor o' k) \<or> (\<exists>t o'. sg = SigLink t o') \<or> (\<exists>i. sg = SigUnLink i)"
proof (cases sg)
  case (SigLinkDied i t r)
  then show ?thesis by (cases r) (auto simp: reserves_mailbox_capacity_def)
qed (auto simp: reserves_mailbox_capacity_def)

inductive sent ::
  "('s, 'q) signal_rt \<Rightarrow> addr \<Rightarrow> signal \<Rightarrow> u64 option \<Rightarrow> ('s, 'q) world \<Rightarrow> ('s, 'q) world \<Rightarrow> bool"
  for R a where
  sent_kill:
    "\<not> ch_is_closed (rt_chan R) (c_chan (cells w a)) \<Longrightarrow> sent R a SigKill target w (request_kill a w)"
| sent_data:
    "reserves_mailbox_capacity sg \<Longrightarrow> message_limit_error (cells w a) sg = None \<Longrightarrow>
     try_reserve (rt_sem R) (c_mailbox (cells w a)) = Some (p, mb) \<Longrightarrow>
     sem_try_acquire (rt_sem R) (c_data (cells w a)) = Some s \<Longrightarrow>
     ch_try_send (rt_chan R) (c_chan (cells w a))
       ((control sg)\<lparr>env_mailbox_permit := Some p, env_data_permit := True\<rparr>) = Inr q \<Longrightarrow>
     sent R a sg target w (upd_cell a (\<lambda>c. c\<lparr>c_mailbox := mb, c_data := s, c_chan := q\<rparr>) w)"
| sent_monitor:
    "sem_try_acquire (rt_sem R) (c_mon (cells w a)) = Some s \<Longrightarrow>
     reserve_monitor_notification R b (upd_cell a (\<lambda>c. c\<lparr>c_mon := s\<rparr>) w) = Inr (n, w1) \<Longrightarrow>
     ch_try_send (rt_chan R) (c_chan (cells w a))
       ((control (SigMonitor (BuiltIn i b) ack))\<lparr>env_monitor_permit := True, env_notification := Some n\<rparr>) = Inr q \<Longrightarrow>
     sent R a (SigMonitor (BuiltIn i b) ack) target w (upd_cell a (\<lambda>c. c\<lparr>c_chan := q\<rparr>) w1)"
| sent_monitor_custom:
    "sem_try_acquire (rt_sem R) (c_mon (cells w a)) = Some s \<Longrightarrow>
     ch_try_send (rt_chan R) (c_chan (cells w a))
       ((control (SigMonitor (Custom i) ack))\<lparr>env_monitor_permit := True\<rparr>) = Inr q \<Longrightarrow>
     sent R a (SigMonitor (Custom i) ack) target w (upd_cell a (\<lambda>c. c\<lparr>c_mon := s, c_chan := q\<rparr>) w)"
| sent_control:
    "plain_control sg \<Longrightarrow> ch_try_send (rt_chan R) (c_chan (cells w a)) (control sg) = Inr q \<Longrightarrow>
     sent R a sg target w (upd_cell a (\<lambda>c. c\<lparr>c_chan := q\<rparr>) w)"
| sent_late:
    "target = Some pid \<Longrightarrow> receiver_gone R (cells w a) \<Longrightarrow>
     reserve_monitor_notification R b w = Inr (n, w1) \<Longrightarrow>
     sent R a (SigMonitor (BuiltIn i b) ack) target w
       (acknowledge ack (deliver_notification R n pid (terminal_or_gone (cells w a)) w1))"
| sent_late_custom:
    "target = Some pid \<Longrightarrow> receiver_gone R (cells w a) \<Longrightarrow>
     sent R a (SigMonitor (Custom i) ack) target w
       (acknowledge ack (w\<lparr>custom_calls := custom_calls w @
          [(i, SigProcessDied pid (terminal_or_gone (cells w a)))]\<rparr>))"

definition answered ::
  "('s, 'q) signal_rt \<Rightarrow> addr \<Rightarrow> signal \<Rightarrow> u64 option \<Rightarrow> ('s, 'q) world \<Rightarrow>
    (signal_send_error + unit) \<times> ('s, 'q) world \<Rightarrow> bool" where
  "answered R a sg target w r \<longleftrightarrow> refused sg w r \<or> (\<exists>w'. r = (Inr (), w') \<and> sent R a sg target w w')"

lemma answered_simps [simp]:
  "send_error_signal err = sg \<Longrightarrow> answered R a sg target w (Inl err, w)"
  "answered R a sg target w (Inr u, w') = sent R a sg target w w'"
  by (simp_all add: answered_def refused_def)

locale signal_runtime = sem: semaphore "rt_sem R" + chan: bounded_channel "rt_chan R" queued bound
  for R :: "('s, 'q) signal_rt" and queued :: "'q \<Rightarrow> envelope list" and bound :: "'q \<Rightarrow> usize"
begin

lemma try_reserve_undo: "try_reserve (rt_sem R) mb = Some (p, mb') \<Longrightarrow> drop_permit (rt_sem R) mb' = mb"
  by (auto simp: try_reserve_def drop_permit_def split: option.splits)

lemma reserve_undo:
  "reserve_monitor_notification R b w = Inr (n, w') \<Longrightarrow> drop_notification R (Some n) w' = w"
  by (auto simp: reserve_monitor_notification_def drop_notification_def try_reserve_undo
      intro!: upd_cell_same split: if_splits option.splits)

lemma reserve_cases:
  assumes "reserve_monitor_notification R b w = Inr (n, w')"
  obtains p mb where "\<not> ch_is_closed (rt_chan R) (c_chan (cells w b))"
    "try_reserve (rt_sem R) (c_mailbox (cells w b)) = Some (p, mb)"
    "n = \<lparr>mn_addr = b, mn_permit = p\<rparr>" "w' = upd_cell b (\<lambda>c. c\<lparr>c_mailbox := mb\<rparr>) w"
  using assms by (auto simp: reserve_monitor_notification_def split: if_splits option.splits)

lemma reserve_undo_monitor:
  assumes "reserve_monitor_notification R b w = Inr (n, w')"
  shows "drop_notification R (Some n) (drop_monitor_permit R a h w') = drop_monitor_permit R a h w"
proof (rule reserve_cases[OF assms])
  fix p mb
  assume tr: "try_reserve (rt_sem R) (c_mailbox (cells w b)) = Some (p, mb)"
    and n: "n = \<lparr>mn_addr = b, mn_permit = p\<rparr>" and w': "w' = upd_cell b (\<lambda>c. c\<lparr>c_mailbox := mb\<rparr>) w"
  have "(cells w b)\<lparr>c_mailbox := drop_permit (rt_sem R) mb\<rparr> = cells w b"
    by (simp add: try_reserve_undo[OF tr])
  then show ?thesis
    by (cases "a = b") (auto simp: n w' drop_notification_def drop_monitor_permit_def upd_cell_def
        try_reserve_undo[OF tr] fun_upd_twist)
qed

lemma late_answer:
  assumes "receiver_gone R (cells w a)" "target = Some pid"
  shows "answered R a sg target w (complete_monitor_after_exit R died pid (terminal_or_gone (cells w a)) sg w)"
proof (cases "\<exists>obs ack. sg = SigMonitor obs ack")
  case True
  then obtain obs ack where sg: "sg = SigMonitor obs ack" by blast
  show ?thesis
  proof (cases obs)
    case (BuiltIn i b)
    show ?thesis
    proof (cases "reserve_monitor_notification R b w")
      case (Inl e)
      then show ?thesis
        by (cases e) (auto simp: sg BuiltIn complete_monitor_after_exit_def)
    next
      case (Inr nw)
      then show ?thesis
        using sent_late[OF assms(2,1)]
        by (cases nw) (auto simp: sg BuiltIn complete_monitor_after_exit_def complete_exited_monitor_def)
    qed
  next
    case (Custom i)
    then show ?thesis
      using sent_late_custom[OF assms(2,1)]
      by (auto simp: sg complete_monitor_after_exit_def complete_exited_monitor_def observer_send_def)
  qed
next
  case False
  then show ?thesis
    by (cases sg) (auto simp: complete_monitor_after_exit_def)
qed

lemma enqueue_open:
  assumes "\<not> ch_is_closed (rt_chan R) (c_chan (cells w a))"
  shows "enqueue R died a target e w = (Inl (SendQueueFull (env_signal e)), drop_envelope R a e w) \<or>
    (\<exists>q. ch_try_send (rt_chan R) (c_chan (cells w a)) e = Inr q \<and>
       enqueue R died a target e w = (Inr (), upd_cell a (\<lambda>c. c\<lparr>c_chan := q\<rparr>) w))"
  using chan.send_cases[of "c_chan (cells w a)" e] assms by (auto simp: enqueue_def)

lemma admit_control_answer:
  assumes "\<not> ch_is_closed (rt_chan R) (c_chan (cells w a))" "plain_control sg"
  shows "answered R a sg target w (admit R died a target sg w)"
proof -
  have "admit R died a target sg w = enqueue R died a target (control sg) w"
    using assms(2) by (cases sg) (simp_all add: admit_def or_drop_def admit_mailbox_def admit_data_def
        admit_monitor_permit_def admit_notification_def reserves_mailbox_capacity_def)
  then show ?thesis
    using enqueue_open[OF assms(1), of died target "control sg"] assms(2)
    by (auto intro: sent_control)
qed

lemma admit_data_answer:
  assumes open_: "\<not> ch_is_closed (rt_chan R) (c_chan (cells w a))" and r: "reserves_mailbox_capacity sg"
    and lim: "message_limit_error (cells w a) sg = None"
  shows "answered R a sg target w (admit R died a target sg w)"
proof (cases "try_reserve (rt_sem R) (c_mailbox (cells w a))")
  case None
  then show ?thesis
    by (simp add: admit_def or_drop_def admit_mailbox_def r)
next
  case (Some pm)
  then obtain p mb where tr: "try_reserve (rt_sem R) (c_mailbox (cells w a)) = Some (p, mb)" by (cases pm) auto
  show ?thesis
  proof (cases "sem_try_acquire (rt_sem R) (c_data (cells w a))")
    case None
    have "upd_cell a (\<lambda>c. c\<lparr>c_mailbox := drop_permit (rt_sem R) mb\<rparr>) w = w"
      by (rule upd_cell_same) (simp add: try_reserve_undo[OF tr])
    then show ?thesis
      using tr r None
      by (simp add: admit_def or_drop_def admit_mailbox_def admit_data_def drop_defs)
  next
    case (Some s)
    let ?e = "(control sg)\<lparr>env_mailbox_permit := Some p, env_data_permit := True\<rparr>"
    let ?w = "upd_cell a (\<lambda>c. c\<lparr>c_mailbox := mb, c_data := s\<rparr>) w"
    have adm: "admit R died a target sg w = enqueue R died a target ?e ?w"
      using tr r Some by (cases sg) (auto simp: admit_def or_drop_def admit_mailbox_def admit_data_def
          admit_monitor_permit_def admit_notification_def reserves_mailbox_capacity_def)
    have "drop_envelope R a ?e ?w = w"
      by (simp add: drop_defs try_reserve_undo[OF tr] sem.acquire_release[OF Some] upd_cell_same)
    then show ?thesis
      using enqueue_open[of ?w a died target ?e] open_ adm sent_data[OF r lim tr Some]
      by auto
  qed
qed

lemma admit_monitor_answer:
  assumes open_: "\<not> ch_is_closed (rt_chan R) (c_chan (cells w a))"
  shows "answered R a (SigMonitor obs ack) target w (admit R died a target (SigMonitor obs ack) w)"
proof (cases "sem_try_acquire (rt_sem R) (c_mon (cells w a))")
  case None
  then show ?thesis
    by (simp add: admit_def or_drop_def admit_mailbox_def admit_data_def admit_monitor_permit_def
        reserves_mailbox_capacity_def)
next
  case acq: (Some s)
  let ?w = "upd_cell a (\<lambda>c. c\<lparr>c_mon := s\<rparr>) w"
  let ?e = "(control (SigMonitor obs ack))\<lparr>env_monitor_permit := True\<rparr>"
  have undo: "drop_envelope R a ?e ?w = w"
    by (simp add: drop_defs sem.acquire_release[OF acq] upd_cell_same)
  have adm: "admit R died a target (SigMonitor obs ack) w =
      or_drop R a (admit_notification R) ?e ?w (enqueue R died a target)"
    by (simp add: admit_def or_drop_def[of _ _ "admit_mailbox R a"] or_drop_def[of _ _ "admit_data R a"]
        or_drop_def[of _ _ "admit_monitor_permit R a"] admit_mailbox_def admit_data_def
        admit_monitor_permit_def reserves_mailbox_capacity_def acq)
  show ?thesis
  proof (cases obs)
    case (Custom i)
    then show ?thesis
      using enqueue_open[of ?w a died target ?e] open_ undo sent_monitor_custom[OF acq, of i ack]
      unfolding adm by (auto simp: or_drop_def admit_notification_def)
  next
    case (BuiltIn i b)
    show ?thesis
    proof (cases "reserve_monitor_notification R b ?w")
      case (Inl err)
      then show ?thesis
        unfolding adm using undo by (cases err) (auto simp: or_drop_def admit_notification_def BuiltIn)
    next
      case (Inr nw)
      then obtain n w1 where res: "reserve_monitor_notification R b ?w = Inr (n, w1)" by (cases nw) auto
      let ?f = "?e\<lparr>env_notification := Some n\<rparr>"
      have chan: "c_chan (cells w1 a) = c_chan (cells w a)"
        using res by (auto simp: reserve_monitor_notification_def split: if_splits option.splits)
      have "drop_envelope R a ?f w1 = w"
        using reserve_undo_monitor[OF res, of a True] undo by (simp add: drop_defs)
      then show ?thesis
        using enqueue_open[of w1 a died target ?f] open_ sent_monitor[OF acq res] chan res
        unfolding adm by (auto simp: or_drop_def admit_notification_def BuiltIn)
    qed
  qed
qed

theorem send_with_answer: "answered R a sg target w (send_with R died a sg target w)"
proof (cases "receiver_gone R (cells w a) \<and> target \<noteq> None")
  case True
  then obtain pid where t: "target = Some pid" by blast
  note late = late_answer[OF conjunct1[OF True] t, of sg died]
  show ?thesis
    using True late by (cases sg; cases "c_death (cells w a)")
      (simp_all add: send_with_def t receiver_gone_def terminal_or_gone_def)
next
  case False
  let ?c = "cells w a"
  show ?thesis
  proof (cases "ch_is_closed (rt_chan R) (c_chan ?c)")
    case True
    then show ?thesis
      using False by (cases sg) (simp_all add: send_with_def receiver_gone_def)
  next
    case open_: False
    have gone: "target = None \<or> c_death ?c = None"
      using False by (auto simp: receiver_gone_def)
    consider (link) "(\<exists>t o'. sg = SigLink t o') \<or> (\<exists>i. sg = SigUnLink i)" | (kill) "sg = SigKill"
      | (other) "\<forall>t o'. sg \<noteq> SigLink t o'" "\<forall>i. sg \<noteq> SigUnLink i" "sg \<noteq> SigKill" by blast
    then show ?thesis
    proof cases
      case link
      then show ?thesis by (auto simp: send_with_def)
    next
      case kill
      then show ?thesis
        using gone open_ sent_kill[OF open_] by (cases target) (auto simp: send_with_def Let_def)
    next
      case other
      have "send_with R died a sg target w =
          (case message_limit_error ?c sg of Some err \<Rightarrow> (Inl err, w) | None \<Rightarrow> admit R died a target sg w)"
        using gone open_ other by (cases sg; cases target) (auto simp: send_with_def Let_def)
      moreover have "message_limit_error ?c sg = Some err \<Longrightarrow> send_error_signal err = sg" for err
        by (auto simp: message_limit_error_def Let_def split: signal.splits message.splits if_splits)
      moreover have "message_limit_error ?c sg = None \<Longrightarrow> answered R a sg target w (admit R died a target sg w)"
        using signal_classes[of sg] other admit_data_answer[OF open_] admit_monitor_answer[OF open_]
          admit_control_answer[OF open_] by auto
      ultimately show ?thesis by (auto split: option.splits)
    qed
  qed
qed

end

text \<open>The counting semaphore and the list channel are such a runtime.\<close>

definition list_rt :: "(usize, envelope list_channel) signal_rt" where
  "list_rt = \<lparr>rt_sem = counting_semaphore, rt_chan = list_channel_ops\<rparr>"

interpretation list_runtime: signal_runtime list_rt lc_items lc_bound
  by (simp add: signal_runtime_def list_rt_def counting.semaphore_axioms list_channel.bounded_channel_axioms)

end
