(* ===== verification/Links.thy ===== *)
theory Links
  imports Signals
begin

text \<open>
  \<open>lunatic-process/src/state.rs\<close>, bilateral links: a link is two relations with one token, one in the
  state of each process, each owning a permit of its process.  \<open>link_pair\<close> installs both under both
  locks; \<open>unlink_peer\<close> and the termination of a process remove them.

  A termination takes its relations first and then visits the peers one lock at a time, so other
  operations run in between.  The operations are first defined as the source has them, then a machine
  interleaves their critical sections.  Its invariant is that no relation is left without its
  counterpart, that every relation is paid for by a permit, and that the gauge of live links is right.
\<close>

section \<open>Handles\<close>

record process_lifecycle_handle =
  lh_id :: u64
  lh_addr :: addr

datatype link_error =
  UnsupportedProcess
| IdentityMismatch u64
| Terminated u64
| CapacityExhausted u64
| InconsistentState u64 u64

text \<open>\<open>process_id\<close> is a \<open>OnceLock\<close>: the first handle sets it, a handle with another identity is refused.\<close>

definition lifecycle_handle ::
  "addr \<Rightarrow> u64 \<Rightarrow> ('s, 'q) world \<Rightarrow> process_lifecycle_handle option \<times> ('s, 'q) world" where
  "lifecycle_handle a i w =
     (if \<not> c_alive (cells w a) then (None, w)
      else case c_id (cells w a) of
        None \<Rightarrow> (Some \<lparr>lh_id = i, lh_addr = a\<rparr>, upd_cell a (\<lambda>c. c\<lparr>c_id := Some i\<rparr>) w)
      | Some j \<Rightarrow> (if j = i then Some \<lparr>lh_id = i, lh_addr = a\<rparr> else None, w))"

text \<open>A process from outside has no handle.\<close>

definition checked_lifecycle_handle ::
  "process_ref \<Rightarrow> u64 option \<Rightarrow> ('s, 'q) world \<Rightarrow> (link_error + process_lifecycle_handle) \<times> ('s, 'q) world" where
  "checked_lifecycle_handle p expected w =
     (case p of
        Custom _ \<Rightarrow> (Inl UnsupportedProcess, w)
      | BuiltIn i a \<Rightarrow>
          (case lifecycle_handle a i w of
             (None, w') \<Rightarrow> (Inl UnsupportedProcess, w')
           | (Some h, w') \<Rightarrow>
               (let claimed = (case expected of Some e \<Rightarrow> e | None \<Rightarrow> i) in
                if claimed \<noteq> lh_id h then (Inl (IdentityMismatch claimed), w') else (Inr h, w'))))"

section \<open>Telemetry\<close>

definition record_link_created :: "('s, 'q) world \<Rightarrow> ('s, 'q) world" where
  "record_link_created w = w\<lparr>links_alive := links_alive w + 1\<rparr>"

text \<open>The flag of the token makes the pair count once.\<close>

definition record_link_removed :: "nat \<Rightarrow> ('s, 'q) world \<Rightarrow> ('s, 'q) world" where
  "record_link_removed t w =
     (if counted_alive w t
      then w\<lparr>counted_alive := (counted_alive w)(t := False), links_alive := links_alive w - 1\<rparr>
      else w)"

section \<open>Linking\<close>

definition link_refused :: "('s, 'q) signal_rt \<Rightarrow> ('s, 'q) cell \<Rightarrow> bool" where
  "link_refused R c \<longleftrightarrow> c_terminal c \<noteq> None \<or> c_death c \<noteq> None \<or> ch_is_closed (rt_chan R) (c_chan c)"

definition set_exit_tag :: "u64 \<Rightarrow> i64 option \<Rightarrow> ('s, 'q) cell \<Rightarrow> ('s, 'q) cell" where
  "set_exit_tag k tag c =
     (case hm_get (c_relations c) k of
        None \<Rightarrow> c
      | Some r \<Rightarrow> c\<lparr>c_relations := hm_insert k (r\<lparr>rel_exit_tag := tag\<rparr>) (c_relations c)\<rparr>)"

definition add_relation :: "u64 \<Rightarrow> link_relation \<Rightarrow> 's \<Rightarrow> ('s, 'q) cell \<Rightarrow> ('s, 'q) cell" where
  "add_relation k r s c = c\<lparr>c_link := s, c_relations := hm_insert k r (c_relations c)\<rparr>"

text \<open>The body of \<open>install\<close>, under both locks; the result says whether a link was created.\<close>

definition install ::
  "('s, 'q) signal_rt \<Rightarrow> process_lifecycle_handle \<Rightarrow> i64 option \<Rightarrow> process_lifecycle_handle \<Rightarrow> i64 option \<Rightarrow> ('s, 'q) world \<Rightarrow>
    (link_error + bool) \<times> ('s, 'q) world" where
  "install R l ltag r rtag w =
     (let cl = cells w (lh_addr l); cr = cells w (lh_addr r) in
      if link_refused R cl then (Inl (Terminated (lh_id l)), w)
      else if link_refused R cr then (Inl (Terminated (lh_id r)), w)
      else case (hm_get (c_relations cl) (lh_id r), hm_get (c_relations cr) (lh_id l)) of
        (None, None) \<Rightarrow>
          (case sem_try_acquire (rt_sem R) (c_link cl) of
             None \<Rightarrow> (Inl (CapacityExhausted (lh_id l)), w)
           | Some sl \<Rightarrow>
               (case sem_try_acquire (rt_sem R) (c_link cr) of
                  None \<Rightarrow>
                    (Inl (CapacityExhausted (lh_id r)),
                     upd_cell (lh_addr l) (\<lambda>c. c\<lparr>c_link := sem_release (rt_sem R) sl\<rparr>) w)
                | Some sr \<Rightarrow>
                    (let t = next_token w in
                     (Inr True,
                      upd_cell (lh_addr r)
                        (add_relation (lh_id l) \<lparr>rel_token = t, rel_peer = lh_addr l, rel_exit_tag = rtag\<rparr> sr)
                       (upd_cell (lh_addr l)
                         (add_relation (lh_id r) \<lparr>rel_token = t, rel_peer = lh_addr r, rel_exit_tag = ltag\<rparr> sl)
                         (w\<lparr>next_token := Suc t, counted_alive := (counted_alive w)(t := True)\<rparr>))))))
      | (Some rl, Some rr) \<Rightarrow>
          if rel_token rl = rel_token rr
          then (Inr False, upd_cell (lh_addr r) (set_exit_tag (lh_id l) rtag)
                            (upd_cell (lh_addr l) (set_exit_tag (lh_id r) ltag) w))
          else (Inl (InconsistentState (lh_id l) (lh_id r)), w)
      | _ \<Rightarrow> (Inl (InconsistentState (lh_id l) (lh_id r)), w))"

definition link_pair ::
  "('s, 'q) signal_rt \<Rightarrow> process_lifecycle_handle \<Rightarrow> i64 option \<Rightarrow> process_lifecycle_handle \<Rightarrow> i64 option \<Rightarrow> ('s, 'q) world \<Rightarrow>
    (link_error + unit) \<times> ('s, 'q) world" where
  "link_pair R l ltag r rtag w =
     (if lh_addr l = lh_addr r then
        (if lh_id l = lh_id r then Inr () else Inl (IdentityMismatch (lh_id l)), w)
      else if lh_id l = lh_id r then (Inl (IdentityMismatch (lh_id l)), w)
      else case install R l ltag r rtag w of
        (Inl err, w') \<Rightarrow> (Inl err, w')
      | (Inr created, w') \<Rightarrow> (Inr (), if created then record_link_created w' else w'))"

definition link_processes ::
  "('s, 'q) signal_rt \<Rightarrow> process_ref \<Rightarrow> u64 option \<Rightarrow> i64 option \<Rightarrow> process_ref \<Rightarrow> u64 option \<Rightarrow> i64 option \<Rightarrow>
    ('s, 'q) world \<Rightarrow> (link_error + unit) \<times> ('s, 'q) world" where
  "link_processes R left eleft ltag right eright rtag w =
     (case checked_lifecycle_handle left eleft w of
        (Inl err, w1) \<Rightarrow> (Inl err, w1)
      | (Inr l, w1) \<Rightarrow>
          (case checked_lifecycle_handle right eright w1 of
             (Inl err, w2) \<Rightarrow> (Inl err, w2)
           | (Inr r, w2) \<Rightarrow> link_pair R l ltag r rtag w2))"

section \<open>Unlinking\<close>

definition matches :: "addr \<Rightarrow> u64 \<Rightarrow> nat \<Rightarrow> ('s, 'q) world \<Rightarrow> bool" where
  "matches a k t w \<longleftrightarrow>
     (case hm_get (c_relations (cells w a)) k of Some r \<Rightarrow> rel_token r = t | None \<Rightarrow> False)"

text \<open>A removed relation drops its permit.\<close>

definition remove_relation :: "('s, 'q) signal_rt \<Rightarrow> addr \<Rightarrow> u64 \<Rightarrow> ('s, 'q) world \<Rightarrow> ('s, 'q) world" where
  "remove_relation R a k =
     upd_cell a (\<lambda>c. c\<lparr>c_relations := hm_remove k (c_relations c), c_link := sem_release (rt_sem R) (c_link c)\<rparr>)"

definition remove_if ::
  "('s, 'q) signal_rt \<Rightarrow> addr \<Rightarrow> u64 \<Rightarrow> nat \<Rightarrow> ('s, 'q) world \<Rightarrow> bool \<times> ('s, 'q) world" where
  "remove_if R a k t w = (if matches a k t w then (True, remove_relation R a k w) else (False, w))"

text \<open>The two critical sections of \<open>unlink_peer\<close>: reading the relation, and removing it on both sides.\<close>

definition unlink_lookup :: "process_lifecycle_handle \<Rightarrow> u64 \<Rightarrow> ('s, 'q) world \<Rightarrow> (nat \<times> addr) option" where
  "unlink_lookup h peer_id w =
     map_option (\<lambda>r. (rel_token r, rel_peer r)) (hm_get (c_relations (cells w (lh_addr h))) peer_id)"

definition unlink_commit ::
  "('s, 'q) signal_rt \<Rightarrow> process_lifecycle_handle \<Rightarrow> u64 \<Rightarrow> nat \<times> addr \<Rightarrow> ('s, 'q) world \<Rightarrow> bool \<times> ('s, 'q) world" where
  "unlink_commit R h peer_id tp w =
     (case tp of (t, b) \<Rightarrow>
      if \<not> c_alive (cells w b) then
        (case remove_if R (lh_addr h) peer_id t w of
           (m, w') \<Rightarrow> (m, if m then record_link_removed t w' else w'))
      else
        (case remove_if R (lh_addr h) peer_id t w of
           (self_removed, w1) \<Rightarrow>
             (case remove_if R b (lh_id h) t w1 of
                (peer_removed, w2) \<Rightarrow>
                  (self_removed \<or> peer_removed,
                   if self_removed \<or> peer_removed then record_link_removed t w2 else w2))))"

definition unlink_peer ::
  "('s, 'q) signal_rt \<Rightarrow> process_lifecycle_handle \<Rightarrow> u64 \<Rightarrow> ('s, 'q) world \<Rightarrow> bool \<times> ('s, 'q) world" where
  "unlink_peer R h peer_id w =
     (case unlink_lookup h peer_id w of
        None \<Rightarrow> (False, w)
      | Some tp \<Rightarrow> unlink_commit R h peer_id tp w)"

definition unlink_process ::
  "('s, 'q) signal_rt \<Rightarrow> process_ref \<Rightarrow> u64 option \<Rightarrow> u64 \<Rightarrow> ('s, 'q) world \<Rightarrow> (link_error + bool) \<times> ('s, 'q) world" where
  "unlink_process R p expected peer_id w =
     (case checked_lifecycle_handle p expected w of
        (Inl err, w') \<Rightarrow> (Inl err, w')
      | (Inr h, w') \<Rightarrow> (case unlink_peer R h peer_id w' of (b, w'') \<Rightarrow> (Inr b, w'')))"

section \<open>Termination\<close>

text \<open>
  A termination in progress: the relations taken from the process, the notices for the peers whose
  relation was removed, and the tokens to report.
\<close>

record ending =
  tm_addr :: addr
  tm_id :: u64
  tm_reason :: death_reason
  tm_todo :: "(u64 \<times> link_relation) list"
  tm_notes :: "(addr \<times> u64 \<times> i64 option) list"
  tm_events :: "nat list"

definition deliver_link_death ::
  "('s, 'q) signal_rt \<Rightarrow> addr \<Rightarrow> u64 \<Rightarrow> u64 \<Rightarrow> i64 option \<Rightarrow> death_reason \<Rightarrow> ('s, 'q) world \<Rightarrow> ('s, 'q) world" where
  "deliver_link_death R peer peer_id pid tag reason w =
     (case send_to_process R peer peer_id (SigLinkDied pid tag reason) w of
        (Inr _, w') \<Rightarrow> w'
      | (Inl _, w') \<Rightarrow> if reason = Failure \<or> reason = NoProcess then request_kill peer w' else w')"

text \<open>The first critical section of \<open>terminate\<close>; \<open>None\<close> when the process is terminal already.\<close>

definition terminate_begin ::
  "process_lifecycle_handle \<Rightarrow> death_reason \<Rightarrow> ('s, 'q) world \<Rightarrow> ending option \<times> ('s, 'q) world" where
  "terminate_begin h reason w =
     (let a = lh_addr h; w1 = publish_terminal_reason a reason w in
      if c_terminal (cells w1 a) \<noteq> None then (None, w1)
      else (Some \<lparr>tm_addr = a, tm_id = lh_id h, tm_reason = reason,
                  tm_todo = c_relations (cells w1 a), tm_notes = [], tm_events = []\<rparr>,
            upd_cell a (\<lambda>c. c\<lparr>c_terminal := Some reason, c_relations := []\<rparr>) w1))"

text \<open>\<open>Drop for LinkState\<close> starts the same way; without an identity there is nobody to tell.\<close>

definition drop_begin ::
  "('s, 'q) signal_rt \<Rightarrow> addr \<Rightarrow> ('s, 'q) world \<Rightarrow> ending option \<times> ('s, 'q) world" where
  "drop_begin R a w =
     (let w1 = upd_cell a (\<lambda>c. c\<lparr>c_alive := False, c_relations := []\<rparr>) w in
      case c_id (cells w a) of
        None \<Rightarrow>
          (None, upd_cell a (\<lambda>c. c\<lparr>c_link :=
             (sem_release (rt_sem R) ^^ length (c_relations (cells w a))) (c_link c)\<rparr>) w1)
      | Some i \<Rightarrow> (Some \<lparr>tm_addr = a, tm_id = i, tm_reason = NoProcess,
                        tm_todo = c_relations (cells w a), tm_notes = [], tm_events = []\<rparr>, w1))"

text \<open>One round of the loop over the taken relations: the own permit, then the peer's relation.\<close>

definition release_peer ::
  "('s, 'q) signal_rt \<Rightarrow> ending \<Rightarrow> u64 \<times> link_relation \<Rightarrow> ('s, 'q) world \<Rightarrow> ending \<times> ('s, 'q) world" where
  "release_peer R m e w =
     (case e of (peer_id, r) \<Rightarrow>
      let w1 = upd_cell (tm_addr m) (\<lambda>c. c\<lparr>c_link := sem_release (rt_sem R) (c_link c)\<rparr>) w;
          m1 = m\<lparr>tm_events := tm_events m @ [rel_token r]\<rparr> in
      if \<not> c_alive (cells w1 (rel_peer r)) then (m1, w1)
      else case remove_if R (rel_peer r) (tm_id m) (rel_token r) w1 of
        (removed, w2) \<Rightarrow>
          (if removed then m1\<lparr>tm_notes := tm_notes m @ [(rel_peer r, peer_id, rel_exit_tag r)]\<rparr> else m1, w2))"

fun release_all ::
  "('s, 'q) signal_rt \<Rightarrow> (u64 \<times> link_relation) list \<Rightarrow> ending \<Rightarrow> ('s, 'q) world \<Rightarrow> ending \<times> ('s, 'q) world" where
  "release_all R [] m w = (m, w)"
| "release_all R (e # es) m w = (case release_peer R m e w of (m', w') \<Rightarrow> release_all R es m' w')"

fun deliver_all ::
  "('s, 'q) signal_rt \<Rightarrow> u64 \<Rightarrow> death_reason \<Rightarrow> (addr \<times> u64 \<times> i64 option) list \<Rightarrow> ('s, 'q) world \<Rightarrow> ('s, 'q) world" where
  "deliver_all R pid reason [] w = w"
| "deliver_all R pid reason ((peer, peer_id, tag) # ns) w =
     deliver_all R pid reason ns (deliver_link_death R peer peer_id pid tag reason w)"

fun record_all :: "nat list \<Rightarrow> ('s, 'q) world \<Rightarrow> ('s, 'q) world" where
  "record_all [] w = w"
| "record_all (t # ts) w = record_all ts (record_link_removed t w)"

definition finish_termination :: "('s, 'q) signal_rt \<Rightarrow> ending \<Rightarrow> ('s, 'q) world \<Rightarrow> ('s, 'q) world" where
  "finish_termination R m w =
     (case release_all R (tm_todo m) m w of
        (m', w1) \<Rightarrow> record_all (tm_events m') (deliver_all R (tm_id m) (tm_reason m) (tm_notes m') w1))"

definition terminate ::
  "('s, 'q) signal_rt \<Rightarrow> process_lifecycle_handle \<Rightarrow> death_reason \<Rightarrow> ('s, 'q) world \<Rightarrow> ('s, 'q) world" where
  "terminate R h reason w =
     (case terminate_begin h reason w of
        (None, w') \<Rightarrow> w'
      | (Some m, w') \<Rightarrow> finish_termination R m w')"

definition drop_link_state :: "('s, 'q) signal_rt \<Rightarrow> addr \<Rightarrow> ('s, 'q) world \<Rightarrow> ('s, 'q) world" where
  "drop_link_state R a w =
     (case drop_begin R a w of (None, w') \<Rightarrow> w' | (Some m, w') \<Rightarrow> finish_termination R m w')"

definition relation_count :: "process_lifecycle_handle \<Rightarrow> ('s, 'q) world \<Rightarrow> usize" where
  "relation_count h w = length (c_relations (cells w (lh_addr h)))"

text \<open>\<open>Drop for SignalReceiverLifetime\<close>.\<close>

definition receiver_lifetime_drop :: "('s, 'q) signal_rt \<Rightarrow> addr \<Rightarrow> ('s, 'q) world \<Rightarrow> ('s, 'q) world" where
  "receiver_lifetime_drop R a w =
     (case c_id (cells w a) of
        None \<Rightarrow> w
      | Some i \<Rightarrow>
          (case lifecycle_handle a i w of
             (None, w') \<Rightarrow> w'
           | (Some h, w') \<Rightarrow> terminate R h (terminal_or_gone (cells w' a)) w'))"

section \<open>The machine\<close>

text \<open>
  One critical section of a termination in progress.  Running them to the end is the source's sequence
  of three loops.
\<close>

definition end_step :: "('s, 'q) signal_rt \<Rightarrow> ending \<Rightarrow> ('s, 'q) world \<Rightarrow> ending \<times> ('s, 'q) world" where
  "end_step R m w =
     (case tm_todo m of
        e # es \<Rightarrow> release_peer R (m\<lparr>tm_todo := es\<rparr>) e w
      | [] \<Rightarrow>
          (case tm_notes m of
             (peer, peer_id, tag) # ns \<Rightarrow>
               (m\<lparr>tm_notes := ns\<rparr>, deliver_link_death R peer peer_id (tm_id m) tag (tm_reason m) w)
           | [] \<Rightarrow>
               (case tm_events m of
                  t # ts \<Rightarrow> (m\<lparr>tm_events := ts\<rparr>, record_link_removed t w)
                | [] \<Rightarrow> (m, w))))"

definition ended :: "ending \<Rightarrow> bool" where
  "ended m \<longleftrightarrow> tm_todo m = [] \<and> tm_notes m = [] \<and> tm_events m = []"

fun end_run :: "('s, 'q) signal_rt \<Rightarrow> nat \<Rightarrow> ending \<times> ('s, 'q) world \<Rightarrow> ending \<times> ('s, 'q) world" where
  "end_run R 0 s = s"
| "end_run R (Suc n) s = end_run R n (end_step R (fst s) (snd s))"

record ('s, 'q) link_machine =
  lm_world :: "('s, 'q) world"
  lm_endings :: "ending list"
  lm_unlinks :: "(process_lifecycle_handle \<times> u64 \<times> nat \<times> addr) list"

definition handle_ok :: "('s, 'q) world \<Rightarrow> process_lifecycle_handle \<Rightarrow> bool" where
  "handle_ok w h \<longleftrightarrow> lh_addr h < next_cell w \<and> c_id (cells w (lh_addr h)) = Some (lh_id h) \<and> c_alive (cells w (lh_addr h))"

definition link_start :: "('s, 'q) link_machine \<Rightarrow> bool" where
  "link_start m \<longleftrightarrow> next_cell (lm_world m) = 0 \<and> next_token (lm_world m) = 0 \<and> links_alive (lm_world m) = 0 \<and>
     counted_alive (lm_world m) = (\<lambda>_. False) \<and> lm_endings m = [] \<and> lm_unlinks m = []"

inductive link_step ::
  "('s, 'q) signal_rt \<Rightarrow> ('s, 'q) link_machine \<Rightarrow> ('s, 'q) link_machine \<Rightarrow> bool" for R where
  ls_spawn:
    "mailboxes_with_limits R cap mcap mbytes mres (lm_world m) = Some (a, w') \<Longrightarrow>
     link_step R m (m\<lparr>lm_world := w'\<rparr>)"
| ls_handle:
    "a < next_cell (lm_world m) \<Longrightarrow> lifecycle_handle a i (lm_world m) = (res, w') \<Longrightarrow>
     link_step R m (m\<lparr>lm_world := w'\<rparr>)"
| ls_link:
    "handle_ok (lm_world m) l \<Longrightarrow> handle_ok (lm_world m) r \<Longrightarrow>
     link_pair R l ltag r rtag (lm_world m) = (res, w') \<Longrightarrow>
     link_step R m (m\<lparr>lm_world := w'\<rparr>)"
| ls_unlink_lookup:
    "handle_ok (lm_world m) h \<Longrightarrow> unlink_lookup h k (lm_world m) = Some tp \<Longrightarrow>
     link_step R m (m\<lparr>lm_unlinks := lm_unlinks m @ [(h, k, tp)]\<rparr>)"
| ls_unlink_commit:
    "lm_unlinks m = us @ (h, k, tp) # vs \<Longrightarrow> unlink_commit R h k tp (lm_world m) = (res, w') \<Longrightarrow>
     link_step R m (m\<lparr>lm_world := w', lm_unlinks := us @ vs\<rparr>)"
| ls_terminate:
    "handle_ok (lm_world m) h \<Longrightarrow> terminate_begin h reason (lm_world m) = (e, w') \<Longrightarrow>
     link_step R m (m\<lparr>lm_world := w', lm_endings := lm_endings m @ (case e of None \<Rightarrow> [] | Some x \<Rightarrow> [x])\<rparr>)"
| ls_drop:
    "a < next_cell (lm_world m) \<Longrightarrow> c_alive (cells (lm_world m) a) \<Longrightarrow>
     drop_begin R a (lm_world m) = (e, w') \<Longrightarrow>
     link_step R m (m\<lparr>lm_world := w', lm_endings := lm_endings m @ (case e of None \<Rightarrow> [] | Some x \<Rightarrow> [x])\<rparr>)"
| ls_ending:
    "lm_endings m = es @ e # fs \<Longrightarrow> end_step R e (lm_world m) = (e', w') \<Longrightarrow>
     link_step R m (m\<lparr>lm_world := w', lm_endings := es @ (if ended e' then [] else [e']) @ fs\<rparr>)"
| ls_send:
    "a < next_cell (lm_world m) \<Longrightarrow> send_inner R a sg target (lm_world m) = (res, w') \<Longrightarrow>
     link_step R m (m\<lparr>lm_world := w'\<rparr>)"
| ls_recv:
    "a < next_cell (lm_world m) \<Longrightarrow> recv_poll R a (lm_world m) = (res, w') \<Longrightarrow>
     link_step R m (m\<lparr>lm_world := w'\<rparr>)"
| ls_close:
    "a < next_cell (lm_world m) \<Longrightarrow>
     link_step R m (m\<lparr>lm_world := close_with_reason R a reason (lm_world m)\<rparr>)"

section \<open>The ends of links\<close>

text \<open>
  An end is a place (cell and key) with a token and the peer's cell.  It is stored in a state or pending
  in a termination that has taken it.
\<close>

type_synonym link_end = "addr \<times> u64 \<times> nat \<times> addr"

definition stored_ends :: "('s, 'q) world \<Rightarrow> link_end set" where
  "stored_ends w =
     {(a, k, t, b). a < next_cell w \<and>
        (\<exists>r. hm_get (c_relations (cells w a)) k = Some r \<and> rel_token r = t \<and> rel_peer r = b)}"

definition todo_ends :: "ending \<Rightarrow> link_end set" where
  "todo_ends m = {(a, k, t, b). a = tm_addr m \<and> (\<exists>r. (k, r) \<in> set (tm_todo m) \<and> rel_token r = t \<and> rel_peer r = b)}"

definition pending_ends :: "ending list \<Rightarrow> link_end set" where
  "pending_ends es = (\<Union>m \<in> set es. todo_ends m)"

definition tokens :: "link_end set \<Rightarrow> nat set" where
  "tokens E = {t. \<exists>a k b. (a, k, t, b) \<in> E}"

definition event_tokens :: "ending list \<Rightarrow> nat set" where
  "event_tokens es = (\<Union>m \<in> set es. set (tm_events m))"

text \<open>
  Every end names the identity on the other side; every stored end has its counterpart, stored or
  pending; and a token belongs to one pair of cells.
\<close>

definition ends_typed :: "(addr \<Rightarrow> u64 option) \<Rightarrow> addr \<Rightarrow> nat \<Rightarrow> link_end set \<Rightarrow> bool" where
  "ends_typed ids n nt E \<longleftrightarrow>
     (\<forall>a k t b. (a, k, t, b) \<in> E \<longrightarrow> a < n \<and> b < n \<and> a \<noteq> b \<and> ids b = Some k \<and> t < nt)"

definition ends_mated :: "(addr \<Rightarrow> u64 option) \<Rightarrow> link_end set \<Rightarrow> link_end set \<Rightarrow> bool" where
  "ends_mated ids S E \<longleftrightarrow>
     (\<forall>a k t b. (a, k, t, b) \<in> S \<longrightarrow> (\<exists>i. ids a = Some i \<and> (b, i, t, a) \<in> E))"

definition ends_unique :: "link_end set \<Rightarrow> bool" where
  "ends_unique E \<longleftrightarrow>
     (\<forall>a k t b a' k' b'. (a, k, t, b) \<in> E \<longrightarrow> (a', k', t, b') \<in> E \<longrightarrow>
        (a' = a \<and> b' = b) \<or> (a' = b \<and> b' = a))"

definition ends_ok :: "(addr \<Rightarrow> u64 option) \<Rightarrow> addr \<Rightarrow> nat \<Rightarrow> link_end set \<Rightarrow> link_end set \<Rightarrow> bool" where
  "ends_ok ids n nt S P \<longleftrightarrow> ends_typed ids n nt (S \<union> P) \<and> ends_mated ids S (S \<union> P) \<and> ends_unique (S \<union> P)"

lemma ends_typedD:
  "ends_typed ids n nt E \<Longrightarrow> (a, k, t, b) \<in> E \<Longrightarrow> a < n \<and> b < n \<and> a \<noteq> b \<and> ids b = Some k \<and> t < nt"
  unfolding ends_typed_def by blast

lemma ends_matedD: "ends_mated ids S E \<Longrightarrow> (a, k, t, b) \<in> S \<Longrightarrow> ids a = Some i \<Longrightarrow> (b, i, t, a) \<in> E"
  unfolding ends_mated_def by fastforce

lemma ends_mated_id: "ends_mated ids S E \<Longrightarrow> (a, k, t, b) \<in> S \<Longrightarrow> ids a = None \<Longrightarrow> False"
  unfolding ends_mated_def by fastforce

lemma ends_uniqueD:
  "ends_unique E \<Longrightarrow> (a, k, t, b) \<in> E \<Longrightarrow> (a', k', t, b') \<in> E \<Longrightarrow> (a' = a \<and> b' = b) \<or> (a' = b \<and> b' = a)"
  unfolding ends_unique_def by blast

lemma ends_subset:
  "ends_typed ids n nt E \<Longrightarrow> E' \<subseteq> E \<Longrightarrow> ends_typed ids n nt E'"
  "ends_unique E \<Longrightarrow> E' \<subseteq> E \<Longrightarrow> ends_unique E'"
  unfolding ends_typed_def ends_unique_def by blast+

lemma ends_ok_move:
  "ends_ok ids n nt S P \<Longrightarrow> S' \<subseteq> S \<Longrightarrow> S' \<union> P' = S \<union> P \<Longrightarrow> ends_ok ids n nt S' P'"
  by (simp add: ends_ok_def) (simp add: ends_mated_def, blast)

lemma ends_ok_forget:
  assumes ok: "ends_ok ids n nt S P" and S': "S' \<subseteq> S" "\<And>a k t' b. (a, k, t', b) \<in> S' \<Longrightarrow> t' \<noteq> t"
    and keep: "\<And>a k t' b. (a, k, t', b) \<in> S \<union> P \<Longrightarrow> t' \<noteq> t \<Longrightarrow> (a, k, t', b) \<in> S' \<union> P'" and P': "P' \<subseteq> P"
  shows "ends_ok ids n nt S' P'"
proof -
  have "ends_mated ids S' (S' \<union> P')"
    unfolding ends_mated_def
  proof (intro allI impI)
    fix a k t' b
    assume "(a, k, t', b) \<in> S'"
    then have "(a, k, t', b) \<in> S" "t' \<noteq> t" using S' by blast+
    then show "\<exists>i. ids a = Some i \<and> (b, i, t', a) \<in> S' \<union> P'"
      using ok keep by (simp add: ends_ok_def ends_mated_def) blast
  qed
  moreover have "S' \<union> P' \<subseteq> S \<union> P" using S'(1) P' by blast
  ultimately show ?thesis using ok ends_subset unfolding ends_ok_def by blast
qed

lemma ends_ok_add:
  assumes ok: "ends_ok ids n nt S P" and new: "a < n" "b < n" "a \<noteq> b" "ids a = Some i" "ids b = Some k"
  shows "ends_ok ids n (Suc nt) (insert (a, k, nt, b) (insert (b, i, nt, a) S)) P"
proof -
  have old: "(a, k, t, b) \<in> S \<union> P \<Longrightarrow> t \<noteq> nt" for a k t b
    using ok by (auto simp: ends_ok_def dest: ends_typedD)
  have "ends_typed ids n (Suc nt) (insert (a, k, nt, b) (insert (b, i, nt, a) S) \<union> P)"
    using ok new by (auto simp: ends_ok_def ends_typed_def less_Suc_eq)
  moreover have "ends_mated ids (insert (a, k, nt, b) (insert (b, i, nt, a) S)) (insert (a, k, nt, b) (insert (b, i, nt, a) S) \<union> P)"
    using ok new unfolding ends_ok_def ends_mated_def by (simp, blast)
  moreover have "ends_unique (insert (a, k, nt, b) (insert (b, i, nt, a) S) \<union> P)"
    using ok old unfolding ends_ok_def ends_unique_def by (simp, blast)
  ultimately show ?thesis by (simp add: ends_ok_def)
qed

lemma ends_ok_grow:
  assumes ok: "ends_ok ids n nt S P" and ids: "\<And>a i. a < n \<Longrightarrow> ids a = Some i \<Longrightarrow> ids' a = Some i" and n: "n \<le> n'"
  shows "ends_ok ids' n' nt S P"
proof -
  have "ends_typed ids' n' nt (S \<union> P)"
    unfolding ends_typed_def
  proof (intro allI impI)
    fix a k t b
    assume "(a, k, t, b) \<in> S \<union> P"
    with ok have "a < n \<and> b < n \<and> a \<noteq> b \<and> ids b = Some k \<and> t < nt"
      unfolding ends_ok_def by (blast dest: ends_typedD)
    then show "a < n' \<and> b < n' \<and> a \<noteq> b \<and> ids' b = Some k \<and> t < nt" using ids n by simp
  qed
  moreover have "ends_mated ids' S (S \<union> P)"
    using ok ids unfolding ends_ok_def ends_mated_def by (meson UnI1 ends_typedD)
  ultimately show ?thesis using ok by (simp add: ends_ok_def)
qed

section \<open>The invariant\<close>

definition world_ids :: "('s, 'q) world \<Rightarrow> addr \<Rightarrow> u64 option" where
  "world_ids w a = c_id (cells w a)"

definition link_closed :: "('s, 'q) cell \<Rightarrow> bool" where
  "link_closed c \<longleftrightarrow> \<not> c_alive c \<or> c_terminal c \<noteq> None"

definition pending_count :: "addr \<Rightarrow> ending list \<Rightarrow> nat" where
  "pending_count a es = sum_list (map (\<lambda>m. if tm_addr m = a then length (tm_todo m) else 0) es)"

text \<open>Permits: every relation, stored or taken by a termination, holds one.\<close>

definition link_cell_ok :: "('s, 'q) signal_rt \<Rightarrow> nat \<Rightarrow> ('s, 'q) cell \<Rightarrow> bool" where
  "link_cell_ok R pending c \<longleftrightarrow>
     hm_wf (c_relations c) \<and> (link_closed c \<longrightarrow> c_relations c = []) \<and>
     sem_available (rt_sem R) (c_link c) + length (c_relations c) + pending = c_capacity c"

definition ending_ok :: "('s, 'q) world \<Rightarrow> ending \<Rightarrow> bool" where
  "ending_ok w e \<longleftrightarrow>
     tm_addr e < next_cell w \<and> c_id (cells w (tm_addr e)) = Some (tm_id e) \<and> link_closed (cells w (tm_addr e))"

definition unlink_ok :: "('s, 'q) world \<Rightarrow> link_end set \<Rightarrow> process_lifecycle_handle \<times> u64 \<times> nat \<times> addr \<Rightarrow> bool" where
  "unlink_ok w E u \<longleftrightarrow>
     (case u of (h, k, t, b) \<Rightarrow>
        lh_addr h < next_cell w \<and> b < next_cell w \<and> c_id (cells w (lh_addr h)) = Some (lh_id h) \<and>
        c_id (cells w b) = Some k \<and> t < next_token w \<and>
        (\<forall>a' k' b'. (a', k', t, b') \<in> E \<longrightarrow> (a' = lh_addr h \<and> b' = b) \<or> (a' = b \<and> b' = lh_addr h)))"

definition counted :: "('s, 'q) world \<Rightarrow> nat set" where
  "counted w = {t. counted_alive w t}"

text \<open>The gauge counts the tokens not yet reported; those of stored ends are among them.\<close>

definition gauge_ok :: "('s, 'q) world \<Rightarrow> link_end set \<Rightarrow> link_end set \<Rightarrow> nat set \<Rightarrow> bool" where
  "gauge_ok w S P EV \<longleftrightarrow>
     links_alive w = int (card (counted w)) \<and> counted w \<union> EV \<subseteq> {..<next_token w} \<and>
     tokens S \<subseteq> counted w \<and> counted w \<subseteq> tokens (S \<union> P) \<union> EV \<and> EV \<inter> tokens S = {}"

definition links_inv :: "('s, 'q) signal_rt \<Rightarrow> ('s, 'q) link_machine \<Rightarrow> bool" where
  "links_inv R m \<longleftrightarrow>
     (let w = lm_world m; S = stored_ends w; P = pending_ends (lm_endings m) in
      ends_ok (world_ids w) (next_cell w) (next_token w) S P \<and>
      (\<forall>a<next_cell w. link_cell_ok R (pending_count a (lm_endings m)) (cells w a)) \<and>
      (\<forall>e \<in> set (lm_endings m). ending_ok w e) \<and>
      (\<forall>u \<in> set (lm_unlinks m). unlink_ok w (S \<union> P) u) \<and>
      gauge_ok w S P (event_tokens (lm_endings m)))"

lemma links_invI:
  "ends_ok (world_ids (lm_world m)) (next_cell (lm_world m)) (next_token (lm_world m))
     (stored_ends (lm_world m)) (pending_ends (lm_endings m)) \<Longrightarrow>
   (\<And>a. a < next_cell (lm_world m) \<Longrightarrow>
      link_cell_ok R (pending_count a (lm_endings m)) (cells (lm_world m) a)) \<Longrightarrow>
   (\<And>e. e \<in> set (lm_endings m) \<Longrightarrow> ending_ok (lm_world m) e) \<Longrightarrow>
   (\<And>u. u \<in> set (lm_unlinks m) \<Longrightarrow>
      unlink_ok (lm_world m) (stored_ends (lm_world m) \<union> pending_ends (lm_endings m)) u) \<Longrightarrow>
   gauge_ok (lm_world m) (stored_ends (lm_world m)) (pending_ends (lm_endings m)) (event_tokens (lm_endings m)) \<Longrightarrow>
   links_inv R m"
  by (simp add: links_inv_def Let_def)

lemma links_invD:
  assumes "links_inv R m"
  shows "ends_ok (world_ids (lm_world m)) (next_cell (lm_world m)) (next_token (lm_world m))
      (stored_ends (lm_world m)) (pending_ends (lm_endings m))"
    and "a < next_cell (lm_world m) \<Longrightarrow> link_cell_ok R (pending_count a (lm_endings m)) (cells (lm_world m) a)"
    and "e \<in> set (lm_endings m) \<Longrightarrow> ending_ok (lm_world m) e"
    and "u \<in> set (lm_unlinks m) \<Longrightarrow>
      unlink_ok (lm_world m) (stored_ends (lm_world m) \<union> pending_ends (lm_endings m)) u"
    and "gauge_ok (lm_world m) (stored_ends (lm_world m)) (pending_ends (lm_endings m)) (event_tokens (lm_endings m))"
  using assms by (simp_all add: links_inv_def Let_def)

text \<open>Operations that leave the link state alone.\<close>

definition link_view :: "('s, 'q) cell \<Rightarrow> (u64, link_relation) hmap \<times> 's \<times> u64 option \<times> death_reason option \<times> bool \<times> usize" where
  "link_view c = (c_relations c, c_link c, c_id c, c_terminal c, c_alive c, c_capacity c)"

definition link_frame :: "('s, 'q) world \<Rightarrow> ('s, 'q) world \<Rightarrow> bool" where
  "link_frame w w' \<longleftrightarrow>
     (\<forall>a. link_view (cells w' a) = link_view (cells w a)) \<and> next_cell w' = next_cell w \<and>
     next_token w' = next_token w \<and> counted_alive w' = counted_alive w \<and> links_alive w' = links_alive w"

lemma link_frame_refl [simp]: "link_frame w w"
  by (simp add: link_frame_def)

lemma link_frame_trans: "link_frame w w' \<Longrightarrow> link_frame w' w'' \<Longrightarrow> link_frame w w''"
  by (simp add: link_frame_def)

lemma link_frame_upd [simp]: "link_view (f (cells w a)) = link_view (cells w a) \<Longrightarrow> link_frame w (upd_cell a f w)"
  by (simp add: link_frame_def)

lemma link_frame_then_upd:
  "link_frame w w' \<Longrightarrow> link_view (f (cells w' a)) = link_view (cells w' a) \<Longrightarrow> link_frame w (upd_cell a f w')"
  by (rule link_frame_trans[OF _ link_frame_upd])

lemma link_view_simps [simp]:
  "link_view (c\<lparr>c_chan := q\<rparr>) = link_view c" "link_view (c\<lparr>c_mailbox := mb\<rparr>) = link_view c"
  "link_view (c\<lparr>c_data := s\<rparr>) = link_view c" "link_view (c\<lparr>c_mon := s\<rparr>) = link_view c"
  "link_view (c\<lparr>c_kill := b\<rparr>) = link_view c" "link_view (c\<lparr>c_death := d\<rparr>) = link_view c"
  "link_view (c\<lparr>t_die := b\<rparr>) = link_view c" "link_view (c\<lparr>t_monitors := ms\<rparr>) = link_view c"
  by (simp_all add: link_view_def)

lemma link_frame_cells:
  assumes "link_frame w w'"
  shows "c_relations (cells w' a) = c_relations (cells w a)" "c_link (cells w' a) = c_link (cells w a)"
    "c_id (cells w' a) = c_id (cells w a)" "c_terminal (cells w' a) = c_terminal (cells w a)"
    "c_alive (cells w' a) = c_alive (cells w a)" "c_capacity (cells w' a) = c_capacity (cells w a)"
    "next_cell w' = next_cell w" "next_token w' = next_token w" "counted_alive w' = counted_alive w"
    "links_alive w' = links_alive w"
proof -
  have "link_view (cells w' a) = link_view (cells w a)" using assms by (simp add: link_frame_def)
  then show "c_relations (cells w' a) = c_relations (cells w a)" "c_link (cells w' a) = c_link (cells w a)"
    "c_id (cells w' a) = c_id (cells w a)" "c_terminal (cells w' a) = c_terminal (cells w a)"
    "c_alive (cells w' a) = c_alive (cells w a)" "c_capacity (cells w' a) = c_capacity (cells w a)"
    by (simp_all add: link_view_def)
qed (use assms in \<open>simp_all add: link_frame_def\<close>)

lemma stored_ends_frame: "link_frame w w' \<Longrightarrow> stored_ends w' = stored_ends w"
  by (simp add: stored_ends_def link_frame_cells)

lemma links_inv_frame:
  assumes inv: "links_inv R m" and fr: "link_frame (lm_world m) w'"
  shows "links_inv R (m\<lparr>lm_world := w'\<rparr>)"
proof -
  note c = link_frame_cells[OF fr] and s = stored_ends_frame[OF fr]
  have "world_ids w' = world_ids (lm_world m)" by (simp add: world_ids_def c fun_eq_iff)
  moreover have "link_cell_ok R p (cells w' a) = link_cell_ok R p (cells (lm_world m) a)" for p a
    by (simp add: link_cell_ok_def link_closed_def c)
  moreover have "ending_ok w' = ending_ok (lm_world m)"
    by (simp add: ending_ok_def link_closed_def c fun_eq_iff)
  moreover have "unlink_ok w' = unlink_ok (lm_world m)" by (simp add: unlink_ok_def c fun_eq_iff)
  moreover have "gauge_ok w' = gauge_ok (lm_world m)" by (simp add: gauge_ok_def counted_def c fun_eq_iff)
  ultimately show ?thesis using inv by (simp add: links_inv_def Let_def c s)
qed

text \<open>Sending, receiving and closing are such operations.\<close>

lemma drop_notification_frame [simp]: "link_frame w (drop_notification R n w)"
  by (simp add: drop_notification_def split: option.splits)

lemma deliver_notification_frame [simp]: "link_frame w (deliver_notification R n pid reason w)"
  by (simp add: deliver_notification_def split: prod.splits sum.splits)

lemma acknowledge_frame [simp]: "link_frame w (acknowledge ack w')  = link_frame w w'"
  by (simp add: acknowledge_def link_frame_def split: option.splits)

lemma sent_frame: "sent R a sg target w w' \<Longrightarrow> link_frame w w'"
proof (induction rule: sent.induct)
  case (sent_monitor w s b n w1 i ack q target)
  then have "link_frame w w1"
    by (auto simp: reserve_monitor_notification_def intro!: link_frame_then_upd split: if_splits option.splits)
  then show ?case by (simp add: link_frame_then_upd)
next
  case (sent_late target pid w b n w1 i ack)
  then have "link_frame w w1"
    by (auto simp: reserve_monitor_notification_def split: if_splits option.splits)
  then show ?case using link_frame_trans deliver_notification_frame by fastforce
next
  case (sent_late_custom target pid w i ack)
  then show ?case by simp (simp add: link_frame_def)
qed (auto simp: request_kill_def)

lemma recv_poll_frame: "recv_poll R a w = (res, w') \<Longrightarrow> link_frame w w'"
  by (auto simp: recv_poll_def Let_def split: if_splits option.splits)

lemma publish_frame [simp]: "link_frame w (publish_terminal_reason a reason w)"
  by (simp add: publish_terminal_reason_def)

lemma close_frame: "link_frame w (close_with_reason R a reason w)"
  by (simp add: close_with_reason_def link_frame_then_upd)

context signal_runtime
begin

lemma send_inner_frame: "send_inner R a sg target w = (res, w') \<Longrightarrow> link_frame w w'"
  using send_with_answer[of a sg target w "send_died R"]
  by (auto simp: send_inner_def answered_def refused_def dest: sent_frame)

lemma deliver_link_death_frame: "link_frame w (deliver_link_death R peer peer_id pid tag reason w)"
  using send_inner_frame[of peer "SigLinkDied pid tag reason" "Some peer_id" w]
  by (auto simp: deliver_link_death_def send_to_process_def request_kill_def link_frame_then_upd
      split: prod.splits sum.splits)

end

section \<open>Removing ends\<close>

lemma stored_ends_iff:
  "(a, k, t, b) \<in> stored_ends w \<longleftrightarrow>
     a < next_cell w \<and> (\<exists>r. hm_get (c_relations (cells w a)) k = Some r \<and> rel_token r = t \<and> rel_peer r = b)"
  by (simp add: stored_ends_def)

lemma hm_empty:
  assumes "\<And>k. hm_get m k = None"
  shows "m = []"
proof (cases m)
  case (Cons x xs)
  then show ?thesis using assms[of "fst x"] by simp
qed simp

lemma matches_stored: "a < next_cell w \<Longrightarrow> matches a k t w \<longleftrightarrow> (\<exists>b. (a, k, t, b) \<in> stored_ends w)"
  by (auto simp: matches_def stored_ends_iff split: option.splits)

lemma stored_fun: "(a, k, t, b) \<in> stored_ends w \<Longrightarrow> (a, k, t', b') \<in> stored_ends w \<Longrightarrow> t' = t \<and> b' = b"
  by (auto simp: stored_ends_iff)

lemma remove_relation_frame [simp]:
  "next_cell (remove_relation R a k w) = next_cell w" "next_token (remove_relation R a k w) = next_token w"
  "counted_alive (remove_relation R a k w) = counted_alive w" "links_alive (remove_relation R a k w) = links_alive w"
  "c_id (cells (remove_relation R a k w) x) = c_id (cells w x)"
  "c_alive (cells (remove_relation R a k w) x) = c_alive (cells w x)"
  "c_terminal (cells (remove_relation R a k w) x) = c_terminal (cells w x)"
  by (simp_all add: remove_relation_def)

lemma stored_ends_remove:
  "stored_ends (remove_relation R a k w) = {(a', k', t, b). (a', k', t, b) \<in> stored_ends w \<and> \<not> (a' = a \<and> k' = k)}"
  by (auto simp: stored_ends_def remove_relation_def hmap_simps split: if_splits)

text \<open>\<open>remove_if\<close> takes away the end at its place when the token matches, and its permit comes back.\<close>

lemma remove_if_frame:
  assumes "remove_if R a k t w = (m, w')"
  shows "next_cell w' = next_cell w" "next_token w' = next_token w" "counted_alive w' = counted_alive w"
    "links_alive w' = links_alive w" "c_id (cells w' x) = c_id (cells w x)"
    "c_alive (cells w' x) = c_alive (cells w x)" "c_terminal (cells w' x) = c_terminal (cells w x)"
  using assms by (auto simp: remove_if_def split: if_splits)

lemma remove_if_stored:
  assumes "remove_if R a k t w = (m, w')" "a < next_cell w"
  shows "stored_ends w' = {(a', k', t', b). (a', k', t', b) \<in> stored_ends w \<and> \<not> (a' = a \<and> k' = k \<and> t' = t)}"
    and "m \<longleftrightarrow> (\<exists>b. (a, k, t, b) \<in> stored_ends w)"
proof -
  show m: "m \<longleftrightarrow> (\<exists>b. (a, k, t, b) \<in> stored_ends w)"
    using assms by (auto simp: remove_if_def matches_stored split: if_splits)
  show "stored_ends w' = {(a', k', t', b). (a', k', t', b) \<in> stored_ends w \<and> \<not> (a' = a \<and> k' = k \<and> t' = t)}"
  proof (cases m)
    case True
    then obtain b where b: "(a, k, t, b) \<in> stored_ends w" using m by blast
    have "w' = remove_relation R a k w" using assms True by (auto simp: remove_if_def split: if_splits)
    then show ?thesis using stored_fun[OF b] by (auto simp: stored_ends_remove)
  next
    case False
    then have "w' = w" using assms by (auto simp: remove_if_def split: if_splits)
    then show ?thesis using False m by auto
  qed
qed

context signal_runtime
begin

lemma remove_if_cell:
  assumes "remove_if R a k t w = (m, w')" "link_cell_ok R p (cells w x)"
  shows "link_cell_ok R p (cells w' x)"
proof (cases "m \<and> x = a")
  case True
  then obtain r where r: "hm_get (c_relations (cells w a)) k = Some r" and w': "w' = remove_relation R a k w"
    using assms(1) by (auto simp: remove_if_def matches_def split: if_splits option.splits)
  then show ?thesis
    using assms(2) True hm_len_remove[of "c_relations (cells w a)" k r]
    by (auto simp: link_cell_ok_def link_closed_def remove_relation_def)
next
  case False
  then show ?thesis
    using assms by (auto simp: remove_if_def remove_relation_def split: if_splits)
qed

end

text \<open>Forgetting a token: what is left of the invariant's clauses about ends and pending unlinks.\<close>

lemma tokens_iff: "t \<in> tokens E \<longleftrightarrow> (\<exists>a k b. (a, k, t, b) \<in> E)"
  by (simp add: tokens_def)

lemma tokens_Un: "tokens (A \<union> B) = tokens A \<union> tokens B"
  by (auto simp: tokens_def)

lemma unlink_ok_subset: "unlink_ok w E u \<Longrightarrow> E' \<subseteq> E \<Longrightarrow> unlink_ok w E' u"
  by (auto simp: unlink_ok_def split: prod.splits)

lemma unlink_ok_cong:
  "next_cell w' = next_cell w \<Longrightarrow> next_token w' = next_token w \<Longrightarrow> (\<And>a. c_id (cells w' a) = c_id (cells w a)) \<Longrightarrow>
     unlink_ok w' E u = unlink_ok w E u"
  by (simp add: unlink_ok_def split: prod.splits)

lemma ending_ok_cong:
  "next_cell w' = next_cell w \<Longrightarrow> (\<And>a. c_id (cells w' a) = c_id (cells w a)) \<Longrightarrow>
     (\<And>a. c_alive (cells w' a) = c_alive (cells w a)) \<Longrightarrow> (\<And>a. c_terminal (cells w' a) = c_terminal (cells w a)) \<Longrightarrow>
     ending_ok w' e = ending_ok w e"
  by (simp add: ending_ok_def link_closed_def)

text \<open>The report of a removed link.\<close>

lemma record_frame [simp]:
  "cells (record_link_removed t w) = cells w" "next_cell (record_link_removed t w) = next_cell w"
  "next_token (record_link_removed t w) = next_token w"
  "stored_ends (record_link_removed t w) = stored_ends w"
  "world_ids (record_link_removed t w) = world_ids w"
  by (simp_all add: record_link_removed_def stored_ends_def world_ids_def fun_eq_iff)

lemma counted_record: "counted (record_link_removed t w) = counted w - {t}"
  by (auto simp: record_link_removed_def counted_def)

lemma gauge_record:
  assumes "gauge_ok w S P EV" "S' \<subseteq> S" "t \<notin> tokens S'" "EV' \<subseteq> EV"
    "tokens (S \<union> P) \<union> EV \<subseteq> insert t (tokens (S' \<union> P') \<union> EV')"
  shows "gauge_ok (record_link_removed t w) S' P' EV'"
proof -
  have fin: "finite (counted w)"
    using assms(1) finite_subset unfolding gauge_ok_def by blast
  have "links_alive (record_link_removed t w) = int (card (counted w - {t}))"
  proof (cases "t \<in> counted w")
    case True
    then have "0 < card (counted w)" using fin card_gt_0_iff by blast
    then show ?thesis
      using assms(1) True fin by (simp add: gauge_ok_def record_link_removed_def counted_def of_nat_diff)
  next
    case False
    then show ?thesis
      using assms(1) by (simp add: gauge_ok_def record_link_removed_def counted_def)
  qed
  moreover have "tokens S' \<subseteq> tokens S" using assms(2) by (auto simp: tokens_def)
  ultimately show ?thesis
    using assms unfolding gauge_ok_def counted_record by auto
qed

lemma gauge_move:
  assumes "gauge_ok w S P EV" "S' \<subseteq> S" "t \<notin> tokens S'" "t < next_token w"
    "tokens (S \<union> P) \<subseteq> insert t (tokens (S' \<union> P'))"
  shows "gauge_ok w S' P' (insert t EV)"
proof -
  have "tokens S' \<subseteq> tokens S" using assms(2) by (auto simp: tokens_def)
  then show ?thesis using assms unfolding gauge_ok_def by blast
qed

lemma gauge_cong:
  "next_token w' = next_token w \<Longrightarrow> counted_alive w' = counted_alive w \<Longrightarrow> links_alive w' = links_alive w \<Longrightarrow>
     gauge_ok w' S P EV = gauge_ok w S P EV"
  by (simp add: gauge_ok_def counted_def)

section \<open>Steps that remove\<close>

lemma closed_not_stored:
  "link_cell_ok R p (cells w a) \<Longrightarrow> link_closed (cells w a) \<Longrightarrow> (a, k, t, b) \<notin> stored_ends w"
  by (auto simp: link_cell_ok_def stored_ends_iff)

context signal_runtime
begin

lemma unlink_commit_cases:
  assumes "unlink_commit R h k (t, b) w = (res, w')"
  obtains (dead) w1 where "\<not> c_alive (cells w b)" "remove_if R (lh_addr h) k t w = (res, w1)"
      "w' = (if res then record_link_removed t w1 else w1)"
  | (live) s w1 p w2 where "c_alive (cells w b)" "remove_if R (lh_addr h) k t w = (s, w1)"
      "remove_if R b (lh_id h) t w1 = (p, w2)" "res = (s \<or> p)"
      "w' = (if res then record_link_removed t w2 else w2)"
  using assms by (auto simp: unlink_commit_def split: prod.splits if_splits)

lemma unlink_commit_frame:
  assumes "unlink_commit R h k (t, b) w = (res, w')"
  shows "next_cell w' = next_cell w \<and> next_token w' = next_token w \<and> c_id (cells w' x) = c_id (cells w x) \<and>
    c_alive (cells w' x) = c_alive (cells w x) \<and> c_terminal (cells w' x) = c_terminal (cells w x) \<and>
    (link_cell_ok R p (cells w x) \<longrightarrow> link_cell_ok R p (cells w' x))"
  using assms
proof (cases rule: unlink_commit_cases)
  case (dead w1)
  then show ?thesis
    using remove_if_frame[OF dead(2)] remove_if_cell[OF dead(2), of p x] by simp
next
  case (live s w1 pr w2)
  then show ?thesis
    using remove_if_frame[OF live(2)] remove_if_cell[OF live(2), of p x]
      remove_if_frame[OF live(3)] remove_if_cell[OF live(3), of p x] by simp
qed

lemma unlink_commit_stored:
  assumes c: "unlink_commit R h k (t, b) w = (res, w')" and u: "unlink_ok w E (h, k, t, b)"
    and E: "stored_ends w \<subseteq> E" and ty: "ends_typed (world_ids w) n nt E"
    and dead: "link_cell_ok R p (cells w b)"
  shows "stored_ends w' = {(a', k', t', b'). (a', k', t', b') \<in> stored_ends w \<and> t' \<noteq> t}"
proof -
  let ?a = "lh_addr h"
  have lt: "?a < next_cell w" "b < next_cell w" using u by (auto simp: unlink_ok_def)
  have place: "(a', k', t, b') \<in> stored_ends w \<Longrightarrow> (a' = ?a \<and> k' = k) \<or> (a' = b \<and> k' = lh_id h)" for a' k' b'
  proof -
    assume st: "(a', k', t, b') \<in> stored_ends w"
    then have "(a' = ?a \<and> b' = b) \<or> (a' = b \<and> b' = ?a)" using u E by (auto simp: unlink_ok_def)
    moreover have "c_id (cells w b') = Some k'"
      using st E ends_typedD[OF ty] by (auto simp: world_ids_def)
    ultimately show ?thesis using u by (auto simp: unlink_ok_def)
  qed
  show ?thesis
    using c
  proof (cases rule: unlink_commit_cases)
    case (dead w1)
    have "(b, k', t', b') \<notin> stored_ends w" for k' t' b'
      using closed_not_stored[OF assms(5)] dead(1) by (simp add: link_closed_def)
    then have "(a', k', t, b') \<in> stored_ends w \<Longrightarrow> a' = ?a \<and> k' = k" for a' k' b'
      using place by blast
    then show ?thesis
      using remove_if_stored(1)[OF dead(2) lt(1)] dead(3) by auto
  next
    case (live s w1 pr w2)
    have "b < next_cell w1" using lt remove_if_frame[OF live(2)] by simp
    then show ?thesis
      using remove_if_stored(1)[OF live(2) lt(1)] remove_if_stored(1)[OF live(3)] live(5)
      by (auto dest: place)
  qed
qed

lemma unlink_commit_False: "unlink_commit R h k (t, b) w = (False, w') \<Longrightarrow> w' = w"
  by (erule unlink_commit_cases) (auto simp: remove_if_def split: if_splits)

lemma unlink_commit_gauge:
  assumes c: "unlink_commit R h k (t, b) w = (res, w')" and g: "gauge_ok w S P EV"
    and S': "S' \<subseteq> S" "t \<notin> tokens S'" "tokens (S \<union> P) \<subseteq> insert t (tokens (S' \<union> P))"
  shows "gauge_ok w' (if res then S' else S) P EV"
proof (cases res)
  case False
  then show ?thesis using g unlink_commit_False[of h k t b w w'] c by simp
next
  case True
  obtain v where v: "w' = record_link_removed t v" "next_token v = next_token w"
    "counted_alive v = counted_alive w" "links_alive v = links_alive w"
    using c
  proof (cases rule: unlink_commit_cases)
    case (dead w1)
    then show ?thesis using that[of w1] True remove_if_frame[OF dead(2)] by simp
  next
    case (live s w1 p w2)
    then show ?thesis
      using that[of w2] True remove_if_frame[OF live(2)] remove_if_frame[OF live(3)] by simp
  qed
  have "gauge_ok v S P EV" using g gauge_cong v by blast
  from gauge_record[OF this S'(1,2) subset_refl] have "gauge_ok w' S' P EV" using S'(3) v(1) by blast
  then show ?thesis using True by simp
qed

lemma links_inv_unlink:
  assumes inv: "links_inv R m" and us: "lm_unlinks m = us @ (h, k, tp) # vs"
    and c: "unlink_commit R h k tp (lm_world m) = (res, w')"
  shows "links_inv R (m\<lparr>lm_world := w', lm_unlinks := us @ vs\<rparr>)"
proof -
  let ?w = "lm_world m" and ?P = "pending_ends (lm_endings m)"
  obtain t b where tp: "tp = (t, b)" by (cases tp)
  note c = c[unfolded tp] and fr = unlink_commit_frame[OF c[unfolded tp]]
  have u: "unlink_ok ?w (stored_ends ?w \<union> ?P) (h, k, t, b)" using links_invD(4)[OF inv] us tp by auto
  note ok = links_invD(1)[OF inv]
  have "b < next_cell ?w" using u by (simp add: unlink_ok_def)
  from unlink_commit_stored[OF c u _ _ links_invD(2)[OF inv this]] ok
  have st: "stored_ends w' = {(a', k', t', b'). (a', k', t', b') \<in> stored_ends ?w \<and> t' \<noteq> t}"
    unfolding ends_ok_def by blast
  have ids: "world_ids w' = world_ids ?w" using fr by (simp add: world_ids_def fun_eq_iff)
  show ?thesis
  proof (rule links_invI, simp_all add: ids fr)
    show "ends_ok (world_ids ?w) (next_cell ?w) (next_token ?w) (stored_ends w') ?P"
      by (rule ends_ok_forget[OF ok, of _ t]) (auto simp: st)
    show "ending_ok w' e" if "e \<in> set (lm_endings m)" for e
      using links_invD(3)[OF inv that] ending_ok_cong[of w' ?w e] fr by simp
    show "link_cell_ok R (pending_count a (lm_endings m)) (cells w' a)" if "a < next_cell ?w" for a
      using links_invD(2)[OF inv that] fr by simp
    show "unlink_ok w' (stored_ends w' \<union> ?P) u'" if "u' \<in> set us \<or> u' \<in> set vs" for u'
    proof -
      have "unlink_ok ?w (stored_ends ?w \<union> ?P) u'" using links_invD(4)[OF inv] us that by auto
      then have "unlink_ok ?w (stored_ends w' \<union> ?P) u'" by (rule unlink_ok_subset) (auto simp: st)
      then show ?thesis using unlink_ok_cong[of w' ?w] fr by simp
    qed
    have "gauge_ok w' (if res then stored_ends w' else stored_ends ?w) ?P (event_tokens (lm_endings m))"
      by (rule unlink_commit_gauge[OF c links_invD(5)[OF inv]]) (auto simp: st tokens_def)
    moreover have "\<not> res \<Longrightarrow> w' = ?w"
      using c unlink_commit_False by auto
    ultimately show "gauge_ok w' (stored_ends w') ?P (event_tokens (lm_endings m))"
      by (cases res) simp_all
  qed
qed

text \<open>One round of a termination.\<close>

lemma release_peer_cases:
  assumes "release_peer R e (k, r) w = (e', w')"
  obtains rem w1 where
    "w1 = upd_cell (tm_addr e) (\<lambda>c. c\<lparr>c_link := sem_release (rt_sem R) (c_link c)\<rparr>) w"
    "(\<not> c_alive (cells w (rel_peer r)) \<and> \<not> rem \<and> w' = w1) \<or>
     (c_alive (cells w (rel_peer r)) \<and> remove_if R (rel_peer r) (tm_id e) (rel_token r) w1 = (rem, w'))"
    "e' = e\<lparr>tm_events := tm_events e @ [rel_token r],
            tm_notes := tm_notes e @ (if rem then [(rel_peer r, k, rel_exit_tag r)] else [])\<rparr>"
  using assms by (auto simp: release_peer_def Let_def split: prod.splits if_splits)

lemma release_peer_effect:
  assumes rp: "release_peer R e (k, r) w = (e', w')"
  shows "tm_addr e' = tm_addr e \<and> tm_id e' = tm_id e \<and> tm_todo e' = tm_todo e \<and> tm_events e' = tm_events e @ [rel_token r]"
    and "next_cell w' = next_cell w \<and> next_token w' = next_token w \<and> counted_alive w' = counted_alive w \<and>
      links_alive w' = links_alive w \<and> c_id (cells w' x) = c_id (cells w x) \<and>
      c_alive (cells w' x) = c_alive (cells w x) \<and> c_terminal (cells w' x) = c_terminal (cells w x)"
    and "link_cell_ok R (p + (if x = tm_addr e then 1 else 0)) (cells w x) \<Longrightarrow> link_cell_ok R p (cells w' x)"
proof -
  show "tm_addr e' = tm_addr e \<and> tm_id e' = tm_id e \<and> tm_todo e' = tm_todo e \<and> tm_events e' = tm_events e @ [rel_token r]"
    using rp by (elim release_peer_cases) simp
  obtain rem w1 where w1: "w1 = upd_cell (tm_addr e) (\<lambda>c. c\<lparr>c_link := sem_release (rt_sem R) (c_link c)\<rparr>) w"
    and d: "(\<not> c_alive (cells w (rel_peer r)) \<and> \<not> rem \<and> w' = w1) \<or>
       (c_alive (cells w (rel_peer r)) \<and> remove_if R (rel_peer r) (tm_id e) (rel_token r) w1 = (rem, w'))"
    using rp by (elim release_peer_cases)
  have fr: "next_cell w1 = next_cell w \<and> next_token w1 = next_token w \<and> counted_alive w1 = counted_alive w \<and>
      links_alive w1 = links_alive w \<and> c_id (cells w1 x) = c_id (cells w x) \<and>
      c_alive (cells w1 x) = c_alive (cells w x) \<and> c_terminal (cells w1 x) = c_terminal (cells w x)"
    by (simp add: w1)
  from d show "next_cell w' = next_cell w \<and> next_token w' = next_token w \<and> counted_alive w' = counted_alive w \<and>
      links_alive w' = links_alive w \<and> c_id (cells w' x) = c_id (cells w x) \<and>
      c_alive (cells w' x) = c_alive (cells w x) \<and> c_terminal (cells w' x) = c_terminal (cells w x)"
    using fr by (auto simp: remove_if_frame)
  assume "link_cell_ok R (p + (if x = tm_addr e then 1 else 0)) (cells w x)"
  then have "link_cell_ok R p (cells w1 x)"
    by (auto simp: w1 link_cell_ok_def link_closed_def split: if_splits)
  with d show "link_cell_ok R p (cells w' x)" by (auto intro: remove_if_cell)
qed

lemma release_peer_stored:
  assumes rp: "release_peer R e (k, r) w = (e', w')" and eo: "ending_ok w e"
    and cell: "link_cell_ok R p (cells w (tm_addr e))" "link_cell_ok R q (cells w (rel_peer r))"
    and ty: "ends_typed (world_ids w) (next_cell w) nt E" and un: "ends_unique E" and E: "stored_ends w \<subseteq> E"
    and mem: "(tm_addr e, k, rel_token r, rel_peer r) \<in> E"
  shows "stored_ends w' = {(a', k', t', b'). (a', k', t', b') \<in> stored_ends w \<and> t' \<noteq> rel_token r}"
proof -
  have not_a: "(tm_addr e, k', t', b') \<notin> stored_ends w" for k' t' b'
    using eo closed_not_stored[OF cell(1)] by (simp add: ending_ok_def)
  have place: "a' = rel_peer r \<and> k' = tm_id e" if "(a', k', rel_token r, b') \<in> stored_ends w" for a' k' b'
  proof -
    have "a' = rel_peer r \<and> b' = tm_addr e"
      using ends_uniqueD[OF un mem, of a' k' b'] that E not_a by auto
    moreover have "c_id (cells w b') = Some k'" using ends_typedD[OF ty, of a' k'] that E by (auto simp: world_ids_def)
    ultimately show ?thesis using eo by (auto simp: ending_ok_def)
  qed
  have b: "rel_peer r < next_cell w" using ends_typedD[OF ty mem] by blast
  obtain rem w1 where w1: "w1 = upd_cell (tm_addr e) (\<lambda>c. c\<lparr>c_link := sem_release (rt_sem R) (c_link c)\<rparr>) w"
    and d: "(\<not> c_alive (cells w (rel_peer r)) \<and> \<not> rem \<and> w' = w1) \<or>
       (c_alive (cells w (rel_peer r)) \<and> remove_if R (rel_peer r) (tm_id e) (rel_token r) w1 = (rem, w'))"
    using rp by (elim release_peer_cases)
  have s1: "stored_ends w1 = stored_ends w" by (auto simp: w1 stored_ends_def split: if_splits)
  have b1: "rel_peer r < next_cell w1" using b by (simp add: w1)
  from d show ?thesis
  proof
    assume dd: "\<not> c_alive (cells w (rel_peer r)) \<and> \<not> rem \<and> w' = w1"
    then have "(rel_peer r, k', t', b') \<notin> stored_ends w" for k' t' b'
      using closed_not_stored[OF cell(2)] by (simp add: link_closed_def)
    then show ?thesis using dd s1 place by auto
  next
    assume "c_alive (cells w (rel_peer r)) \<and> remove_if R (rel_peer r) (tm_id e) (rel_token r) w1 = (rem, w')"
    from remove_if_stored(1)[OF conjunct2[OF this] b1] show ?thesis using s1 place by auto
  qed
qed

end

lemma endings_split:
  "pending_ends (es @ e # fs) = todo_ends e \<union> pending_ends (es @ fs)"
  "event_tokens (es @ e # fs) = set (tm_events e) \<union> event_tokens (es @ fs)"
  "pending_count a (es @ e # fs) = (if tm_addr e = a then length (tm_todo e) else 0) + pending_count a (es @ fs)"
  by (auto simp: pending_ends_def event_tokens_def pending_count_def)

text \<open>A finished termination leaves the list without a trace.\<close>

lemma links_inv_ended:
  assumes "links_inv R (m\<lparr>lm_world := w, lm_endings := es @ [e] @ fs\<rparr>)" "ended e"
  shows "links_inv R (m\<lparr>lm_world := w, lm_endings := es @ fs\<rparr>)"
proof -
  have z: "todo_ends e = {}" "tm_todo e = []" "tm_events e = []"
    using assms(2) by (auto simp: ended_def todo_ends_def)
  have "pending_count a (es @ e # fs) = pending_count a (es @ fs)" for a
    unfolding endings_split by (simp add: z)
  then show ?thesis using assms(1) by (simp add: links_inv_def Let_def endings_split(1,2) z)
qed

context signal_runtime
begin

lemma links_inv_release:
  assumes inv: "links_inv R m" and es: "lm_endings m = es @ e # fs" and todo: "tm_todo e = (k, r) # xs"
    and rp: "release_peer R (e\<lparr>tm_todo := xs\<rparr>) (k, r) (lm_world m) = (e', w')"
  shows "links_inv R (m\<lparr>lm_world := w', lm_endings := es @ [e'] @ fs\<rparr>)"
proof -
  let ?w = "lm_world m" and ?e = "e\<lparr>tm_todo := xs\<rparr>" and ?P = "pending_ends (lm_endings m)"
    and ?t = "rel_token r"
  note fr = release_peer_effect(2)[OF rp] and e' = release_peer_effect(1)[OF rp, simplified]
  note ok = links_invD(1)[OF inv]
  have eo: "ending_ok ?w e" using links_invD(3)[OF inv] es by simp
  then have eo': "ending_ok ?w ?e" by (simp add: ending_ok_def)
  have mem: "(tm_addr ?e, k, ?t, rel_peer r) \<in> stored_ends ?w \<union> ?P"
    unfolding es endings_split by (auto simp: todo_ends_def todo)
  have lt: "tm_addr ?e < next_cell ?w" "rel_peer r < next_cell ?w"
    using ok mem by (auto simp: ends_ok_def dest: ends_typedD)
  have st: "stored_ends w' = {(a', k', t', b'). (a', k', t', b') \<in> stored_ends ?w \<and> t' \<noteq> ?t}"
    by (rule release_peer_stored[OF rp eo' links_invD(2)[OF inv lt(1)] links_invD(2)[OF inv lt(2)] _ _ _ mem])
      (use ok in \<open>auto simp: ends_ok_def\<close>)
  let ?Q = "pending_ends (es @ e' # fs)"
  have Q: "?Q \<subseteq> ?P" "\<And>a k' t' b. (a, k', t', b) \<in> ?P \<Longrightarrow> t' \<noteq> ?t \<Longrightarrow> (a, k', t', b) \<in> ?Q"
    unfolding es endings_split by (auto simp: todo_ends_def todo e')
  have ids: "world_ids w' = world_ids ?w" using fr by (simp add: world_ids_def fun_eq_iff)
  show ?thesis
  proof (rule links_invI, simp_all add: ids fr)
    show "ends_ok (world_ids ?w) (next_cell ?w) (next_token ?w) (stored_ends w') ?Q"
      by (rule ends_ok_forget[OF ok, of _ ?t]) (use Q in \<open>auto simp: st\<close>)
    show "link_cell_ok R (pending_count a (es @ e' # fs)) (cells w' a)" if "a < next_cell ?w" for a
    proof (rule release_peer_effect(3)[OF rp])
      show "link_cell_ok R (pending_count a (es @ e' # fs) + (if a = tm_addr ?e then 1 else 0)) (cells ?w a)"
        using links_invD(2)[OF inv that] by (auto simp: es endings_split todo e' split: if_splits)
    qed
    show "ending_ok w' x" if "x = e' \<or> x \<in> set es \<or> x \<in> set fs" for x
    proof -
      have "ending_ok ?w x"
        using links_invD(3)[OF inv] that eo e' by (auto simp: es ending_ok_def)
      then show ?thesis using ending_ok_cong[of w' ?w x] fr by simp
    qed
    show "unlink_ok w' (stored_ends w' \<union> ?Q) u" if "u \<in> set (lm_unlinks m)" for u
    proof -
      have "unlink_ok ?w (stored_ends w' \<union> ?Q) u"
        using links_invD(4)[OF inv that] Q(1) by (elim unlink_ok_subset) (auto simp: st)
      then show ?thesis using unlink_ok_cong[of w' ?w] fr by simp
    qed
    have "tokens (stored_ends ?w \<union> ?P) \<subseteq> insert ?t (tokens (stored_ends w' \<union> ?Q))"
      using Q(2) by (auto simp: tokens_def st) blast+
    moreover have "?t < next_token ?w" using ok mem by (auto simp: ends_ok_def dest: ends_typedD)
    moreover have "?t \<notin> tokens (stored_ends w')" by (simp add: st tokens_def)
    moreover have "stored_ends w' \<subseteq> stored_ends ?w" by (auto simp: st)
    ultimately have "gauge_ok ?w (stored_ends w') ?Q (insert ?t (event_tokens (lm_endings m)))"
      by (intro gauge_move[OF links_invD(5)[OF inv]])
    moreover have "insert ?t (event_tokens (lm_endings m)) = event_tokens (es @ e' # fs)"
      unfolding es endings_split by (simp add: e')
    ultimately show "gauge_ok w' (stored_ends w') ?Q (event_tokens (es @ e' # fs))"
      using fr gauge_cong[of w' ?w] by simp
  qed
qed

lemma links_inv_same_ends:
  assumes "links_inv R (m\<lparr>lm_endings := es @ [e] @ fs\<rparr>)" "tm_addr e' = tm_addr e" "tm_id e' = tm_id e"
    "tm_todo e' = tm_todo e" "tm_events e' = tm_events e"
  shows "links_inv R (m\<lparr>lm_endings := es @ [e'] @ fs\<rparr>)"
proof -
  have "todo_ends e' = todo_ends e" using assms by (simp add: todo_ends_def)
  moreover have "pending_count a (es @ e' # fs) = pending_count a (es @ e # fs)" for a
    unfolding endings_split by (simp add: assms)
  moreover have "ending_ok w e' = ending_ok w e" for w :: "('s, 'q) world" using assms by (simp add: ending_ok_def)
  ultimately show ?thesis
    using assms(1,5) by (simp add: links_inv_def Let_def endings_split(1,2))
qed

lemma links_inv_report:
  assumes inv: "links_inv R m" and es: "lm_endings m = es @ e # fs" and ev: "tm_events e = t # ts"
  shows "links_inv R (m\<lparr>lm_world := record_link_removed t (lm_world m), lm_endings := es @ [e\<lparr>tm_events := ts\<rparr>] @ fs\<rparr>)"
proof -
  let ?w = "lm_world m" and ?e = "e\<lparr>tm_events := ts\<rparr>"
  have P: "pending_ends (es @ ?e # fs) = pending_ends (lm_endings m)"
    unfolding es endings_split by (simp add: todo_ends_def)
  have pc: "pending_count a (es @ ?e # fs) = pending_count a (lm_endings m)" for a
    unfolding es endings_split by simp
  have EV: "event_tokens (es @ ?e # fs) \<subseteq> event_tokens (lm_endings m)"
    "event_tokens (lm_endings m) \<subseteq> insert t (event_tokens (es @ ?e # fs))"
    unfolding es endings_split ev by auto
  have "t \<notin> tokens (stored_ends ?w)"
    using links_invD(5)[OF inv] by (auto simp: gauge_ok_def es endings_split ev)
  from gauge_record[OF links_invD(5)[OF inv] subset_refl this EV(1), of "pending_ends (lm_endings m)"] EV(2)
  have g: "gauge_ok (record_link_removed t ?w) (stored_ends ?w) (pending_ends (lm_endings m)) (event_tokens (es @ ?e # fs))"
    by blast
  have eo: "ending_ok (record_link_removed t ?w) x = ending_ok ?w x" for x by (simp add: ending_ok_def)
  have "unlink_ok (record_link_removed t ?w) = unlink_ok ?w" by (simp add: unlink_ok_def fun_eq_iff)
  moreover have "ending_ok ?w ?e" using links_invD(3)[OF inv] by (simp add: es ending_ok_def)
  ultimately show ?thesis
    using inv g by (simp add: links_inv_def Let_def P pc eo) (simp add: es)
qed

lemma links_inv_end_step:
  assumes inv: "links_inv R m" and es: "lm_endings m = es @ e # fs" and st: "end_step R e (lm_world m) = (e', w')"
  shows "links_inv R (m\<lparr>lm_world := w', lm_endings := es @ [e'] @ fs\<rparr>)"
proof (cases "tm_todo e")
  case (Cons x xs)
  then show ?thesis
    using links_inv_release[OF inv es, of "fst x" "snd x" xs e' w'] st by (simp add: end_step_def)
next
  case todo: Nil
  have same: "m\<lparr>lm_endings := es @ [e] @ fs\<rparr> = m" using es by simp
  show ?thesis
  proof (cases "tm_notes e")
    case (Cons n ns)
    then obtain peer peer_id tag where n: "n = (peer, peer_id, tag)" by (cases n)
    then have e': "e' = e\<lparr>tm_notes := ns\<rparr>" and fr: "link_frame (lm_world m) w'"
      using st todo Cons deliver_link_death_frame by (auto simp: end_step_def)
    have "links_inv R (m\<lparr>lm_world := w', lm_endings := es @ [e] @ fs\<rparr>)"
      using links_inv_frame[OF inv fr] by (simp add: es[symmetric])
    from links_inv_same_ends[where m = "m\<lparr>lm_world := w'\<rparr>" and es = es and e = e and fs = fs and e' = e'] this
    show ?thesis by (simp add: e')
  next
    case Nil
    show ?thesis
    proof (cases "tm_events e")
      case (Cons t ts)
      then show ?thesis using links_inv_report[OF inv es Cons] st todo Nil by (auto simp: end_step_def)
    next
      case ev: Nil
      then have "e' = e \<and> w' = lm_world m" using st todo Nil by (simp add: end_step_def)
      then show ?thesis using inv same by simp
    qed
  qed
qed

text \<open>The start of a termination moves the ends of the process from stored to pending.\<close>

lemma links_inv_take:
  assumes inv: "links_inv R m" and a: "a < next_cell (lm_world m)" "c_id (cells (lm_world m) a) = Some i"
    and w': "w' = upd_cell a (\<lambda>_. c') (lm_world m)"
    and c': "c_relations c' = []" "link_closed c'" "c_id c' = Some i" "c_link c' = c_link (cells (lm_world m) a)"
      "c_capacity c' = c_capacity (cells (lm_world m) a)"
    and e: "tm_addr e = a" "tm_id e = i" "tm_todo e = c_relations (cells (lm_world m) a)" "tm_events e = []"
  shows "links_inv R (m\<lparr>lm_world := w', lm_endings := lm_endings m @ [e]\<rparr>)"
proof -
  let ?w = "lm_world m" and ?P = "pending_ends (lm_endings m)" and ?Q = "pending_ends (lm_endings m @ [e])"
  have wf: "hm_wf (c_relations (cells ?w a))" using links_invD(2)[OF inv a(1)] by (simp add: link_cell_ok_def)
  have S': "stored_ends w' = {(a', k, t, b). (a', k, t, b) \<in> stored_ends ?w \<and> a' \<noteq> a}"
    by (auto simp: stored_ends_def w' c' split: if_splits)
  have "todo_ends e = {(a', k, t, b). (a', k, t, b) \<in> stored_ends ?w \<and> a' = a}"
    using a(1) wf by (auto simp: todo_ends_def e stored_ends_def hm_get_mem)
  then have un: "stored_ends w' \<union> ?Q = stored_ends ?w \<union> ?P"
    unfolding S' endings_split by auto
  have ids: "world_ids w' = world_ids ?w" using a c' by (auto simp: world_ids_def w' fun_eq_iff)
  have fr: "next_cell w' = next_cell ?w" "next_token w' = next_token ?w" "\<And>x. c_id (cells w' x) = c_id (cells ?w x)"
    "counted_alive w' = counted_alive ?w" "links_alive w' = links_alive ?w"
    using a c' by (simp_all add: w')
  have EV: "event_tokens (lm_endings m @ [e]) = event_tokens (lm_endings m)"
    unfolding endings_split by (simp add: e)
  show ?thesis
  proof (rule links_invI, simp_all add: ids fr un EV)
    show "ends_ok (world_ids ?w) (next_cell ?w) (next_token ?w) (stored_ends w') ?Q"
      by (rule ends_ok_move[OF links_invD(1)[OF inv] _ un]) (auto simp: S')
    show "link_cell_ok R (pending_count x (lm_endings m @ [e])) (cells w' x)" if "x < next_cell ?w" for x
      using links_invD(2)[OF inv that] unfolding endings_split
      by (auto simp: link_cell_ok_def w' c' e hm_wf_def)
    show "ending_ok w' x" if "x = e \<or> x \<in> set (lm_endings m)" for x
    proof (cases "x = e")
      case True
      then show ?thesis using a c' by (simp add: ending_ok_def e w')
    next
      case False
      then have "ending_ok ?w x" using links_invD(3)[OF inv] that by simp
      then show ?thesis using a c' by (auto simp: ending_ok_def w')
    qed
    show "unlink_ok w' (stored_ends ?w \<union> ?P) u" if "u \<in> set (lm_unlinks m)" for u
      using links_invD(4)[OF inv that] unlink_ok_cong[of w' ?w] fr by simp
    have "tokens (stored_ends w') \<subseteq> tokens (stored_ends ?w)" by (auto simp: S' tokens_def)
    then have "gauge_ok ?w (stored_ends w') ?Q (event_tokens (lm_endings m))"
      using links_invD(5)[OF inv] unfolding gauge_ok_def un by blast
    then show "gauge_ok w' (stored_ends w') ?Q (event_tokens (lm_endings m))"
      using gauge_cong[of w' ?w] fr by simp
  qed
qed

lemma links_inv_terminate:
  assumes inv: "links_inv R m" and h: "handle_ok (lm_world m) h" and t: "terminate_begin h reason (lm_world m) = (e, w')"
  shows "links_inv R (m\<lparr>lm_world := w', lm_endings := lm_endings m @ (case e of None \<Rightarrow> [] | Some x \<Rightarrow> [x])\<rparr>)"
proof -
  let ?a = "lh_addr h" and ?w = "publish_terminal_reason (lh_addr h) reason (lm_world m)"
  have inv1: "links_inv R (m\<lparr>lm_world := ?w\<rparr>)" by (rule links_inv_frame[OF inv]) simp
  note fr = link_frame_cells[OF publish_frame[of "lm_world m" ?a reason]]
  show ?thesis
  proof (cases e)
    case None
    then have "w' = ?w" using t by (auto simp: terminate_begin_def Let_def split: if_splits)
    then show ?thesis using inv1 None by simp
  next
    case (Some x)
    then have nt: "c_terminal (cells ?w ?a) = None"
      and x: "x = \<lparr>tm_addr = ?a, tm_id = lh_id h, tm_reason = reason, tm_todo = c_relations (cells ?w ?a),
          tm_notes = [], tm_events = []\<rparr>"
      and w': "w' = upd_cell ?a (\<lambda>c. c\<lparr>c_terminal := Some reason, c_relations := []\<rparr>) ?w"
      using t by (auto simp: terminate_begin_def Let_def split: if_splits)
    have "links_inv R (m\<lparr>lm_world := ?w, lm_world := w', lm_endings := lm_endings m @ [x]\<rparr>)"
      using links_inv_take[OF inv1, of ?a "lh_id h" w'
          "(cells ?w ?a)\<lparr>c_terminal := Some reason, c_relations := []\<rparr>" x] h
      by (simp add: handle_ok_def fr x link_closed_def) (simp add: w' upd_cell_def)
    then show ?thesis using Some by simp
  qed
qed

lemma links_inv_drop:
  assumes inv: "links_inv R m" and a: "a < next_cell (lm_world m)" and t: "drop_begin R a (lm_world m) = (e, w')"
  shows "links_inv R (m\<lparr>lm_world := w', lm_endings := lm_endings m @ (case e of None \<Rightarrow> [] | Some x \<Rightarrow> [x])\<rparr>)"
proof (cases "c_id (cells (lm_world m) a)")
  case (Some i)
  let ?w = "lm_world m"
  obtain x where x: "e = Some x" "x = \<lparr>tm_addr = a, tm_id = i, tm_reason = NoProcess, tm_todo = c_relations (cells ?w a),
      tm_notes = [], tm_events = []\<rparr>" and w': "w' = upd_cell a (\<lambda>c. c\<lparr>c_alive := False, c_relations := []\<rparr>) ?w"
    using t Some by (auto simp: drop_begin_def Let_def)
  show ?thesis
    using links_inv_take[OF inv a Some, of w' "(cells ?w a)\<lparr>c_alive := False, c_relations := []\<rparr>" x] Some
    by (simp add: x link_closed_def) (simp add: w' upd_cell_def)
next
  case None
  have "(a, k, t, b) \<notin> stored_ends (lm_world m)" for k t b
    using links_invD(1)[OF inv] None unfolding ends_ok_def world_ids_def by (blast dest: ends_mated_id)
  then have "hm_get (c_relations (cells (lm_world m) a)) k = None" for k
    using a by (cases "hm_get (c_relations (cells (lm_world m) a)) k") (auto simp: stored_ends_iff)
  then have nil: "c_relations (cells (lm_world m) a) = []" by (rule hm_empty)
  have e: "e = None" and w': "w' = upd_cell a (\<lambda>c. c\<lparr>c_alive := False, c_relations := []\<rparr>) (lm_world m)"
    using t None nil by (auto simp: drop_begin_def Let_def)
  have st: "stored_ends w' = stored_ends (lm_world m)"
    using nil by (auto simp: stored_ends_def w' split: if_splits)
  have ids: "world_ids w' = world_ids (lm_world m)" by (auto simp: world_ids_def w' fun_eq_iff)
  have fr: "next_cell w' = next_cell (lm_world m)" "next_token w' = next_token (lm_world m)"
    "\<And>x. c_id (cells w' x) = c_id (cells (lm_world m) x)" "counted_alive w' = counted_alive (lm_world m)"
    "links_alive w' = links_alive (lm_world m)"
    by (simp_all add: w')
  have cell: "link_cell_ok R p (cells (lm_world m) x) \<Longrightarrow> link_cell_ok R p (cells w' x)" for p x
    using nil by (auto simp: link_cell_ok_def w' hm_wf_def)
  have "ending_ok (lm_world m) x \<Longrightarrow> ending_ok w' x" for x
    by (auto simp: ending_ok_def w' link_closed_def)
  moreover have "unlink_ok w' = unlink_ok (lm_world m)" by (simp add: unlink_ok_def fr fun_eq_iff)
  moreover have "gauge_ok w' = gauge_ok (lm_world m)" by (simp add: gauge_ok_def counted_def fr fun_eq_iff)
  ultimately show ?thesis using inv cell by (simp add: links_inv_def Let_def e st ids fr)
qed

text \<open>The three outcomes of linking: nothing changes, the exit tags change, or a link is created.\<close>

lemma link_pair_cases:
  assumes "link_pair R l ltag r rtag w = (res, w')"
  obtains (same) "w' = w" "res = Inr () \<longrightarrow> lh_addr l = lh_addr r"
  | (retag) "lh_addr l \<noteq> lh_addr r" "res = Inr ()"
      "w' = upd_cell (lh_addr r) (set_exit_tag (lh_id l) rtag) (upd_cell (lh_addr l) (set_exit_tag (lh_id r) ltag) w)"
  | (created) sl sr t where "lh_addr l \<noteq> lh_addr r" "lh_id l \<noteq> lh_id r" "res = Inr ()" "t = next_token w"
      "\<not> link_refused R (cells w (lh_addr l))" "\<not> link_refused R (cells w (lh_addr r))"
      "hm_get (c_relations (cells w (lh_addr l))) (lh_id r) = None"
      "hm_get (c_relations (cells w (lh_addr r))) (lh_id l) = None"
      "sem_try_acquire (rt_sem R) (c_link (cells w (lh_addr l))) = Some sl"
      "sem_try_acquire (rt_sem R) (c_link (cells w (lh_addr r))) = Some sr"
      "w' = record_link_created
         (upd_cell (lh_addr r) (add_relation (lh_id l) \<lparr>rel_token = t, rel_peer = lh_addr l, rel_exit_tag = rtag\<rparr> sr)
         (upd_cell (lh_addr l) (add_relation (lh_id r) \<lparr>rel_token = t, rel_peer = lh_addr r, rel_exit_tag = ltag\<rparr> sl)
           (w\<lparr>next_token := Suc t, counted_alive := (counted_alive w)(t := True)\<rparr>)))"
proof -
  have undo: "sem_try_acquire (rt_sem R) (c_link (cells w x)) = Some s \<Longrightarrow>
      upd_cell x (\<lambda>c. c\<lparr>c_link := sem_release (rt_sem R) s\<rparr>) w = w" for x s
    by (rule upd_cell_same) simp
  show thesis
    using assms that
    by (auto simp: link_pair_def install_def Let_def undo split: if_splits option.splits prod.splits)
qed

lemma set_exit_tag_ends:
  "link_cell_ok R p c \<Longrightarrow> link_cell_ok R p (set_exit_tag k tag c)"
  "c_id (set_exit_tag k tag c) = c_id c" "link_closed (set_exit_tag k tag c) = link_closed c"
  "(\<exists>r. hm_get (c_relations (set_exit_tag k tag c)) j = Some r \<and> rel_token r = t \<and> rel_peer r = b) =
   (\<exists>r. hm_get (c_relations c) j = Some r \<and> rel_token r = t \<and> rel_peer r = b)"
  by (auto simp: set_exit_tag_def link_cell_ok_def link_closed_def hmap_simps hm_len_insert split: option.splits)

lemma links_inv_retag:
  assumes inv: "links_inv R m"
  shows "links_inv R (m\<lparr>lm_world := upd_cell a (set_exit_tag k tag) (lm_world m)\<rparr>)"
proof -
  let ?w = "lm_world m" and ?w' = "upd_cell a (set_exit_tag k tag) (lm_world m)"
  have "(a', k', t, b) \<in> stored_ends ?w' \<longleftrightarrow> (a', k', t, b) \<in> stored_ends ?w" for a' k' t b
    by (cases "a' = a") (simp_all add: stored_ends_iff set_exit_tag_ends(4))
  then have st: "stored_ends ?w' = stored_ends ?w" by auto
  have id: "c_id (cells ?w' x) = c_id (cells ?w x)" "link_closed (cells ?w' x) = link_closed (cells ?w x)" for x
    by (simp_all add: set_exit_tag_ends)
  have ids: "world_ids ?w' = world_ids ?w" by (simp add: world_ids_def set_exit_tag_ends fun_eq_iff)
  have "link_cell_ok R p (cells ?w x) \<Longrightarrow> link_cell_ok R p (cells ?w' x)" for p x
    by (auto intro: set_exit_tag_ends(1))
  moreover have "ending_ok ?w' = ending_ok ?w" using id by (simp add: ending_ok_def fun_eq_iff)
  moreover have "unlink_ok ?w' = unlink_ok ?w" using id by (simp add: unlink_ok_def fun_eq_iff)
  moreover have "gauge_ok ?w' = gauge_ok ?w" by (simp add: gauge_ok_def counted_def fun_eq_iff)
  ultimately show ?thesis using inv by (simp add: links_inv_def Let_def st ids)
qed

lemma add_relation_ok:
  "link_cell_ok R p c \<Longrightarrow> hm_get (c_relations c) k = None \<Longrightarrow> \<not> link_closed c \<Longrightarrow>
     sem_try_acquire (rt_sem R) (c_link c) = Some s \<Longrightarrow> link_cell_ok R p (add_relation k r s c)"
  by (auto simp: link_cell_ok_def link_closed_def add_relation_def hm_len_insert dest: sem.acquire_available)

lemma gauge_create:
  assumes g: "gauge_ok w S P EV" and S': "tokens S' = insert (next_token w) (tokens S)"
    and w': "next_token w' = Suc (next_token w)" "counted_alive w' = (counted_alive w)(next_token w := True)"
      "links_alive w' = links_alive w + 1"
  shows "gauge_ok w' S' P EV"
proof -
  have fin: "finite (counted w)" using g finite_subset unfolding gauge_ok_def by blast
  have new: "next_token w \<notin> counted w" "next_token w \<notin> EV" using g by (auto simp: gauge_ok_def)
  have c: "counted w' = insert (next_token w) (counted w)" by (auto simp: counted_def w')
  have "links_alive w' = int (card (counted w'))" using g fin new by (simp add: gauge_ok_def c w')
  moreover have "tokens (S' \<union> P) = insert (next_token w) (tokens (S \<union> P))"
    by (simp add: tokens_Un S')
  ultimately show ?thesis using g new by (auto simp: gauge_ok_def c S' w')
qed

lemma links_inv_create:
  assumes inv: "links_inv R m" and hl: "handle_ok (lm_world m) l" and hr: "handle_ok (lm_world m) r"
    and ne: "lh_addr l \<noteq> lh_addr r" and t: "t = next_token (lm_world m)"
    and live: "\<not> link_refused R (cells (lm_world m) (lh_addr l))" "\<not> link_refused R (cells (lm_world m) (lh_addr r))"
    and none: "hm_get (c_relations (cells (lm_world m) (lh_addr l))) (lh_id r) = None"
      "hm_get (c_relations (cells (lm_world m) (lh_addr r))) (lh_id l) = None"
    and acq: "sem_try_acquire (rt_sem R) (c_link (cells (lm_world m) (lh_addr l))) = Some sl"
      "sem_try_acquire (rt_sem R) (c_link (cells (lm_world m) (lh_addr r))) = Some sr"
    and w': "w' = record_link_created
         (upd_cell (lh_addr r) (add_relation (lh_id l) \<lparr>rel_token = t, rel_peer = lh_addr l, rel_exit_tag = rtag\<rparr> sr)
         (upd_cell (lh_addr l) (add_relation (lh_id r) \<lparr>rel_token = t, rel_peer = lh_addr r, rel_exit_tag = ltag\<rparr> sl)
           ((lm_world m)\<lparr>next_token := Suc t, counted_alive := (counted_alive (lm_world m))(t := True)\<rparr>)))"
  shows "links_inv R (m\<lparr>lm_world := w'\<rparr>)"
proof -
  let ?w = "lm_world m" and ?P = "pending_ends (lm_endings m)" and ?a = "lh_addr l" and ?b = "lh_addr r"
  let ?new = "{(?a, lh_id r, t, ?b), (?b, lh_id l, t, ?a)}"
  have lt: "?a < next_cell ?w" "?b < next_cell ?w" and id: "c_id (cells ?w ?a) = Some (lh_id l)" "c_id (cells ?w ?b) = Some (lh_id r)"
    using hl hr by (auto simp: handle_ok_def)
  have c: "cells w' = (cells ?w)(?a := add_relation (lh_id r) \<lparr>rel_token = t, rel_peer = ?b, rel_exit_tag = ltag\<rparr> sl (cells ?w ?a),
      ?b := add_relation (lh_id l) \<lparr>rel_token = t, rel_peer = ?a, rel_exit_tag = rtag\<rparr> sr (cells ?w ?b))"
    using ne by (simp add: w' record_link_created_def)
  have fr: "next_cell w' = next_cell ?w" "next_token w' = Suc t" "counted_alive w' = (counted_alive ?w)(t := True)"
    "links_alive w' = links_alive ?w + 1"
    by (simp_all add: w' record_link_created_def)
  have st: "stored_ends w' = insert (?a, lh_id r, t, ?b) (insert (?b, lh_id l, t, ?a) (stored_ends ?w))"
    using ne none lt by (auto simp: stored_ends_def c fr add_relation_def hm_get_insert split: if_splits)
  have cid: "c_id (cells w' x) = c_id (cells ?w x)" "link_closed (cells w' x) = link_closed (cells ?w x)" for x
    by (simp_all add: c add_relation_def link_closed_def)
  have ids: "world_ids w' = world_ids ?w" using cid by (simp add: world_ids_def fun_eq_iff)
  show ?thesis
  proof (rule links_invI, simp_all add: ids fr)
    show "ends_ok (world_ids ?w) (next_cell ?w) (Suc t) (stored_ends w') ?P"
      unfolding st t by (rule ends_ok_add[OF links_invD(1)[OF inv] lt ne]) (simp_all add: world_ids_def id)
    have "\<not> link_closed (cells ?w ?a)" "\<not> link_closed (cells ?w ?b)"
      using hl hr live by (auto simp: handle_ok_def link_refused_def link_closed_def)
    then show "link_cell_ok R (pending_count x (lm_endings m)) (cells w' x)" if x: "x < next_cell ?w" for x
      using add_relation_ok[OF links_invD(2)[OF inv lt(1)] none(1) _ acq(1)]
        add_relation_ok[OF links_invD(2)[OF inv lt(2)] none(2) _ acq(2)] links_invD(2)[OF inv x] by (simp add: c)
    show "ending_ok w' e" if "e \<in> set (lm_endings m)" for e
      using links_invD(3)[OF inv that] by (simp add: ending_ok_def cid fr)
    show "unlink_ok w' (stored_ends w' \<union> ?P) u" if "u \<in> set (lm_unlinks m)" for u
      using links_invD(4)[OF inv that] by (auto simp: unlink_ok_def cid fr st t)
    show "gauge_ok w' (stored_ends w') ?P (event_tokens (lm_endings m))"
      by (rule gauge_create[OF links_invD(5)[OF inv]]) (auto simp: st fr t tokens_def)
  qed
qed

lemma links_inv_link:
  assumes inv: "links_inv R m" and hl: "handle_ok (lm_world m) l" and hr: "handle_ok (lm_world m) r"
    and lp: "link_pair R l ltag r rtag (lm_world m) = (res, w')"
  shows "links_inv R (m\<lparr>lm_world := w'\<rparr>)"
  using lp
proof (cases rule: link_pair_cases)
  case same
  then show ?thesis using inv by simp
next
  case retag
  have "links_inv R (m\<lparr>lm_world := upd_cell (lh_addr l) (set_exit_tag (lh_id r) ltag) (lm_world m)\<rparr>)"
    by (rule links_inv_retag[OF inv])
  from links_inv_retag[OF this, of "lh_addr r" "lh_id l" rtag] show ?thesis by (simp add: retag)
next
  case (created sl sr t)
  show ?thesis by (rule links_inv_create[OF inv hl hr created(1,4-11)])
qed

text \<open>New identities and new cells.\<close>

lemma links_inv_handle:
  assumes inv: "links_inv R m" and h: "lifecycle_handle a i (lm_world m) = (res, w')"
  shows "links_inv R (m\<lparr>lm_world := w'\<rparr>)"
proof (cases "c_alive (cells (lm_world m) a) \<and> c_id (cells (lm_world m) a) = None")
  case False
  then have "w' = lm_world m" using h by (auto simp: lifecycle_handle_def split: if_splits option.splits)
  then show ?thesis using inv by simp
next
  case True
  let ?w = "lm_world m"
  have w': "w' = upd_cell a (\<lambda>c. c\<lparr>c_id := Some i\<rparr>) ?w" using h True by (auto simp: lifecycle_handle_def)
  have fr: "next_cell w' = next_cell ?w" "next_token w' = next_token ?w" by (simp_all add: w')
  have st: "stored_ends w' = stored_ends ?w" by (auto simp: stored_ends_def w' split: if_splits)
  have "ends_ok (world_ids w') (next_cell ?w) (next_token ?w) (stored_ends ?w) (pending_ends (lm_endings m))"
    by (rule ends_ok_grow[OF links_invD(1)[OF inv]]) (use True in \<open>auto simp: world_ids_def w'\<close>)
  moreover have "link_cell_ok R p (cells w' x) = link_cell_ok R p (cells ?w x)" for p x
    by (simp add: link_cell_ok_def link_closed_def w')
  moreover have "ending_ok ?w e \<Longrightarrow> ending_ok w' e" for e
    using True by (auto simp: ending_ok_def w' link_closed_def)
  moreover have "unlink_ok ?w E u \<Longrightarrow> unlink_ok w' E u" for E u
    using True by (auto simp: unlink_ok_def w' split: prod.splits)
  moreover have "gauge_ok w' = gauge_ok ?w" by (simp add: gauge_ok_def counted_def w' fun_eq_iff)
  ultimately show ?thesis using inv by (simp add: links_inv_def Let_def st fr)
qed

lemma links_inv_spawn:
  assumes inv: "links_inv R m" and sp: "mailboxes_with_limits R cap mcap mbytes mres (lm_world m) = Some (a, w')"
  shows "links_inv R (m\<lparr>lm_world := w'\<rparr>)"
proof -
  let ?w = "lm_world m" and ?n = "next_cell (lm_world m)"
  obtain c where c: "signal_mailbox_with_limits R cap (mailbox_with_limits (rt_sem R) ?n mcap mbytes mres) mbytes mres = Some c"
    and w': "w' = ?w\<lparr>cells := (cells ?w)(?n := c), next_cell := Suc ?n\<rparr>"
    using sp by (auto simp: mailboxes_with_limits_def Let_def split: option.splits)
  have nc: "c_relations c = []" "c_id c = None" "sem_available (rt_sem R) (c_link c) = c_capacity c"
    using c by (auto simp: signal_mailbox_with_limits_def split: if_splits)
  have fr: "next_cell w' = Suc ?n" "next_token w' = next_token ?w" by (simp_all add: w')
  have st: "stored_ends w' = stored_ends ?w"
    using nc by (auto simp: stored_ends_def w' less_Suc_eq split: if_splits)
  have "ends_ok (world_ids w') (Suc ?n) (next_token ?w) (stored_ends ?w) (pending_ends (lm_endings m))"
    by (rule ends_ok_grow[OF links_invD(1)[OF inv]]) (auto simp: world_ids_def w')
  moreover have "tm_addr e \<noteq> ?n" if "e \<in> set (lm_endings m)" for e
    using links_invD(3)[OF inv that] by (simp add: ending_ok_def)
  then have "pending_count ?n (lm_endings m) = 0"
    unfolding pending_count_def by (auto simp: sum_list_eq_0_iff)
  then have "link_cell_ok R (pending_count x (lm_endings m)) (cells w' x)" if "x < Suc ?n" for x
    using links_invD(2)[OF inv, of x] that nc by (cases "x = ?n") (auto simp: link_cell_ok_def w')
  moreover have "ending_ok ?w e \<Longrightarrow> ending_ok w' e" for e
    by (auto simp: ending_ok_def w' link_closed_def)
  moreover have "unlink_ok ?w E u \<Longrightarrow> unlink_ok w' E u" for E u
    by (auto simp: unlink_ok_def w' split: prod.splits)
  moreover have "gauge_ok w' = gauge_ok ?w" by (simp add: gauge_ok_def counted_def w' fun_eq_iff)
  ultimately show ?thesis using inv by (simp add: links_inv_def Let_def st fr)
qed

lemma links_inv_lookup:
  assumes inv: "links_inv R m" and h: "handle_ok (lm_world m) h" and l: "unlink_lookup h k (lm_world m) = Some tp"
  shows "links_inv R (m\<lparr>lm_unlinks := lm_unlinks m @ [(h, k, tp)]\<rparr>)"
proof -
  let ?w = "lm_world m" and ?E = "stored_ends (lm_world m) \<union> pending_ends (lm_endings m)"
  obtain t b where tp: "tp = (t, b)" and st: "(lh_addr h, k, t, b) \<in> stored_ends ?w"
    using l h by (auto simp: unlink_lookup_def stored_ends_iff handle_ok_def)
  note ok = links_invD(1)[OF inv, unfolded ends_ok_def]
  have "unlink_ok ?w ?E (h, k, t, b)"
    using ends_typedD[OF conjunct1[OF ok], of "lh_addr h" k t b] st h
      ends_uniqueD[OF conjunct2[OF conjunct2[OF ok]], of "lh_addr h" k t b]
    by (auto simp: unlink_ok_def handle_ok_def world_ids_def)
  then show ?thesis using inv tp by (simp add: links_inv_def Let_def)
qed

theorem links_inv_step: "links_inv R m \<Longrightarrow> link_step R m m' \<Longrightarrow> links_inv R m'"
proof (erule link_step.cases)
qed (auto intro: links_inv_spawn links_inv_handle links_inv_link links_inv_lookup links_inv_unlink
    links_inv_terminate links_inv_drop links_inv_frame send_inner_frame recv_poll_frame close_frame
    dest: links_inv_end_step links_inv_ended[rotated])

lemma links_inv_start: "link_start m \<Longrightarrow> links_inv R m"
  by (auto simp: links_inv_def Let_def link_start_def stored_ends_def pending_ends_def event_tokens_def
      ends_ok_def ends_typed_def ends_mated_def ends_unique_def gauge_ok_def counted_def tokens_def)

end

sublocale signal_runtime < links: inductive_invariant link_start "link_step R" "links_inv R"
  by unfold_locales (rule links_inv_start links_inv_step; assumption)+

context signal_runtime
begin

lemma reachable_links_inv: "reachable link_start (link_step R) m \<Longrightarrow> links_inv R m"
  by (rule links.reachable_inv)

end

section \<open>A termination, start to end\<close>

text \<open>The interleaved sections of one termination, run without interruption, are the source's loops.\<close>

lemma release_all_steps:
  "release_all R xs m w = (m', w') \<Longrightarrow>
     end_run R (length xs) (m\<lparr>tm_todo := xs\<rparr>, w) = (m'\<lparr>tm_todo := []\<rparr>, w')"
proof (induction xs arbitrary: m w)
  case (Cons x xs)
  obtain m1 w1 where rp: "release_peer R m x w = (m1, w1)" by fastforce
  have "release_peer R (m\<lparr>tm_todo := xs\<rparr>) x w = (m1\<lparr>tm_todo := xs\<rparr>, w1)"
    using rp by (auto simp: release_peer_def Let_def split: prod.splits if_splits)
  then show ?case using Cons rp by (simp add: end_step_def)
qed simp

lemma deliver_all_steps:
  "tm_todo m = [] \<Longrightarrow> tm_notes m = ns \<Longrightarrow>
     end_run R (length ns) (m, w) = (m\<lparr>tm_notes := []\<rparr>, deliver_all R (tm_id m) (tm_reason m) ns w)"
proof (induction ns arbitrary: m w)
  case (Cons n ns)
  then show ?case by (cases n) (simp add: end_step_def)
qed simp

lemma record_all_steps:
  "tm_todo m = [] \<Longrightarrow> tm_notes m = [] \<Longrightarrow> tm_events m = ts \<Longrightarrow>
     end_run R (length ts) (m, w) = (m\<lparr>tm_events := []\<rparr>, record_all ts w)"
  by (induction ts arbitrary: m w) (simp_all add: end_step_def)

lemma end_run_add: "end_run R (i + j) s = end_run R j (end_run R i s)"
  by (induction i arbitrary: s) simp_all

lemma release_all_keeps:
  "release_all R xs m w = (m', w') \<Longrightarrow> tm_id m' = tm_id m \<and> tm_reason m' = tm_reason m"
proof (induction xs arbitrary: m w)
  case (Cons x xs)
  then show ?case
    by (fastforce simp: release_peer_def Let_def split: prod.splits if_splits)
qed simp

lemma finish_by_steps: "\<exists>n m'. end_run R n (m, w) = (m', finish_termination R m w) \<and> ended m'"
proof -
  obtain m1 w1 where ra: "release_all R (tm_todo m) m w = (m1, w1)" by fastforce
  let ?m1 = "m1\<lparr>tm_todo := []\<rparr>" and ?w2 = "deliver_all R (tm_id m) (tm_reason m) (tm_notes m1) w1"
  have 1: "end_run R (length (tm_todo m)) (m, w) = (?m1, w1)" using release_all_steps[OF ra] by simp
  have 2: "end_run R (length (tm_notes m1)) (?m1, w1) = (?m1\<lparr>tm_notes := []\<rparr>, ?w2)"
    using deliver_all_steps[of ?m1 "tm_notes m1" R w1] release_all_keeps[OF ra] by simp
  have 3: "end_run R (length (tm_events m1)) (?m1\<lparr>tm_notes := []\<rparr>, ?w2) =
      (?m1\<lparr>tm_notes := [], tm_events := []\<rparr>, record_all (tm_events m1) ?w2)"
    using record_all_steps[of "?m1\<lparr>tm_notes := []\<rparr>" "tm_events m1" R ?w2] by simp
  have "end_run R (length (tm_todo m) + (length (tm_notes m1) + length (tm_events m1))) (m, w) =
      (?m1\<lparr>tm_notes := [], tm_events := []\<rparr>, finish_termination R m w)"
    by (simp add: end_run_add 1 2 3 finish_termination_def ra)
  moreover have "ended (?m1\<lparr>tm_notes := [], tm_events := []\<rparr>)" by (simp add: ended_def)
  ultimately show ?thesis by blast
qed

context signal_runtime
begin

lemma links_inv_end_run:
  "links_inv R (m\<lparr>lm_world := w, lm_endings := es @ [e]\<rparr>) \<Longrightarrow> end_run R n (e, w) = (e', w') \<Longrightarrow>
     links_inv R (m\<lparr>lm_world := w', lm_endings := es @ [e']\<rparr>)"
proof (induction n arbitrary: e w)
  case (Suc n)
  obtain e1 w1 where st: "end_step R e w = (e1, w1)" by fastforce
  from links_inv_end_step[OF Suc.prems(1), of es e "[]" e1 w1] st
  have "links_inv R (m\<lparr>lm_world := w1, lm_endings := es @ [e1]\<rparr>)" by simp
  then show ?case using Suc st by simp
qed simp

lemma links_inv_finish:
  assumes "links_inv R (m\<lparr>lm_world := w, lm_endings := es @ [e]\<rparr>)"
  shows "links_inv R (m\<lparr>lm_world := finish_termination R e w, lm_endings := es\<rparr>)"
proof -
  obtain n e' where "end_run R n (e, w) = (e', finish_termination R e w)" "ended e'"
    using finish_by_steps by blast
  with links_inv_ended[where m = m and w = "finish_termination R e w" and es = es and e = e' and fs = "[]" and R = R]
    links_inv_end_run[OF assms] show ?thesis by simp
qed

lemma links_inv_terminate_all:
  assumes "links_inv R m" "handle_ok (lm_world m) h"
  shows "links_inv R (m\<lparr>lm_world := terminate R h reason (lm_world m)\<rparr>)"
proof -
  obtain e w' where t: "terminate_begin h reason (lm_world m) = (e, w')" by fastforce
  note inv = links_inv_terminate[OF assms t]
  show ?thesis
  proof (cases e)
    case None
    then show ?thesis using inv t by (simp add: terminate_def)
  next
    case (Some x)
    then show ?thesis using links_inv_finish[where m = m and w = w' and es = "lm_endings m" and e = x] inv t by (simp add: terminate_def)
  qed
qed

end

text \<open>Sends only add to queues and latches.\<close>

definition reaches :: "('q \<Rightarrow> envelope list) \<Rightarrow> ('s, 'q) world \<Rightarrow> ('s, 'q) world \<Rightarrow> bool" where
  "reaches queued w w' \<longleftrightarrow> (\<forall>x. set (queued (c_chan (cells w x))) \<subseteq> set (queued (c_chan (cells w' x))) \<and>
     (c_kill (cells w x) \<longrightarrow> c_kill (cells w' x)))"

lemma reaches_refl [simp]: "reaches queued w w"
  by (simp add: reaches_def)

lemma reaches_trans: "reaches queued w w' \<Longrightarrow> reaches queued w' w'' \<Longrightarrow> reaches queued w w''"
  unfolding reaches_def by blast

lemma reaches_upd:
  "set (queued (c_chan (cells w a))) \<subseteq> set (queued (c_chan (f (cells w a)))) \<Longrightarrow>
     (c_kill (cells w a) \<Longrightarrow> c_kill (f (cells w a))) \<Longrightarrow> reaches queued w (upd_cell a f w)"
  by (simp add: reaches_def)

lemma reaches_deliver [simp]: "reaches queued w (deliver_notification R n pid reason w)"
  by (auto simp: deliver_notification_def drop_notification_def reaches_def split: prod.splits sum.splits)

lemma reaches_acknowledge [simp]: "reaches queued w (acknowledge ack w') = reaches queued w w'"
  by (simp add: acknowledge_def reaches_def split: option.splits)

context signal_runtime
begin

lemma sent_reaches: "sent R a sg target w w' \<Longrightarrow> reaches queued w w'"
proof (induction rule: sent.induct)
  case (sent_monitor w s b n w1 i ack q target)
  then have "c_chan (cells w1 x) = c_chan (cells w x) \<and> c_kill (cells w1 x) = c_kill (cells w x)" for x
    by (auto simp: reserve_monitor_notification_def split: if_splits option.splits)
  then show ?case using chan.send_InrD[OF sent_monitor(3)] by (auto simp: reaches_def)
next
  case (sent_late target pid w b n w1 i ack)
  then have "reaches queued w w1"
    by (auto simp: reserve_monitor_notification_def reaches_def split: if_splits option.splits)
  then show ?case using reaches_trans reaches_deliver by fastforce
next
  case (sent_late_custom target pid w i ack)
  then show ?case by simp (simp add: reaches_def)
qed (auto simp: request_kill_def reaches_def dest!: chan.send_InrD)

lemma send_inner_reaches: "send_inner R a sg target w = (res, w') \<Longrightarrow> reaches queued w w'"
  using send_with_answer[of a sg target w "send_died R"]
  by (auto simp: send_inner_def answered_def refused_def dest: sent_reaches)

end

text \<open>
  The peer of a dead process is told: a death notice with a reserved mailbox slot is in its queue, or its
  kill latch is set.
\<close>

definition link_notice ::
  "('q \<Rightarrow> envelope list) \<Rightarrow> addr \<Rightarrow> u64 \<Rightarrow> i64 option \<Rightarrow> death_reason \<Rightarrow> ('s, 'q) world \<Rightarrow> bool" where
  "link_notice queued b pid tag reason w \<longleftrightarrow>
     (\<exists>e \<in> set (queued (c_chan (cells w b))).
        env_signal e = SigLinkDied pid tag reason \<and> env_mailbox_permit e \<noteq> None) \<or>
     c_kill (cells w b)"

lemma link_notice_mono: "link_notice queued b pid tag reason w \<Longrightarrow> reaches queued w w' \<Longrightarrow> link_notice queued b pid tag reason w'"
  unfolding link_notice_def reaches_def by blast

lemma record_all_cells [simp]: "cells (record_all ts w) = cells w"
  by (induction ts arbitrary: w) simp_all

lemma matches_release:
  assumes "matches b i t w" "t \<noteq> rel_token r" "release_peer R m (k, r) w = (m', w')"
  shows "matches b i t w'"
proof -
  have "matches b i t (upd_cell a (\<lambda>c. c\<lparr>c_link := f c\<rparr>) w)" for a f
    using assms(1) by (auto simp: matches_def)
  moreover have "remove_if R b' i' (rel_token r) v = (q, v') \<Longrightarrow> matches b i t v \<Longrightarrow> matches b i t v'" for b' i' v q v'
    using assms(2)
    by (auto simp: remove_if_def matches_def remove_relation_def hm_get_remove split: if_splits option.splits)
  ultimately show ?thesis
    using assms(3) by (auto simp: release_peer_def Let_def split: prod.splits if_splits)
qed

lemma release_peer_notes:
  assumes "release_peer R m (k, r) w = (m', w')"
  shows "set (tm_notes m) \<subseteq> set (tm_notes m')" "tm_id m' = tm_id m"
    "c_alive (cells w' x) = c_alive (cells w x)"
    "matches (rel_peer r) (tm_id m) (rel_token r) w \<Longrightarrow> c_alive (cells w (rel_peer r)) \<Longrightarrow>
       (rel_peer r, k, rel_exit_tag r) \<in> set (tm_notes m')"
  using assms
  by (auto simp: release_peer_def Let_def remove_if_def remove_relation_def matches_def
      split: prod.splits if_splits option.splits)

lemma release_all_notes:
  "release_all R xs m w = (m', w') \<Longrightarrow> set (tm_notes m) \<subseteq> set (tm_notes m')"
proof (induction xs arbitrary: m w)
  case (Cons x xs)
  obtain m1 w1 where rp: "release_peer R m x w = (m1, w1)" by fastforce
  then show ?case
    using Cons release_peer_notes(1)[of R m "fst x" "snd x" w m1 w1] by fastforce
qed simp

lemma release_all_tells:
  "release_all R xs m w = (m', w') \<Longrightarrow> (k, r) \<in> set xs \<Longrightarrow> distinct (map (\<lambda>x. rel_token (snd x)) xs) \<Longrightarrow>
   matches (rel_peer r) (tm_id m) (rel_token r) w \<Longrightarrow> c_alive (cells w (rel_peer r)) \<Longrightarrow>
     (rel_peer r, k, rel_exit_tag r) \<in> set (tm_notes m')"
proof (induction xs arbitrary: m w)
  case (Cons x xs)
  obtain m1 w1 where rp: "release_peer R m x w = (m1, w1)" by fastforce
  then have ra: "release_all R xs m1 w1 = (m', w')" using Cons.prems(1) by simp
  obtain k1 r1 where x: "x = (k1, r1)" by (cases x)
  note rn = release_peer_notes[OF rp[unfolded x]]
  show ?case
  proof (cases "x = (k, r)")
    case True
    then have "(rel_peer r, k, rel_exit_tag r) \<in> set (tm_notes m1)" using rn(4) Cons.prems(4,5) x by simp
    then show ?thesis using release_all_notes[OF ra] by blast
  next
    case False
    then have mem: "(k, r) \<in> set xs" using Cons.prems(2) by simp
    then have "rel_token r \<noteq> rel_token r1" using Cons.prems(3) by (force simp: x)
    then have "matches (rel_peer r) (tm_id m1) (rel_token r) w1"
      using matches_release[OF Cons.prems(4) _ rp[unfolded x]] rn(2) by simp
    then show ?thesis using Cons.IH[OF ra mem] Cons.prems(3,5) rn(3) by simp
  qed
qed simp

context signal_runtime
begin

lemma deliver_link_death_reaches: "reaches queued w (deliver_link_death R b k pid tag reason w)"
proof -
  obtain res w' where s: "send_inner R b (SigLinkDied pid tag reason) (Some k) w = (res, w')" by fastforce
  have "reaches queued w' (request_kill b w')" by (simp add: request_kill_def reaches_upd)
  then show ?thesis
    using send_inner_reaches[OF s] s reaches_trans
    by (auto simp: deliver_link_death_def send_to_process_def split: sum.splits)
qed

lemma deliver_link_death_tells:
  assumes "reason = Failure \<or> reason = NoProcess"
  shows "link_notice queued b pid tag reason (deliver_link_death R b k pid tag reason w)"
proof -
  let ?sg = "SigLinkDied pid tag reason"
  obtain res w' where s: "send_inner R b ?sg (Some k) w = (res, w')" by fastforce
  show ?thesis
  proof (cases res)
    case (Inl e)
    then show ?thesis
      using s assms by (simp add: deliver_link_death_def send_to_process_def link_notice_def request_kill_def)
  next
    case (Inr u)
    then have "sent R b ?sg (Some k) w w'"
      using send_with_answer[of b ?sg "Some k" w "send_died R"] s by (simp add: send_inner_def)
    then have "link_notice queued b pid tag reason w'"
      using assms by (cases rule: sent.cases) (auto simp: link_notice_def dest!: chan.send_InrD)
    then show ?thesis using s Inr by (simp add: deliver_link_death_def send_to_process_def)
  qed
qed

lemma deliver_all_reaches: "reaches queued w (deliver_all R pid reason ns w)"
proof (induction ns arbitrary: w)
  case (Cons n ns)
  then show ?case using deliver_link_death_reaches reaches_trans by (cases n) fastforce
qed simp

lemma deliver_all_tells:
  "(b, k, tag) \<in> set ns \<Longrightarrow> reason = Failure \<or> reason = NoProcess \<Longrightarrow>
     link_notice queued b pid tag reason (deliver_all R pid reason ns w)"
proof (induction ns arbitrary: w)
  case (Cons n ns)
  show ?case
  proof (cases "n = (b, k, tag)")
    case True
    then show ?thesis
      using link_notice_mono[OF deliver_link_death_tells[OF Cons.prems(2)] deliver_all_reaches] by simp
  next
    case False
    then have "(b, k, tag) \<in> set ns" using Cons.prems(1) by auto
    then show ?thesis using Cons by (cases n) simp
  qed
qed simp

text \<open>Every link of a process is told, its counterpart is gone and all permits are back.\<close>

lemma stored_tokens_distinct:
  assumes inv: "links_inv R m" and a: "a < next_cell (lm_world m)"
  shows "distinct (map (\<lambda>x. rel_token (snd x)) (c_relations (cells (lm_world m) a)))"
proof -
  let ?xs = "c_relations (cells (lm_world m) a)"
  note ok = links_invD(1)[OF inv, unfolded ends_ok_def]
  have wf: "hm_wf ?xs" using links_invD(2)[OF inv a] by (simp add: link_cell_ok_def)
  have st: "(k, r) \<in> set ?xs \<Longrightarrow> (a, k, rel_token r, rel_peer r) \<in> stored_ends (lm_world m)" for k r
    using a wf by (auto simp: stored_ends_iff hm_get_mem)
  have "inj_on (\<lambda>x. rel_token (snd x)) (set ?xs)"
  proof (rule inj_onI, clarsimp)
    fix k r k' r'
    assume "(k, r) \<in> set ?xs" "(k', r') \<in> set ?xs" "rel_token r = rel_token r'"
    then have 1: "(a, k, rel_token r, rel_peer r) \<in> stored_ends (lm_world m)"
      and 2: "(a, k', rel_token r, rel_peer r') \<in> stored_ends (lm_world m)" using st by force+
    then have "rel_peer r' = rel_peer r"
      using ends_uniqueD[OF conjunct2[OF conjunct2[OF ok]], of a k "rel_token r" "rel_peer r" a k' "rel_peer r'"]
        ends_typedD[OF conjunct1[OF ok], of a k] by auto
    then have "k' = k"
      using ends_typedD[OF conjunct1[OF ok], of a k] ends_typedD[OF conjunct1[OF ok], of a k'] 1 2 by force
    then show "k = k' \<and> r = r'"
      using wf \<open>(k, r) \<in> set ?xs\<close> \<open>(k', r') \<in> set ?xs\<close> by (metis hm_get_mem option.inject)
  qed
  moreover have "distinct ?xs" using wf by (simp add: hm_wf_def distinct_map)
  ultimately show ?thesis by (simp add: distinct_map)
qed

lemma terminate_tells:
  assumes inv: "links_inv R m" and quiet: "lm_endings m = []" and h: "handle_ok (lm_world m) h"
    and fresh: "c_terminal (cells (lm_world m) (lh_addr h)) = None"
    and rel: "hm_get (c_relations (cells (lm_world m) (lh_addr h))) k = Some r"
    and reason: "reason = Failure \<or> reason = NoProcess"
  shows "link_notice queued (rel_peer r) (lh_id h) (rel_exit_tag r) reason (terminate R h reason (lm_world m))"
proof -
  let ?w = "lm_world m" and ?a = "lh_addr h" and ?b = "rel_peer r" and ?t = "rel_token r"
  let ?w1 = "publish_terminal_reason ?a reason ?w"
  note fr = link_frame_cells[OF publish_frame[of ?w ?a reason]]
  let ?w2 = "upd_cell ?a (\<lambda>c. c\<lparr>c_terminal := Some reason, c_relations := []\<rparr>) ?w1"
  let ?x = "\<lparr>tm_addr = ?a, tm_id = lh_id h, tm_reason = reason, tm_todo = c_relations (cells ?w ?a),
      tm_notes = [], tm_events = []\<rparr>"
  have tb: "terminate_begin h reason ?w = (Some ?x, ?w2)" using fresh fr by (simp add: terminate_begin_def Let_def)
  have a: "?a < next_cell ?w" using h by (simp add: handle_ok_def)
  have st: "(?a, k, ?t, ?b) \<in> stored_ends ?w" using a rel by (auto simp: stored_ends_iff)
  note ok = links_invD(1)[OF inv, unfolded ends_ok_def quiet pending_ends_def, simplified]
  have ne: "?b \<noteq> ?a" "?b < next_cell ?w" using ends_typedD[OF conjunct1[OF ok] st] by auto
  have mate: "(?b, lh_id h, ?t, ?a) \<in> stored_ends ?w"
    using ends_matedD[OF conjunct1[OF conjunct2[OF ok]] st] h by (simp add: handle_ok_def world_ids_def)
  then have "matches ?b (lh_id h) ?t ?w2"
    using ne by (auto simp: stored_ends_iff matches_def fr)
  moreover have "c_alive (cells ?w2 ?b)"
    using closed_not_stored[OF links_invD(2)[OF inv ne(2)]] mate ne by (auto simp: link_closed_def fr)
  moreover obtain m' w' where ra: "release_all R (tm_todo ?x) ?x ?w2 = (m', w')" by fastforce
  moreover have "(k, r) \<in> set (c_relations (cells ?w ?a))" using rel by (rule map_of_SomeD)
  ultimately have "(?b, k, rel_exit_tag r) \<in> set (tm_notes m')"
    using release_all_tells[OF ra, of k r] stored_tokens_distinct[OF inv a] by simp
  from deliver_all_tells[OF this reason, of "lh_id h" w'] show ?thesis
    using tb ra by (simp add: terminate_def finish_termination_def link_notice_def)
qed

lemma release_all_frame:
  "release_all R xs m w = (m', w') \<Longrightarrow> next_cell w' = next_cell w \<and> c_terminal (cells w' x) = c_terminal (cells w x)"
proof (induction xs arbitrary: m w)
  case (Cons y ys)
  obtain m1 w1 where rp: "release_peer R m y w = (m1, w1)" by fastforce
  then show ?case
    using Cons release_peer_effect(2)[of m "fst y" "snd y" w m1 w1 x] by auto
qed simp

lemma deliver_all_frame: "link_frame w (deliver_all R pid reason ns w)"
proof (induction ns arbitrary: w)
  case (Cons n ns)
  then show ?case using deliver_link_death_frame link_frame_trans by (cases n) fastforce
qed simp

lemma terminate_terminal:
  "next_cell (terminate R h reason w) = next_cell w"
  "c_terminal (cells (terminate R h reason w) (lh_addr h)) \<noteq> None"
proof -
  have na: "next_cell (record_all ts v) = next_cell v" for ts and v :: "('s, 'q) world"
    by (induction ts arbitrary: v) simp_all
  obtain e w' where tb: "terminate_begin h reason w = (e, w')" by fastforce
  have w': "next_cell w' = next_cell w" "c_terminal (cells w' (lh_addr h)) \<noteq> None"
    using tb by (auto simp: terminate_begin_def publish_terminal_reason_def Let_def split: if_splits)
  have fin: "next_cell (finish_termination R x w') = next_cell w' \<and>
      c_terminal (cells (finish_termination R x w') (lh_addr h)) = c_terminal (cells w' (lh_addr h))" for x
    using release_all_frame[of "tm_todo x" x w'] link_frame_cells[OF deliver_all_frame]
    by (auto simp: finish_termination_def na split: prod.splits)
  show "next_cell (terminate R h reason w) = next_cell w"
    "c_terminal (cells (terminate R h reason w) (lh_addr h)) \<noteq> None"
    using tb w' fin by (auto simp: terminate_def split: option.splits)
qed

lemma terminate_clears:
  assumes inv: "links_inv R m" and quiet: "lm_endings m = []" and h: "handle_ok (lm_world m) h"
    and w': "w' = terminate R h reason (lm_world m)"
  shows "c_relations (cells w' (lh_addr h)) = []"
    and "sem_available (rt_sem R) (c_link (cells w' (lh_addr h))) = c_capacity (cells w' (lh_addr h))"
    and "b < next_cell w' \<Longrightarrow> hm_get (c_relations (cells w' b)) k = Some r \<Longrightarrow> rel_peer r \<noteq> lh_addr h"
proof -
  have inv': "links_inv R (m\<lparr>lm_world := w'\<rparr>)" using links_inv_terminate_all[OF inv h] w' by simp
  have na: "next_cell w' = next_cell (lm_world m)" and term': "c_terminal (cells w' (lh_addr h)) \<noteq> None"
    using terminate_terminal w' by blast+
  then have "lh_addr h < next_cell w'" using h by (simp add: handle_ok_def)
  then have cell: "link_cell_ok R 0 (cells w' (lh_addr h))"
    using links_invD(2)[OF inv', of "lh_addr h"] quiet by (simp add: pending_count_def)
  have closed: "link_closed (cells w' (lh_addr h))" using term' by (simp add: link_closed_def)
  show "c_relations (cells w' (lh_addr h)) = []" using cell closed by (simp add: link_cell_ok_def)
  then show "sem_available (rt_sem R) (c_link (cells w' (lh_addr h))) = c_capacity (cells w' (lh_addr h))"
    using cell by (simp add: link_cell_ok_def)
  assume b: "b < next_cell w'" "hm_get (c_relations (cells w' b)) k = Some r"
  show "rel_peer r \<noteq> lh_addr h"
  proof
    assume eq: "rel_peer r = lh_addr h"
    have st: "(b, k, rel_token r, lh_addr h) \<in> stored_ends w'" using b eq by (auto simp: stored_ends_iff)
    then have "\<exists>i. (lh_addr h, i, rel_token r, b) \<in> stored_ends w'"
      using links_invD(1)[OF inv'] quiet unfolding ends_ok_def ends_mated_def
      by (simp add: pending_ends_def) blast
    then show False using closed_not_stored[OF cell closed] by blast
  qed
qed

end

section \<open>Properties\<close>

text \<open>
  The other side of a relation: it is stored in the peer, or a termination of the peer has taken it and
  will come to it.
\<close>

definition counterpart :: "('s, 'q) link_machine \<Rightarrow> addr \<Rightarrow> u64 \<Rightarrow> link_relation \<Rightarrow> bool" where
  "counterpart m a k r \<longleftrightarrow>
     (\<exists>i r'. c_id (cells (lm_world m) a) = Some i \<and> c_id (cells (lm_world m) (rel_peer r)) = Some k \<and>
        rel_token r' = rel_token r \<and> rel_peer r' = a \<and>
        (hm_get (c_relations (cells (lm_world m) (rel_peer r))) i = Some r' \<or>
         (\<exists>e \<in> set (lm_endings m). tm_addr e = rel_peer r \<and> (i, r') \<in> set (tm_todo e))))"

lemma links_inv_counterpart:
  assumes inv: "links_inv R m" and a: "a < next_cell (lm_world m)"
    and rel: "hm_get (c_relations (cells (lm_world m) a)) k = Some r"
  shows "counterpart m a k r"
proof -
  note ok = links_invD(1)[OF inv, unfolded ends_ok_def]
  have st: "(a, k, rel_token r, rel_peer r) \<in> stored_ends (lm_world m)" using a rel by (auto simp: stored_ends_iff)
  have k: "c_id (cells (lm_world m) (rel_peer r)) = Some k"
    using ends_typedD[OF conjunct1[OF ok]] st by (auto simp: world_ids_def)
  obtain i where i: "c_id (cells (lm_world m) a) = Some i"
    using ends_mated_id[OF conjunct1[OF conjunct2[OF ok]] st] by (auto simp: world_ids_def)
  then have "(rel_peer r, i, rel_token r, a) \<in> stored_ends (lm_world m) \<union> pending_ends (lm_endings m)"
    using ends_matedD[OF conjunct1[OF conjunct2[OF ok]] st] by (simp add: world_ids_def)
  then show ?thesis
    using i k by (auto simp: counterpart_def stored_ends_iff pending_ends_def todo_ends_def)
qed

lemma links_inv_gauge:
  assumes "links_inv R m" "lm_endings m = []"
  shows "links_alive (lm_world m) = int (card (tokens (stored_ends (lm_world m))))"
proof -
  have "counted (lm_world m) = tokens (stored_ends (lm_world m))"
    using links_invD(5)[OF assms(1)] assms(2) by (simp add: gauge_ok_def pending_ends_def event_tokens_def) blast
  then show ?thesis using links_invD(5)[OF assms(1)] by (simp add: gauge_ok_def)
qed



text \<open>Two linked processes, with identities 7 and 9.\<close>

definition sample_cell :: "(usize, envelope list_channel) cell" where
  "sample_cell = \<lparr>c_chan = \<lparr>lc_items = [], lc_bound = 4, lc_closed = False\<rparr>, c_kill = False, c_death = None,
     c_data = 3, c_link = 4, c_mon = 4, c_mailbox = mailbox_with_limits counting_semaphore 0 4 64 4,
     c_capacity = 4, c_max_bytes = 64, c_max_resources = 4, c_alive = True, c_id = None, c_terminal = None,
     c_relations = [], t_die = True, t_monitors = []\<rparr>"

definition empty_world :: "(usize, envelope list_channel) world" where
  "empty_world = \<lparr>cells = (\<lambda>_. sample_cell), next_cell = 0, next_token = 0, counted_alive = (\<lambda>_. False),
     links_alive = 0, custom_calls = [], ack_sent = []\<rparr>"

definition spawned :: "(usize, envelope list_channel) world \<Rightarrow> (usize, envelope list_channel) world" where
  "spawned w = snd (the (mailboxes_with_limits list_rt 4 4 64 4 w))"

definition two_processes :: "(usize, envelope list_channel) world" where
  "two_processes = snd (lifecycle_handle 1 9 (snd (lifecycle_handle 0 7 (spawned (spawned empty_world)))))"

definition linked_pair :: "(usize, envelope list_channel) world" where
  "linked_pair = snd (link_pair list_rt \<lparr>lh_id = 7, lh_addr = 0\<rparr> (Some 3) \<lparr>lh_id = 9, lh_addr = 1\<rparr> None two_processes)"

definition machine_at :: "(usize, envelope list_channel) world \<Rightarrow> (usize, envelope list_channel) link_machine" where
  "machine_at w = \<lparr>lm_world = w, lm_endings = [], lm_unlinks = []\<rparr>"

lemmas sample_defs = empty_world_def spawned_def two_processes_def linked_pair_def sample_cell_def
  mailboxes_with_limits_def signal_mailbox_with_limits_def list_rt_def list_channel_ops_def counting_semaphore_def
  mailbox_with_limits_def data_capacity_def lifecycle_handle_def

lemma linked_pair_relations:
  "hm_get (c_relations (cells linked_pair 0)) 9 = Some \<lparr>rel_token = 0, rel_peer = 1, rel_exit_tag = Some 3\<rparr>"
  by (simp add: sample_defs link_pair_def install_def Let_def link_refused_def record_link_created_def
      add_relation_def hm_get_insert upd_cell_def)

lemma machine_at_world: "(machine_at w)\<lparr>lm_world := w'\<rparr> = machine_at w'"
  by (simp add: machine_at_def)

lemma lm_world_machine_at [simp]: "lm_world (machine_at w) = w" "lm_endings (machine_at w) = []"
  by (simp_all add: machine_at_def)

lemma spawned_reachable:
  assumes "reachable link_start (link_step list_rt) (machine_at w)"
  shows "reachable link_start (link_step list_rt) (machine_at (spawned w))"
proof -
  have "mailboxes_with_limits list_rt 4 4 64 4 w = Some (next_cell w, spawned w)"
    by (simp add: spawned_def mailboxes_with_limits_def signal_mailbox_with_limits_def Let_def)
  then show ?thesis
    using reach_step[OF assms ls_spawn[of list_rt 4 4 64 4 "machine_at w"]] by (simp add: machine_at_world)
qed

lemma handle_reachable:
  "reachable link_start (link_step list_rt) (machine_at w) \<Longrightarrow> a < next_cell w \<Longrightarrow>
     reachable link_start (link_step list_rt) (machine_at (snd (lifecycle_handle a i w)))"
  using ls_handle[of a "machine_at w" i "fst (lifecycle_handle a i w)" "snd (lifecycle_handle a i w)" list_rt]
  by (simp add: machine_at_world reach_step)

lemma two_processes_cells:
  "next_cell two_processes = 2" "handle_ok two_processes \<lparr>lh_id = 7, lh_addr = 0\<rparr>"
  "handle_ok two_processes \<lparr>lh_id = 9, lh_addr = 1\<rparr>"
  by (simp_all add: sample_defs handle_ok_def)

lemma linked_pair_reachable: "reachable link_start (link_step list_rt) (machine_at linked_pair)"
proof -
  have "reachable link_start (link_step list_rt) (machine_at empty_world)"
    by (rule reach_start) (simp add: link_start_def machine_at_def empty_world_def)
  then have "reachable link_start (link_step list_rt) (machine_at (spawned (spawned empty_world)))"
    by (intro spawned_reachable)
  then have "reachable link_start (link_step list_rt) (machine_at two_processes)"
    unfolding two_processes_def by (intro handle_reachable) (simp_all add: sample_defs)
  from reach_step[OF this ls_link] show ?thesis
    using two_processes_cells
    by (metis linked_pair_def lm_world_machine_at(1) machine_at_world prod.collapse)
qed

lemma linked_pair_cells:
  "next_cell linked_pair = 2" "handle_ok linked_pair \<lparr>lh_id = 7, lh_addr = 0\<rparr>"
  "c_terminal (cells linked_pair 0) = None" "links_alive linked_pair = 1"
  by (simp_all add: sample_defs handle_ok_def link_pair_def install_def Let_def link_refused_def
      record_link_created_def add_relation_def upd_cell_def)



end
