(* ===== verification/Process_Loop.thy ===== *)
theory Process_Loop
  imports Process_Reload Links
begin

text \<open>
  \<open>lunatic-process/src/lib.rs\<close>, the execution loop of a process: \<open>run_native_process\<close> and \<open>new\<close> with the
  monitor relations, the shutdown of the signal ingress and the notices to monitors.  The two loops treat
  every signal alike except reload and rollback, which a native process refuses and a Wasm process
  hands to its execution driver.

  A panic (a failing \<open>expect\<close>) is \<open>None\<close>.  The guest's future is a parameter: whether it is ready when
  it is polled, and with what.
\<close>

section \<open>Monitor relations\<close>

text \<open>An entry of \<open>MonitorRelations\<close> owns a monitor permit and the reservation of its notice.\<close>

definition drop_monitor_entry ::
  "('s, 'q) signal_rt \<Rightarrow> addr \<Rightarrow> process_ref \<times> monitor_notification option \<Rightarrow> ('s, 'q) world \<Rightarrow> ('s, 'q) world" where
  "drop_monitor_entry R a en w = drop_notification R (snd en) (drop_monitor_permit R a True w)"

definition insert_monitor ::
  "('s, 'q) signal_rt \<Rightarrow> addr \<Rightarrow> process_ref \<Rightarrow> monitor_notification option \<Rightarrow> ('s, 'q) world \<Rightarrow> ('s, 'q) world" where
  "insert_monitor R a obs n w =
     (let k = process_ref_id obs;
          w1 = upd_cell a (\<lambda>c. c\<lparr>t_monitors := hm_insert k (obs, n) (t_monitors c)\<rparr>) w in
      case hm_get (t_monitors (cells w a)) k of
        None \<Rightarrow> w1
      | Some old \<Rightarrow> drop_monitor_entry R a old w1)"

definition remove_monitor :: "('s, 'q) signal_rt \<Rightarrow> addr \<Rightarrow> u64 \<Rightarrow> ('s, 'q) world \<Rightarrow> ('s, 'q) world" where
  "remove_monitor R a k w =
     (case hm_get (t_monitors (cells w a)) k of
        None \<Rightarrow> w
      | Some old \<Rightarrow>
          drop_monitor_entry R a old (upd_cell a (\<lambda>c. c\<lparr>t_monitors := hm_remove k (t_monitors c)\<rparr>) w))"

definition admit_monitor ::
  "('s, 'q) signal_rt \<Rightarrow> addr \<Rightarrow> process_ref \<Rightarrow> nat option \<Rightarrow> bool \<Rightarrow> monitor_notification option \<Rightarrow> ('s, 'q) world \<Rightarrow>
    ('s, 'q) world option" where
  "admit_monitor R a obs ack permit n w =
     (if permit then Some (acknowledge ack (insert_monitor R a obs n w)) else None)"

section \<open>Handling one signal\<close>

datatype loop_control = LoopContinue | LoopKilled

text \<open>\<open>push_with_permit(..).expect(..)\<close> on the own mailbox.\<close>

definition push_reserved ::
  "addr \<Rightarrow> message \<Rightarrow> mailbox_permit option \<Rightarrow> ('s, 'q) world \<Rightarrow> ('s, 'q) world option" where
  "push_reserved a msg p w =
     (case p of
        None \<Rightarrow> None
      | Some permit \<Rightarrow>
          (case push_with_permit msg permit (c_mailbox (cells w a)) of
             (Inr _, mb) \<Rightarrow> Some (upd_cell a (\<lambda>c. c\<lparr>c_mailbox := mb\<rparr>) w)
           | (Inl _, _) \<Rightarrow> None))"

definition continue_with :: "('s, 'q) world option \<Rightarrow> (loop_control \<times> ('s, 'q) world) option" where
  "continue_with r = map_option (Pair LoopContinue) r"

text \<open>What is left of an envelope after \<open>into_process_parts\<close> is dropped at the end of the arm.\<close>

definition drop_parts :: "('s, 'q) signal_rt \<Rightarrow> addr \<Rightarrow> envelope \<Rightarrow> ('s, 'q) world \<Rightarrow> ('s, 'q) world" where
  "drop_parts R a e = drop_envelope R a (e\<lparr>env_data_permit := False\<rparr>)"

definition handle_signal ::
  "('s, 'q) signal_rt \<Rightarrow> process_lifecycle_handle \<Rightarrow> envelope \<Rightarrow> ('s, 'q) world \<Rightarrow> (loop_control \<times> ('s, 'q) world) option" where
  "handle_signal R h e w =
     (let a = lh_addr h; p = env_mailbox_permit e; w0 = drop_data_permit R a (env_data_permit e) w in
      case env_signal e of
        SigMessage msg \<Rightarrow> continue_with (push_reserved a msg p w0)
      | SigDieWhenLinkDies b \<Rightarrow> continue_with (Some (drop_parts R a e (upd_cell a (\<lambda>c. c\<lparr>t_die := b\<rparr>) w0)))
      | SigLink _ _ \<Rightarrow> continue_with (Some (drop_parts R a e w0))
      | SigUnLink _ \<Rightarrow> continue_with (Some (drop_parts R a e w0))
      | SigLinkDied pid tag reason \<Rightarrow>
          (let w1 = snd (unlink_peer R h pid w0) in
           if reason = Failure \<or> reason = NoProcess then
             (if t_die (cells w1 a) then Some (LoopKilled, drop_parts R a e w1)
              else continue_with (push_reserved a (LinkDied tag) p w1))
           else continue_with (Some (drop_parts R a e w1)))
      | SigMonitor obs ack \<Rightarrow>
          continue_with (map_option (drop_mailbox_permit R a p)
            (admit_monitor R a obs ack (env_monitor_permit e) (env_notification e) w0))
      | SigStopMonitoring pid \<Rightarrow> continue_with (Some (drop_parts R a e (remove_monitor R a pid w0)))
      | SigProcessDied pid reason \<Rightarrow> continue_with (push_reserved a (ProcessDied pid reason) p w0)
      | SigKill \<Rightarrow> Some (LoopKilled, drop_parts R a e w0)
      | SigHotReload _ _ _ _ \<Rightarrow> continue_with (Some (drop_parts R a e w0))
      | SigRollback _ _ _ _ \<Rightarrow> continue_with (Some (drop_parts R a e w0)))"

section \<open>Reload signals\<close>

text \<open>The part of \<open>ProcessContext\<close> the loop uses: the tracked versions and the command queue.\<close>

record 'r reload_context =
  rx_tracking :: version_tracking
  rx_queue :: 'r

definition reload_queue_capacity :: usize where
  "reload_queue_capacity = 16"

fun native_reload_signal :: "u64 \<Rightarrow> signal \<Rightarrow> reload_acknowledgement option" where
  "native_reload_signal pid (SigHotReload i _ _ ack) =
     acknowledge_reload ack pid i 0 0
       (ReloadStatusFailed (OtherFailure ''Hot reload is not supported for native processes''))"
| "native_reload_signal pid (SigRollback i _ _ ack) =
     acknowledge_reload ack pid i 0 0
       (ReloadStatusFailed (OtherFailure ''Rollback is not supported for native processes''))"
| "native_reload_signal pid _ = None"

definition queue_reload ::
  "('r, reload_command) channel_ops \<Rightarrow> u64 \<Rightarrow> u64 \<Rightarrow> reload_command \<Rightarrow> bool \<Rightarrow> string \<Rightarrow> 'r reload_context option \<Rightarrow>
    reload_acknowledgement option \<times> 'r reload_context option" where
  "queue_reload Q pid i cmd ack failure ctx =
     (case ctx of
        None \<Rightarrow> (acknowledge_reload ack pid i 0 0
                  (ReloadStatusFailed (OtherFailure ''Process has no Wasm reload context'')), None)
      | Some c \<Rightarrow>
          (case current_version i (rx_tracking c) of
             None \<Rightarrow> (acknowledge_reload ack pid i 0 0 (ReloadStatusFailed (NotRunningModule i)), Some c)
           | Some v \<Rightarrow>
               (case ch_try_send Q (rx_queue c) cmd of
                  Inr q \<Rightarrow> (None, Some (c\<lparr>rx_queue := q\<rparr>))
                | Inl _ \<Rightarrow> (acknowledge_reload ack pid i v v (ReloadStatusFailed (OtherFailure failure)), Some c))))"

fun wasm_reload_signal ::
  "('r, reload_command) channel_ops \<Rightarrow> u64 \<Rightarrow> signal \<Rightarrow> 'r reload_context option \<Rightarrow>
    reload_acknowledgement option \<times> 'r reload_context option" where
  "wasm_reload_signal Q pid (SigHotReload i expected new ack) ctx =
     queue_reload Q pid i (HotReloadCommand i expected new ack) ack ''Failed to queue Wasm reload command'' ctx"
| "wasm_reload_signal Q pid (SigRollback i expected target ack) ctx =
     queue_reload Q pid i (RollbackCommand i expected target ack) ack ''Failed to queue Wasm rollback command'' ctx"
| "wasm_reload_signal Q pid _ ctx = (None, ctx)"

section \<open>The loop\<close>

datatype finished = FinishedNormal | FinishedFailure | FinishedPanicked | FinishedKilled

definition death_of :: "finished \<Rightarrow> death_reason" where
  "death_of f = (if f = FinishedNormal then Normal else Failure)"

text \<open>
  One round of the biased \<open>select!\<close>: the signal queue first, then the guest.  The state is \<open>has_sender\<close>
  and the world; \<open>guest\<close> is what polling the guest's future gives.  The second result is the signal
  handled, for the reload arm.
\<close>

definition loop_round ::
  "('s, 'q) signal_rt \<Rightarrow> process_lifecycle_handle \<Rightarrow> finished option \<Rightarrow> bool \<times> ('s, 'q) world \<Rightarrow>
    (finished option \<times> signal option \<times> bool \<times> ('s, 'q) world) option" where
  "loop_round R h guest s =
     (case s of (has_sender, w) \<Rightarrow>
      if has_sender then
        (case recv_poll R (lh_addr h) w of
           (Some (Some e), w1) \<Rightarrow>
             (case handle_signal R h e w1 of
                None \<Rightarrow> None
              | Some (LoopContinue, w2) \<Rightarrow> Some (None, Some (env_signal e), True, w2)
              | Some (LoopKilled, w2) \<Rightarrow> Some (Some FinishedKilled, Some (env_signal e), True, w2))
         | (Some None, w1) \<Rightarrow> Some (None, None, False, w1)
         | (None, w1) \<Rightarrow> Some (guest, None, True, w1))
      else Some (guest, None, False, w))"

section \<open>The end of a process\<close>

definition drain_one ::
  "('s, 'q) signal_rt \<Rightarrow> addr \<Rightarrow> envelope \<Rightarrow> ('s, 'q) world \<Rightarrow> ('s, 'q) world option" where
  "drain_one R a e w =
     (let w1 = drop_mailbox_permit R a (env_mailbox_permit e) (drop_data_permit R a (env_data_permit e) w);
          e1 = e\<lparr>env_mailbox_permit := None, env_data_permit := False\<rparr> in
      case env_signal e of
        SigMonitor obs ack \<Rightarrow> admit_monitor R a obs ack (env_monitor_permit e) (env_notification e) w1
      | SigStopMonitoring pid \<Rightarrow> Some (drop_envelope R a e1 (remove_monitor R a pid w1))
      | _ \<Rightarrow> Some (drop_envelope R a e1 w1))"

partial_function (option) drain_ingress ::
  "('s, 'q) signal_rt \<Rightarrow> addr \<Rightarrow> ('s, 'q) world \<Rightarrow> ('s, 'q) world option" where
  "drain_ingress R a w =
     (case try_recv R a w of
        None \<Rightarrow> Some w
      | Some (e, w1) \<Rightarrow> Option.bind (drain_one R a e w1) (drain_ingress R a))"

definition close_signal_ingress ::
  "('s, 'q) signal_rt \<Rightarrow> addr \<Rightarrow> death_reason \<Rightarrow> ('s, 'q) world \<Rightarrow> ('s, 'q) world option" where
  "close_signal_ingress R a reason w = drain_ingress R a (close_with_reason R a reason w)"

text \<open>The loop over the monitors; each entry's permit goes with its turn.\<close>

fun notify_monitors ::
  "('s, 'q) signal_rt \<Rightarrow> addr \<Rightarrow> u64 \<Rightarrow> death_reason \<Rightarrow> (u64 \<times> process_ref \<times> monitor_notification option) list \<Rightarrow>
    ('s, 'q) world \<Rightarrow> ('s, 'q) world" where
  "notify_monitors R a pid reason [] w = w"
| "notify_monitors R a pid reason ((_, obs, n) # ms) w =
     notify_monitors R a pid reason ms
       (drop_monitor_permit R a True
         (case n of
            Some m \<Rightarrow> deliver_notification R m pid reason w
          | None \<Rightarrow> snd (process_send R obs (SigProcessDied pid reason) w)))"

text \<open>
  The end of both loops, after the guest's future is dropped and the process has left its environment:
  the ingress is closed and drained, the links are told, then the monitors.
\<close>

definition finish_process ::
  "('s, 'q) signal_rt \<Rightarrow> process_lifecycle_handle \<Rightarrow> finished \<Rightarrow> ('s, 'q) world \<Rightarrow> ('s, 'q) world option" where
  "finish_process R h f w =
     (let a = lh_addr h; reason = death_of f in
      map_option (\<lambda>w1.
        let w2 = terminate R h reason w1
        in notify_monitors R a (lh_id h) reason (t_monitors (cells w2 a)) (upd_cell a (\<lambda>c. c\<lparr>t_monitors := []\<rparr>) w2))
       (close_signal_ingress R a reason w))"

end
