(* ===== verification/Signal_Accounting.thy ===== *)
theory Signal_Accounting
  imports Process_Loop
begin

text \<open>
  The resources that signals and monitors hold, over all processes: every slot of a mailbox is free, used
  by a message, or held by exactly one queued signal or monitor relation; every data and monitor permit
  is held by a queued signal or a relation.  All operations of the signal layer keep this, which is why
  none of the loop's \<open>expect\<close>s can fail and why every monitor of a process is told of its death.
\<close>

section \<open>Who holds what\<close>

definition notes_for :: "addr \<Rightarrow> monitor_notification option \<Rightarrow> nat" where
  "notes_for b n = (case n of None \<Rightarrow> 0 | Some m \<Rightarrow> if mn_addr m = b then 1 else 0)"

text \<open>Mailbox slots of \<open>b\<close> held by an envelope queued at \<open>a\<close>, and by everything at \<open>a\<close>.\<close>

definition env_held :: "addr \<Rightarrow> envelope \<Rightarrow> addr \<Rightarrow> nat" where
  "env_held a e b = (if a = b \<and> env_mailbox_permit e \<noteq> None then 1 else 0) + notes_for b (env_notification e)"

definition cell_held :: "('q \<Rightarrow> envelope list) \<Rightarrow> addr \<Rightarrow> ('s, 'q) cell \<Rightarrow> addr \<Rightarrow> nat" where
  "cell_held queued a c b =
     sum_list (map (\<lambda>e. env_held a e b) (queued (c_chan c))) + hm_total (\<lambda>en. notes_for b (snd en)) (t_monitors c)"

definition outstanding :: "('q \<Rightarrow> envelope list) \<Rightarrow> ('s, 'q) world \<Rightarrow> addr \<Rightarrow> nat" where
  "outstanding queued w b = (\<Sum>x<next_cell w. cell_held queued x (cells w x) b)"

definition count_true :: "('a \<Rightarrow> bool) \<Rightarrow> 'a list \<Rightarrow> nat" where
  "count_true p xs = length (filter p xs)"

section \<open>The invariant\<close>

text \<open>A built-in observer has a slot reserved, one from outside has none.\<close>

definition note_ok :: "addr \<Rightarrow> process_ref \<Rightarrow> monitor_notification option \<Rightarrow> bool" where
  "note_ok n obs nt =
     (case obs of
        BuiltIn i b \<Rightarrow> b < n \<and> nt = Some \<lparr>mn_addr = b, mn_permit = \<lparr>permit_semaphore = b\<rparr>\<rparr>
      | Custom i \<Rightarrow> nt = None)"

definition envelope_ok :: "addr \<Rightarrow> addr \<Rightarrow> 's mailbox \<Rightarrow> envelope \<Rightarrow> bool" where
  "envelope_ok n a mb e \<longleftrightarrow>
     env_mailbox_permit e =
       (if reserves_mailbox_capacity (env_signal e) then Some \<lparr>permit_semaphore = a\<rparr> else None) \<and>
     env_data_permit e = reserves_mailbox_capacity (env_signal e) \<and>
     (case env_signal e of
        SigMonitor obs _ \<Rightarrow> env_monitor_permit e \<and> note_ok n obs (env_notification e)
      | SigMessage msg \<Rightarrow> mb_limit_violation mb msg = None \<and> \<not> env_monitor_permit e \<and> env_notification e = None
      | _ \<Rightarrow> \<not> env_monitor_permit e \<and> env_notification e = None)"

definition monitors_ok :: "addr \<Rightarrow> (u64, process_ref \<times> monitor_notification option) hmap \<Rightarrow> bool" where
  "monitors_ok n ms \<longleftrightarrow> hm_wf ms \<and> (\<forall>k obs nt. (k, obs, nt) \<in> set ms \<longrightarrow> process_ref_id obs = k \<and> note_ok n obs nt)"

text \<open>\<open>out\<close>, \<open>dat\<close> and \<open>mon\<close> are the mailbox slots, data and monitor permits held outside this cell's state.\<close>

definition cell_inv ::
  "('s, 'q) signal_rt \<Rightarrow> ('q \<Rightarrow> envelope list) \<Rightarrow> ('q \<Rightarrow> usize) \<Rightarrow> addr \<Rightarrow> addr \<Rightarrow> nat \<Rightarrow> nat \<Rightarrow> nat \<Rightarrow> ('s, 'q) cell \<Rightarrow> bool" where
  "cell_inv R queued bound n a out dat mon c \<longleftrightarrow>
     admission_addr (c_mailbox c) = a \<and>
     c_max_bytes c = mb_max_bytes (c_mailbox c) \<and> c_max_resources c = mb_max_resources (c_mailbox c) \<and>
     mailbox_inv (rt_sem R) out (c_mailbox c) \<and>
     0 < c_capacity c \<and> bound (c_chan c) = c_capacity c \<and> length (queued (c_chan c)) \<le> c_capacity c \<and>
     (\<forall>e \<in> set (queued (c_chan c)). envelope_ok n a (c_mailbox c) e) \<and> monitors_ok n (t_monitors c) \<and>
     sem_available (rt_sem R) (c_data c) + count_true env_data_permit (queued (c_chan c)) + dat = data_capacity (c_capacity c) \<and>
     sem_available (rt_sem R) (c_mon c) + count_true env_monitor_permit (queued (c_chan c)) + length (t_monitors c) + mon = c_capacity c"

text \<open>\<open>ex\<close>, \<open>exd\<close> and \<open>exm\<close> are the permits held by an operation in progress.\<close>

definition signals_inv ::
  "('s, 'q) signal_rt \<Rightarrow> ('q \<Rightarrow> envelope list) \<Rightarrow> ('q \<Rightarrow> usize) \<Rightarrow> (addr \<Rightarrow> nat) \<Rightarrow> (addr \<Rightarrow> nat) \<Rightarrow> (addr \<Rightarrow> nat) \<Rightarrow>
    ('s, 'q) world \<Rightarrow> bool" where
  "signals_inv R queued bound ex exd exm w \<longleftrightarrow>
     (\<forall>a<next_cell w.
        cell_inv R queued bound (next_cell w) a (outstanding queued w a + ex a) (exd a) (exm a) (cells w a))"

abbreviation none_held :: "addr \<Rightarrow> nat" where
  "none_held \<equiv> (\<lambda>_. 0)"

section \<open>Sums over cells\<close>

lemma sum_upd:
  fixes f :: "nat \<Rightarrow> nat"
  shows "a < n \<Longrightarrow> (\<Sum>x<n. if x = a then v else f x) + f a = (\<Sum>x<n. f x) + v"
  by (simp add: sum.remove[of "{..<n}" a])

lemma outstanding_upd:
  assumes "a < next_cell w"
  shows "outstanding queued (upd_cell a f w) b + cell_held queued a (cells w a) b =
    outstanding queued w b + cell_held queued a (f (cells w a)) b"
proof -
  have "outstanding queued (upd_cell a f w) b =
      (\<Sum>x<next_cell w. if x = a then cell_held queued a (f (cells w a)) b else cell_held queued x (cells w x) b)"
    unfolding outstanding_def by (rule sum.cong) auto
  then show ?thesis
    using sum_upd[OF assms, of "cell_held queued a (f (cells w a)) b" "\<lambda>x. cell_held queued x (cells w x) b"]
    by (simp add: outstanding_def)
qed

lemma outstanding_same:
  assumes "\<And>x. cell_held queued x (cells w' x) b = cell_held queued x (cells w x) b" "next_cell w' = next_cell w"
  shows "outstanding queued w' b = outstanding queued w b"
  unfolding outstanding_def assms(2) by (rule sum.cong) (simp_all add: assms(1))

definition one_at :: "addr \<Rightarrow> addr \<Rightarrow> nat" where
  "one_at a b = (if b = a then 1 else 0)"

lemma one_at_simps [simp]: "one_at a a = 1" "b \<noteq> a \<Longrightarrow> one_at a b = 0"
  by (simp_all add: one_at_def)

lemma signals_invD:
  "signals_inv R queued bound ex exd exm w \<Longrightarrow> a < next_cell w \<Longrightarrow>
     cell_inv R queued bound (next_cell w) a (outstanding queued w a + ex a) (exd a) (exm a) (cells w a)"
  by (simp add: signals_inv_def)

text \<open>
  The rule for an update of one cell: elsewhere the balance stays, and in the cell itself the invariant
  holds with the new balance.
\<close>

lemma signals_inv_upd:
  assumes inv: "signals_inv R queued bound ex exd exm w" and a: "a < next_cell w"
    and held: "\<And>b. b \<noteq> a \<Longrightarrow> cell_held queued a (f (cells w a)) b + ex' b = cell_held queued a (cells w a) b + ex b"
    and other: "\<And>b. b \<noteq> a \<Longrightarrow> exd' b = exd b \<and> exm' b = exm b"
    and cell: "\<And>out out'. cell_inv R queued bound (next_cell w) a out (exd a) (exm a) (cells w a) \<Longrightarrow>
       out' + cell_held queued a (cells w a) a + ex a = out + cell_held queued a (f (cells w a)) a + ex' a \<Longrightarrow>
       cell_inv R queued bound (next_cell w) a out' (exd' a) (exm' a) (f (cells w a))"
  shows "signals_inv R queued bound ex' exd' exm' (upd_cell a f w)"
  unfolding signals_inv_def
proof (intro allI impI)
  fix x
  assume x: "x < next_cell (upd_cell a f w)"
  note ou = outstanding_upd[OF a, of queued f]
  show "cell_inv R queued bound (next_cell (upd_cell a f w)) x (outstanding queued (upd_cell a f w) x + ex' x)
      (exd' x) (exm' x) (cells (upd_cell a f w) x)"
  proof (cases "x = a")
    case True
    then show ?thesis
      using cell[OF signals_invD[OF inv a], of "outstanding queued (upd_cell a f w) a + ex' a"] ou[of a] by simp
  next
    case False
    have "outstanding queued (upd_cell a f w) x + ex' x = outstanding queued w x + ex x"
      using ou[of x] held[OF False] by simp
    then show ?thesis using signals_invD[OF inv, of x] x other[OF False] False by simp
  qed
qed

lemma envelope_ok_mailbox:
  assumes "mb_max_bytes mb' = mb_max_bytes mb" "mb_max_resources mb' = mb_max_resources mb"
  shows "envelope_ok n a mb' e = envelope_ok n a mb e"
proof -
  have eq: "mb_limit_violation mb' = mb_limit_violation mb"
    by (simp add: mb_limit_violation_def fun_eq_iff assms Let_def split: message.split)
  show ?thesis unfolding envelope_ok_def eq by (rule refl)
qed

lemma drop_permit_limits [simp]:
  "mb_max_bytes (drop_permit S mb) = mb_max_bytes mb" "mb_max_resources (drop_permit S mb) = mb_max_resources mb"
  "admission_addr (drop_permit S mb) = admission_addr mb"
  by (simp_all add: drop_permit_def)

lemma push_with_permit_limits:
  "push_with_permit msg p mb = (res, mb') \<Longrightarrow>
     mb_max_bytes mb' = mb_max_bytes mb \<and> mb_max_resources mb' = mb_max_resources mb \<and> admission_addr mb' = admission_addr mb"
  by (auto simp: push_with_permit_def Let_def split: if_splits option.splits limit_violation.splits)

lemma try_reserve_limits:
  "try_reserve S mb = Some (p, mb') \<Longrightarrow>
     mb_max_bytes mb' = mb_max_bytes mb \<and> mb_max_resources mb' = mb_max_resources mb \<and>
     admission_addr mb' = admission_addr mb \<and> p = \<lparr>permit_semaphore = admission_addr mb\<rparr>"
  by (auto simp: try_reserve_def split: option.splits)

text \<open>An update of the mailbox alone.\<close>

lemma cell_inv_mailbox:
  assumes "cell_inv R queued bound n a out dat mon c" "mailbox_inv (rt_sem R) out' mb"
    "mb_max_bytes mb = mb_max_bytes (c_mailbox c)" "mb_max_resources mb = mb_max_resources (c_mailbox c)"
    "admission_addr mb = admission_addr (c_mailbox c)"
  shows "cell_inv R queued bound n a out' dat mon (c\<lparr>c_mailbox := mb\<rparr>)"
  using assms by (simp add: cell_inv_def envelope_ok_mailbox[of mb "c_mailbox c"])

lemma cell_held_frame [simp]:
  "cell_held queued a (c\<lparr>c_mailbox := mb\<rparr>) b = cell_held queued a c b"
  "cell_held queued a (c\<lparr>c_data := s\<rparr>) b = cell_held queued a c b"
  "cell_held queued a (c\<lparr>c_mon := s\<rparr>) b = cell_held queued a c b"
  "cell_held queued a (c\<lparr>c_link := s\<rparr>) b = cell_held queued a c b"
  "cell_held queued a (c\<lparr>c_kill := k\<rparr>) b = cell_held queued a c b"
  "cell_held queued a (c\<lparr>c_death := d\<rparr>) b = cell_held queued a c b"
  "cell_held queued a (c\<lparr>t_die := k\<rparr>) b = cell_held queued a c b"
  by (simp_all add: cell_held_def)

context signal_runtime
begin

lemma inv_mailbox:
  assumes inv: "signals_inv R queued bound ex exd exm w" and a: "a < next_cell w"
    and ex: "\<And>b. b \<noteq> a \<Longrightarrow> ex' b = ex b"
    and mb: "\<And>out out'. mailbox_inv (rt_sem R) out (c_mailbox (cells w a)) \<Longrightarrow> out' + ex a = out + ex' a \<Longrightarrow>
       mailbox_inv (rt_sem R) out' mb"
    and lim: "mb_max_bytes mb = mb_max_bytes (c_mailbox (cells w a))"
      "mb_max_resources mb = mb_max_resources (c_mailbox (cells w a))"
      "admission_addr mb = admission_addr (c_mailbox (cells w a))"
  shows "signals_inv R queued bound ex' exd exm (upd_cell a (\<lambda>c. c\<lparr>c_mailbox := mb\<rparr>) w)"
proof (rule signals_inv_upd[OF inv a])
  fix out out'
  assume c: "cell_inv R queued bound (next_cell w) a out (exd a) (exm a) (cells w a)"
    and e: "out' + cell_held queued a (cells w a) a + ex a =
      out + cell_held queued a ((cells w a)\<lparr>c_mailbox := mb\<rparr>) a + ex' a"
  have "mailbox_inv (rt_sem R) out' mb" by (rule mb) (use c e in \<open>auto simp: cell_inv_def\<close>)
  then show "cell_inv R queued bound (next_cell w) a out' (exd a) (exm a) ((cells w a)\<lparr>c_mailbox := mb\<rparr>)"
    by (rule cell_inv_mailbox[OF c _ lim])
qed (simp_all add: ex)

lemma inv_drop_slot:
  assumes "signals_inv R queued bound (\<lambda>b. ex b + one_at a b) exd exm w" "a < next_cell w"
  shows "signals_inv R queued bound ex exd exm
    (upd_cell a (\<lambda>c. c\<lparr>c_mailbox := drop_permit (rt_sem R) (c_mailbox c)\<rparr>) w)"
proof -
  have "signals_inv R queued bound ex exd exm
    (upd_cell a (\<lambda>c. c\<lparr>c_mailbox := drop_permit (rt_sem R) (c_mailbox (cells w a))\<rparr>) w)"
    by (rule inv_mailbox[OF assms]) (auto intro: sem.drop_permit_inv)
  then show ?thesis by (simp add: upd_cell_def)
qed

lemma inv_push:
  assumes "signals_inv R queued bound (\<lambda>b. ex b + one_at a b) exd exm w" "a < next_cell w"
    "push_with_permit msg p (c_mailbox (cells w a)) = (Inr u, mb)"
  shows "signals_inv R queued bound ex exd exm (upd_cell a (\<lambda>c. c\<lparr>c_mailbox := mb\<rparr>) w)"
  by (rule inv_mailbox[OF assms(1,2)]) (use push_with_permit_limits[OF assms(3)] assms(3) in
      \<open>auto intro: sem.push_with_permit_inv\<close>)

lemma inv_reserve:
  assumes "signals_inv R queued bound ex exd exm w" "a < next_cell w"
    "try_reserve (rt_sem R) (c_mailbox (cells w a)) = Some (p, mb)"
  shows "signals_inv R queued bound (\<lambda>b. ex b + one_at a b) exd exm (upd_cell a (\<lambda>c. c\<lparr>c_mailbox := mb\<rparr>) w)"
  by (rule inv_mailbox[OF assms(1,2)]) (use try_reserve_limits[OF assms(3)] assms(3) in
      \<open>auto dest: sem.try_reserve_inv\<close>)

lemma inv_drop_data:
  assumes inv: "signals_inv R queued bound ex (\<lambda>b. exd b + one_at a b) exm w" and a: "a < next_cell w"
  shows "signals_inv R queued bound ex exd exm
    (upd_cell a (\<lambda>c. c\<lparr>c_data := sem_release (rt_sem R) (c_data c)\<rparr>) w)"
  by (rule signals_inv_upd[OF inv a]) (auto simp: cell_inv_def)

lemma inv_drop_mon:
  assumes inv: "signals_inv R queued bound ex exd (\<lambda>b. exm b + one_at a b) w" and a: "a < next_cell w"
  shows "signals_inv R queued bound ex exd exm
    (upd_cell a (\<lambda>c. c\<lparr>c_mon := sem_release (rt_sem R) (c_mon c)\<rparr>) w)"
  by (rule signals_inv_upd[OF inv a]) (auto simp: cell_inv_def)

lemma inv_acquire_data:
  assumes inv: "signals_inv R queued bound ex exd exm w" and a: "a < next_cell w"
    and s: "sem_try_acquire (rt_sem R) (c_data (cells w a)) = Some s"
  shows "signals_inv R queued bound ex (\<lambda>b. exd b + one_at a b) exm (upd_cell a (\<lambda>c. c\<lparr>c_data := s\<rparr>) w)"
  by (rule signals_inv_upd[OF inv a]) (use sem.acquire_available[OF s] in \<open>auto simp: cell_inv_def\<close>)

lemma inv_acquire_mon:
  assumes inv: "signals_inv R queued bound ex exd exm w" and a: "a < next_cell w"
    and s: "sem_try_acquire (rt_sem R) (c_mon (cells w a)) = Some s"
  shows "signals_inv R queued bound ex exd (\<lambda>b. exm b + one_at a b) (upd_cell a (\<lambda>c. c\<lparr>c_mon := s\<rparr>) w)"
  by (rule signals_inv_upd[OF inv a]) (use sem.acquire_available[OF s] in \<open>auto simp: cell_inv_def\<close>)

text \<open>Queueing an envelope hands over what it holds, taking it out gives it back.\<close>

lemma inv_enqueue:
  assumes inv: "signals_inv R queued bound (\<lambda>b. ex b + env_held a e b) (\<lambda>b. exd b + (if env_data_permit e then one_at a b else 0))
      (\<lambda>b. exm b + (if env_monitor_permit e then one_at a b else 0)) w" and a: "a < next_cell w"
    and ok: "envelope_ok (next_cell w) a (c_mailbox (cells w a)) e"
    and q: "ch_try_send (rt_chan R) (c_chan (cells w a)) e = Inr q"
  shows "signals_inv R queued bound ex exd exm (upd_cell a (\<lambda>c. c\<lparr>c_chan := q\<rparr>) w)"
proof (rule signals_inv_upd[OF inv a])
  note s = chan.send_InrD[OF q]
  have h: "cell_held queued a ((cells w a)\<lparr>c_chan := q\<rparr>) b = cell_held queued a (cells w a) b + env_held a e b" for b
    using s by (simp add: cell_held_def)
  then show "cell_held queued a ((cells w a)\<lparr>c_chan := q\<rparr>) b + ex b = cell_held queued a (cells w a) b + (ex b + env_held a e b)" for b
    by simp
  fix out out'
  assume c: "cell_inv R queued bound (next_cell w) a out (exd a + (if env_data_permit e then one_at a a else 0))
      (exm a + (if env_monitor_permit e then one_at a a else 0)) (cells w a)"
    and e: "out' + cell_held queued a (cells w a) a + (ex a + env_held a e a) =
      out + cell_held queued a ((cells w a)\<lparr>c_chan := q\<rparr>) a + ex a"
  have "out' = out" using e h[of a] by simp
  then show "cell_inv R queued bound (next_cell w) a out' (exd a) (exm a) ((cells w a)\<lparr>c_chan := q\<rparr>)"
    using c s ok by (auto simp: cell_inv_def count_true_def split: if_splits)
qed (simp add: one_at_def)

lemma inv_dequeue:
  assumes inv: "signals_inv R queued bound ex exd exm w" and a: "a < next_cell w"
    and q: "ch_try_recv (rt_chan R) (c_chan (cells w a)) = Some (e, q)"
  shows "signals_inv R queued bound (\<lambda>b. ex b + env_held a e b) (\<lambda>b. exd b + (if env_data_permit e then one_at a b else 0))
      (\<lambda>b. exm b + (if env_monitor_permit e then one_at a b else 0)) (upd_cell a (\<lambda>c. c\<lparr>c_chan := q\<rparr>) w)"
    and "envelope_ok (next_cell w) a (c_mailbox (cells w a)) e"
proof -
  note s = chan.recv_SomeD[OF q]
  show "envelope_ok (next_cell w) a (c_mailbox (cells w a)) e"
    using signals_invD[OF inv a] s by (simp add: cell_inv_def)
  have h: "cell_held queued a (cells w a) b = cell_held queued a ((cells w a)\<lparr>c_chan := q\<rparr>) b + env_held a e b" for b
    using s by (simp add: cell_held_def)
  show "signals_inv R queued bound (\<lambda>b. ex b + env_held a e b) (\<lambda>b. exd b + (if env_data_permit e then one_at a b else 0))
      (\<lambda>b. exm b + (if env_monitor_permit e then one_at a b else 0)) (upd_cell a (\<lambda>c. c\<lparr>c_chan := q\<rparr>) w)"
  proof (rule signals_inv_upd[OF inv a])
    fix out out'
    assume c: "cell_inv R queued bound (next_cell w) a out (exd a) (exm a) (cells w a)"
      and e: "out' + cell_held queued a (cells w a) a + ex a =
        out + cell_held queued a ((cells w a)\<lparr>c_chan := q\<rparr>) a + (ex a + env_held a e a)"
    have "out' = out" using e h[of a] by simp
    then show "cell_inv R queued bound (next_cell w) a out' (exd a + (if env_data_permit e then one_at a a else 0))
        (exm a + (if env_monitor_permit e then one_at a a else 0)) ((cells w a)\<lparr>c_chan := q\<rparr>)"
      using c s by (auto simp: cell_inv_def count_true_def split: if_splits)
  qed (use h in \<open>auto simp: one_at_def\<close>)
qed

end

section \<open>Operations that leave the signal layer alone\<close>

definition signal_view ::
  "('s, 'q) cell \<Rightarrow> 'q \<times> 's \<times> 's \<times> 's mailbox \<times> usize \<times> nat \<times> nat \<times> (u64, process_ref \<times> monitor_notification option) hmap" where
  "signal_view c = (c_chan c, c_data c, c_mon c, c_mailbox c, c_capacity c, c_max_bytes c, c_max_resources c, t_monitors c)"

definition signal_frame :: "('s, 'q) world \<Rightarrow> ('s, 'q) world \<Rightarrow> bool" where
  "signal_frame w w' \<longleftrightarrow> (\<forall>a. signal_view (cells w' a) = signal_view (cells w a)) \<and> next_cell w' = next_cell w"

lemma signal_frame_refl [simp]: "signal_frame w w"
  by (simp add: signal_frame_def)

lemma signal_frame_trans: "signal_frame w w' \<Longrightarrow> signal_frame w' w'' \<Longrightarrow> signal_frame w w''"
  by (simp add: signal_frame_def)

lemma signal_frame_upd [simp]: "signal_view (f (cells w a)) = signal_view (cells w a) \<Longrightarrow> signal_frame w (upd_cell a f w)"
  by (simp add: signal_frame_def)

lemma signal_view_simps [simp]:
  "signal_view (c\<lparr>c_kill := k\<rparr>) = signal_view c" "signal_view (c\<lparr>c_death := d\<rparr>) = signal_view c"
  "signal_view (c\<lparr>c_link := s\<rparr>) = signal_view c" "signal_view (c\<lparr>c_relations := r\<rparr>) = signal_view c"
  "signal_view (c\<lparr>c_terminal := t\<rparr>) = signal_view c" "signal_view (c\<lparr>c_alive := b\<rparr>) = signal_view c"
  "signal_view (c\<lparr>c_id := i\<rparr>) = signal_view c" "signal_view (c\<lparr>t_die := b\<rparr>) = signal_view c"
  by (simp_all add: signal_view_def)

lemma signals_inv_frame:
  assumes "signals_inv R queued bound ex exd exm w" "signal_frame w w'"
  shows "signals_inv R queued bound ex exd exm w'"
proof -
  have v: "signal_view (cells w' x) = signal_view (cells w x)" and n: "next_cell w' = next_cell w" for x
    using assms(2) by (auto simp: signal_frame_def)
  have "cell_held queued x (cells w' x) b = cell_held queued x (cells w x) b" for x b
    using v[of x] by (simp add: cell_held_def signal_view_def)
  then have o': "outstanding queued w' b = outstanding queued w b" for b by (intro outstanding_same n)
  have "cell_inv R queued bound m a out dat mon (cells w' a) = cell_inv R queued bound m a out dat mon (cells w a)"
    for m a out dat mon
    using v[of a] by (simp add: cell_inv_def signal_view_def)
  then show ?thesis using assms(1) by (simp add: signals_inv_def n o')
qed

lemma acknowledge_signal_frame [simp]: "signal_frame w (acknowledge ack w') = signal_frame w w'"
  by (simp add: acknowledge_def signal_frame_def split: option.splits)

lemma acknowledge_inv [simp]: "signals_inv R queued bound ex exd exm (acknowledge ack w) = signals_inv R queued bound ex exd exm w"
  by (simp add: acknowledge_def signals_inv_def outstanding_def split: option.splits)

lemma custom_calls_inv [simp]:
  "signals_inv R queued bound ex exd exm (w\<lparr>custom_calls := cs\<rparr>) = signals_inv R queued bound ex exd exm w"
  by (simp add: signals_inv_def outstanding_def)

lemma remove_if_signal_frame: "remove_if R a k t w = (m, w') \<Longrightarrow> signal_frame w w'"
  by (auto simp: remove_if_def remove_relation_def split: if_splits)

lemma record_signal_frame [simp]: "signal_frame w (record_link_removed t w') = signal_frame w w'"
  by (simp add: signal_frame_def)

lemma record_all_signal_frame: "signal_frame w (record_all ts w)"
proof (induction ts arbitrary: w)
  case (Cons t ts)
  have "signal_frame w (record_link_removed t w)" by simp
  then show ?case using Cons signal_frame_trans by fastforce
qed simp

lemma unlink_peer_signal_frame: "signal_frame w (snd (unlink_peer R h k w))"
  by (auto simp: unlink_peer_def unlink_commit_def split: option.splits prod.splits
      intro: remove_if_signal_frame signal_frame_trans)

lemma release_peer_signal_frame:
  assumes "release_peer R m e w = (m', w')"
  shows "signal_frame w w'"
proof -
  obtain k r where e: "e = (k, r)" by (cases e)
  let ?w1 = "upd_cell (tm_addr m) (\<lambda>c. c\<lparr>c_link := sem_release (rt_sem R) (c_link c)\<rparr>) w"
  have 1: "signal_frame w ?w1" by simp
  have "w' = ?w1 \<or> (\<exists>rem. remove_if R (rel_peer r) (tm_id m) (rel_token r) ?w1 = (rem, w'))"
    using assms unfolding e release_peer_def Let_def prod.case by (simp split: if_splits prod.splits)
  then show ?thesis using 1 remove_if_signal_frame signal_frame_trans by blast
qed

lemma release_all_signal_frame: "release_all R es m w = (m', w') \<Longrightarrow> signal_frame w w'"
proof (induction es arbitrary: m w)
  case (Cons e es)
  obtain m1 w1 where rp: "release_peer R m e w = (m1, w1)" by fastforce
  then have "signal_frame w1 w'" using Cons by simp
  then show ?case using release_peer_signal_frame[OF rp] signal_frame_trans by blast
qed simp

lemma terminate_begin_signal_frame: "terminate_begin h reason w = (e, w') \<Longrightarrow> signal_frame w w'"
  by (auto simp: terminate_begin_def publish_terminal_reason_def Let_def split: if_splits)

section \<open>Monitor relations\<close>

lemma hm_total_insert_balance:
  "hm_total f (hm_insert k v m) + (case hm_get m k of None \<Rightarrow> 0 | Some o' \<Rightarrow> f o') = hm_total f m + f v"
proof (cases "hm_get m k")
  case None
  then have "k \<notin> hm_keys m" by (simp add: hm_get_None)
  then show ?thesis using None by (simp add: hm_total_insert_absent)
qed (simp add: hm_total_insert_present)

lemma monitors_ok_insert:
  "monitors_ok n ms \<Longrightarrow> note_ok n obs nt \<Longrightarrow> monitors_ok n (hm_insert (process_ref_id obs) (obs, nt) ms)"
  using hm_insert_subset[of "process_ref_id obs" "(obs, nt)" ms] by (fastforce simp: monitors_ok_def)

lemma monitors_ok_remove: "monitors_ok n ms \<Longrightarrow> monitors_ok n (hm_remove k ms)"
  using hm_remove_subset[of k ms] by (fastforce simp: monitors_ok_def)

lemma monitors_ok_get: "monitors_ok n ms \<Longrightarrow> hm_get ms k = Some (obs, nt) \<Longrightarrow> note_ok n obs nt"
  by (auto simp: monitors_ok_def dest: map_of_SomeD)

context signal_runtime
begin

text \<open>Dropping a notification gives its slot back.\<close>

lemma inv_drop_notification:
  assumes "signals_inv R queued bound (\<lambda>b. ex b + notes_for b n) exd exm w" "note_ok (next_cell w) obs n"
  shows "signals_inv R queued bound ex exd exm (drop_notification R n w)"
proof (cases n)
  case None
  then show ?thesis using assms(1) by (simp add: drop_notification_def notes_for_def)
next
  case (Some m)
  then have "mn_addr m < next_cell w" using assms(2) by (auto simp: note_ok_def split: process_ref.splits)
  moreover have "(\<lambda>b. ex b + notes_for b n) = (\<lambda>b. ex b + one_at (mn_addr m) b)"
    by (auto simp: Some notes_for_def one_at_def)
  ultimately show ?thesis using assms(1) inv_drop_slot[of ex "mn_addr m"] by (simp add: Some drop_notification_def)
qed

lemma inv_drop_monitor_entry:
  assumes inv: "signals_inv R queued bound (\<lambda>b. ex b + notes_for b (snd en)) exd (\<lambda>b. exm b + one_at a b) w"
    and a: "a < next_cell w" and ok: "note_ok (next_cell w) (fst en) (snd en)"
  shows "signals_inv R queued bound ex exd exm (drop_monitor_entry R a en w)"
  unfolding drop_monitor_entry_def
  by (rule inv_drop_notification[where obs = "fst en"])
    (use inv_drop_mon[OF inv a] ok in \<open>simp_all add: drop_monitor_permit_def\<close>)

lemma inv_set_monitors:
  assumes inv: "signals_inv R queued bound ex exd exm w" and a: "a < next_cell w"
    and ms: "monitors_ok (next_cell w) (t_monitors (cells w a)) \<Longrightarrow> monitors_ok (next_cell w) ms"
    and ex: "\<And>b. hm_total (\<lambda>en. notes_for b (snd en)) ms + ex' b =
        hm_total (\<lambda>en. notes_for b (snd en)) (t_monitors (cells w a)) + ex b"
    and exm: "length ms + exm' a = length (t_monitors (cells w a)) + exm a" "\<And>b. b \<noteq> a \<Longrightarrow> exm' b = exm b"
  shows "signals_inv R queued bound ex' exd exm' (upd_cell a (\<lambda>c. c\<lparr>t_monitors := ms\<rparr>) w)"
proof (rule signals_inv_upd[OF inv a])
  have h: "cell_held queued a ((cells w a)\<lparr>t_monitors := ms\<rparr>) b + ex' b = cell_held queued a (cells w a) b + ex b" for b
    using ex[of b] by (simp add: cell_held_def)
  then show "cell_held queued a ((cells w a)\<lparr>t_monitors := ms\<rparr>) b + ex' b = cell_held queued a (cells w a) b + ex b" for b .
  fix out out'
  assume c: "cell_inv R queued bound (next_cell w) a out (exd a) (exm a) (cells w a)"
    and e: "out' + cell_held queued a (cells w a) a + ex a =
       out + cell_held queued a ((cells w a)\<lparr>t_monitors := ms\<rparr>) a + ex' a"
  have "out' = out" using e h[of a] by simp
  then show "cell_inv R queued bound (next_cell w) a out' (exd a) (exm' a) ((cells w a)\<lparr>t_monitors := ms\<rparr>)"
    using c ms exm(1) by (auto simp: cell_inv_def)
qed (simp add: exm)

lemma inv_insert_monitor:
  assumes inv: "signals_inv R queued bound (\<lambda>b. ex b + notes_for b n) exd (\<lambda>b. exm b + one_at a b) w"
    and a: "a < next_cell w" and ok: "note_ok (next_cell w) obs n"
  shows "signals_inv R queued bound ex exd exm (insert_monitor R a obs n w)"
proof -
  let ?ms = "t_monitors (cells w a)" and ?k = "process_ref_id obs"
  let ?new = "hm_insert ?k (obs, n) ?ms"
  let ?w1 = "upd_cell a (\<lambda>c. c\<lparr>t_monitors := hm_insert ?k (obs, n) (t_monitors c)\<rparr>) w"
  have w1: "?w1 = upd_cell a (\<lambda>c. c\<lparr>t_monitors := ?new\<rparr>) w" by (simp add: upd_cell_def)
  note bal = hm_total_insert_balance[of "\<lambda>en. notes_for b (snd en)" ?k "(obs, n)" ?ms for b]
  show ?thesis
  proof (cases "hm_get ?ms ?k")
    case None
    have "signals_inv R queued bound ex exd exm ?w1"
      unfolding w1
      by (rule inv_set_monitors[OF inv a]) (use bal None in \<open>auto simp: monitors_ok_insert ok hm_len_insert\<close>)
    then show ?thesis using None by (simp add: insert_monitor_def Let_def)
  next
    case (Some old)
    have "signals_inv R queued bound (\<lambda>b. ex b + notes_for b (snd old)) exd (\<lambda>b. exm b + one_at a b) ?w1"
      unfolding w1
      by (rule inv_set_monitors[OF inv a]) (use bal Some in \<open>auto simp: monitors_ok_insert ok hm_len_insert\<close>)
    moreover have "note_ok (next_cell ?w1) (fst old) (snd old)"
      using signals_invD[OF inv a] Some monitors_ok_get[of _ ?ms ?k "fst old" "snd old"] by (simp add: cell_inv_def)
    ultimately show ?thesis
      using Some inv_drop_monitor_entry[of ex old exd exm a ?w1] a by (simp add: insert_monitor_def Let_def)
  qed
qed

lemma inv_remove_monitor:
  assumes inv: "signals_inv R queued bound ex exd exm w" and a: "a < next_cell w"
  shows "signals_inv R queued bound ex exd exm (remove_monitor R a k w)"
proof (cases "hm_get (t_monitors (cells w a)) k")
  case None
  then show ?thesis using inv by (simp add: remove_monitor_def)
next
  case (Some old)
  let ?ms = "t_monitors (cells w a)"
  let ?w1 = "upd_cell a (\<lambda>c. c\<lparr>t_monitors := hm_remove k (t_monitors c)\<rparr>) w"
  have mo: "monitors_ok (next_cell w) ?ms" using signals_invD[OF inv a] by (simp add: cell_inv_def)
  then have wf: "hm_wf ?ms" by (simp add: monitors_ok_def)
  have w1: "?w1 = upd_cell a (\<lambda>c. c\<lparr>t_monitors := hm_remove k ?ms\<rparr>) w" by (simp add: upd_cell_def)
  note bal = hm_total_remove[OF wf Some, of "\<lambda>en. notes_for b (snd en)" for b] and len = hm_len_remove[OF wf Some]
  have "signals_inv R queued bound (\<lambda>b. ex b + notes_for b (snd old)) exd (\<lambda>b. exm b + one_at a b) ?w1"
    unfolding w1
    by (rule inv_set_monitors[OF inv a]) (use bal len in \<open>auto simp: monitors_ok_remove algebra_simps\<close>)
  moreover have "note_ok (next_cell ?w1) (fst old) (snd old)"
    using Some monitors_ok_get[OF mo, of k "fst old" "snd old"] by simp
  ultimately show ?thesis
    using Some inv_drop_monitor_entry[of ex old exd exm a ?w1] a by (simp add: remove_monitor_def)
qed

section \<open>Delivery and sending\<close>

text \<open>A reserved notice is always delivered.\<close>

lemma push_ok:
  assumes "admission_addr mb = b" "mb_limit_violation mb msg = None"
  shows "\<exists>u mb'. push_with_permit msg \<lparr>permit_semaphore = b\<rparr> mb = (Inr u, mb')"
  using assms by (auto simp: push_with_permit_def belongs_to_def Let_def split: option.splits)

lemma died_no_limit [simp]:
  "mb_limit_violation mb (ProcessDied pid reason) = None" "mb_limit_violation mb (LinkDied tag) = None"
  by (simp_all add: mb_limit_violation_def)

lemma deliver_ok:
  assumes inv: "signals_inv R queued bound ex exd exm w" and ok: "note_ok (next_cell w) (BuiltIn i b) (Some n)"
  obtains u mb where "push_with_permit (ProcessDied pid reason) \<lparr>permit_semaphore = b\<rparr> (c_mailbox (cells w b)) = (Inr u, mb)"
    "deliver_notification R n pid reason w = upd_cell b (\<lambda>c. c\<lparr>c_mailbox := mb\<rparr>) w"
proof -
  have b: "b < next_cell w" and n: "n = \<lparr>mn_addr = b, mn_permit = \<lparr>permit_semaphore = b\<rparr>\<rparr>"
    using ok by (auto simp: note_ok_def)
  have "admission_addr (c_mailbox (cells w b)) = b" using signals_invD[OF inv b] by (simp add: cell_inv_def)
  then obtain u mb where "push_with_permit (ProcessDied pid reason) \<lparr>permit_semaphore = b\<rparr> (c_mailbox (cells w b)) = (Inr u, mb)"
    using push_ok[OF _ died_no_limit(1)] by blast
  then show ?thesis using that by (simp add: deliver_notification_def n)
qed

lemma inv_deliver:
  assumes inv: "signals_inv R queued bound (\<lambda>x. ex x + notes_for x (Some n)) exd exm w"
    and ok: "note_ok (next_cell w) (BuiltIn i b) (Some n)"
  shows "signals_inv R queued bound ex exd exm (deliver_notification R n pid reason w)"
proof (rule deliver_ok[OF inv ok, of pid reason])
  fix u mb
  assume p: "push_with_permit (ProcessDied pid reason) \<lparr>permit_semaphore = b\<rparr> (c_mailbox (cells w b)) = (Inr u, mb)"
    and d: "deliver_notification R n pid reason w = upd_cell b (\<lambda>c. c\<lparr>c_mailbox := mb\<rparr>) w"
  have b: "b < next_cell w" and "mn_addr n = b" using ok by (auto simp: note_ok_def)
  then have "(\<lambda>x. ex x + notes_for x (Some n)) = (\<lambda>x. ex x + one_at b x)" by (auto simp: notes_for_def one_at_def)
  then show ?thesis using inv_push[OF _ b p] inv by (simp add: d)
qed

lemma inv_reserve_notification:
  assumes inv: "signals_inv R queued bound ex exd exm w" and b: "b < next_cell w"
    and res: "reserve_monitor_notification R b w = Inr (n, w')"
  shows "signals_inv R queued bound (\<lambda>x. ex x + notes_for x (Some n)) exd exm w'"
    and "note_ok (next_cell w') (BuiltIn i b) (Some n)" and "next_cell w' = next_cell w"
proof -
  obtain p mb where tr: "try_reserve (rt_sem R) (c_mailbox (cells w b)) = Some (p, mb)"
    and n: "n = \<lparr>mn_addr = b, mn_permit = p\<rparr>" and w': "w' = upd_cell b (\<lambda>c. c\<lparr>c_mailbox := mb\<rparr>) w"
    using res by (elim reserve_cases)
  have "(\<lambda>x. ex x + notes_for x (Some n)) = (\<lambda>x. ex x + one_at b x)" by (auto simp: n notes_for_def one_at_def)
  then show "signals_inv R queued bound (\<lambda>x. ex x + notes_for x (Some n)) exd exm w'"
    using inv_reserve[OF inv b tr] by (simp add: w')
  show "note_ok (next_cell w') (BuiltIn i b) (Some n)"
    using try_reserve_limits[OF tr] signals_invD[OF inv b] b by (simp add: note_ok_def n w' cell_inv_def)
  show "next_cell w' = next_cell w" by (simp add: w')
qed

end

text \<open>The observer named by a monitor signal exists.\<close>

definition observer_in :: "addr \<Rightarrow> signal \<Rightarrow> bool" where
  "observer_in n sg = (case sg of SigMonitor obs _ \<Rightarrow> (case obs of BuiltIn i b \<Rightarrow> b < n | Custom _ \<Rightarrow> True) | _ \<Rightarrow> True)"

lemma message_limits_agree:
  assumes "c_max_bytes c = mb_max_bytes (c_mailbox c)" "c_max_resources c = mb_max_resources (c_mailbox c)"
    "message_limit_error c (SigMessage msg) = None"
  shows "mb_limit_violation (c_mailbox c) msg = None"
  using assms by (auto simp: message_limit_error_def mb_limit_violation_def Let_def split: message.splits if_splits)

lemma reserves_not_monitor: "reserves_mailbox_capacity sg \<Longrightarrow> sg \<noteq> SigMonitor obs ack"
  by (auto simp: reserves_mailbox_capacity_def)

lemma plain_control_reserves: "plain_control sg \<Longrightarrow> \<not> reserves_mailbox_capacity sg"
  by (cases sg) (auto simp: reserves_mailbox_capacity_def)

context signal_runtime
begin

lemma inv_sent_data:
  assumes inv: "signals_inv R queued bound ex exd exm w" and a: "a < next_cell w"
    and r: "reserves_mailbox_capacity sg" and lim: "message_limit_error (cells w a) sg = None"
    and tr: "try_reserve (rt_sem R) (c_mailbox (cells w a)) = Some (p, mb)"
    and s: "sem_try_acquire (rt_sem R) (c_data (cells w a)) = Some s"
    and q: "ch_try_send (rt_chan R) (c_chan (cells w a))
      ((control sg)\<lparr>env_mailbox_permit := Some p, env_data_permit := True\<rparr>) = Inr q"
  shows "signals_inv R queued bound ex exd exm (upd_cell a (\<lambda>c. c\<lparr>c_mailbox := mb, c_data := s, c_chan := q\<rparr>) w)"
proof -
  let ?e = "(control sg)\<lparr>env_mailbox_permit := Some p, env_data_permit := True\<rparr>"
  let ?w1 = "upd_cell a (\<lambda>c. c\<lparr>c_mailbox := mb\<rparr>) w"
  let ?w2 = "upd_cell a (\<lambda>c. c\<lparr>c_data := s\<rparr>) ?w1"
  note c = signals_invD[OF inv a] and lm = try_reserve_limits[OF tr]
  have 1: "signals_inv R queued bound (\<lambda>b. ex b + one_at a b) exd exm ?w1" by (rule inv_reserve[OF inv a tr])
  have 2: "signals_inv R queued bound (\<lambda>b. ex b + one_at a b) (\<lambda>b. exd b + one_at a b) exm ?w2"
    by (rule inv_acquire_data[OF 1]) (use a s in simp_all)
  have h: "env_held a ?e = one_at a" by (auto simp: env_held_def one_at_def notes_for_def fun_eq_iff)
  have "mb_limit_violation (c_mailbox (cells w a)) msg = None" if "sg = SigMessage msg" for msg
    using message_limits_agree c lim that by (auto simp: cell_inv_def)
  then have "envelope_ok (next_cell ?w2) a (c_mailbox (cells w a)) ?e"
    using r lm c by (cases sg) (auto simp: envelope_ok_def cell_inv_def reserves_mailbox_capacity_def)
  then have ok: "envelope_ok (next_cell ?w2) a (c_mailbox (cells ?w2 a)) ?e"
    using envelope_ok_mailbox[of mb "c_mailbox (cells w a)"] lm by simp
  have "signals_inv R queued bound ex exd exm (upd_cell a (\<lambda>c. c\<lparr>c_chan := q\<rparr>) ?w2)"
    by (rule inv_enqueue[where e = ?e]) (use 2 a ok q h in simp_all)
  then show ?thesis by simp
qed

lemma inv_sent_monitor:
  assumes inv: "signals_inv R queued bound ex exd exm w" and a: "a < next_cell w" and b: "b < next_cell w"
    and s: "sem_try_acquire (rt_sem R) (c_mon (cells w a)) = Some s"
    and res: "reserve_monitor_notification R b (upd_cell a (\<lambda>c. c\<lparr>c_mon := s\<rparr>) w) = Inr (n, w1)"
    and q: "ch_try_send (rt_chan R) (c_chan (cells w a))
      ((control (SigMonitor (BuiltIn i b) ack))\<lparr>env_monitor_permit := True, env_notification := Some n\<rparr>) = Inr q"
  shows "signals_inv R queued bound ex exd exm (upd_cell a (\<lambda>c. c\<lparr>c_chan := q\<rparr>) w1)"
proof -
  let ?e = "(control (SigMonitor (BuiltIn i b) ack))\<lparr>env_monitor_permit := True, env_notification := Some n\<rparr>"
  let ?w0 = "upd_cell a (\<lambda>c. c\<lparr>c_mon := s\<rparr>) w"
  have 0: "signals_inv R queued bound ex exd (\<lambda>x. exm x + one_at a x) ?w0" by (rule inv_acquire_mon[OF inv a s])
  have b0: "b < next_cell ?w0" using b by simp
  note rn = inv_reserve_notification[OF 0 b0 res]
  have h: "env_held a ?e = (\<lambda>x. notes_for x (Some n))" by (auto simp: env_held_def fun_eq_iff)
  have ok: "envelope_ok (next_cell w1) a (c_mailbox (cells w1 a)) ?e"
    using rn(2) by (simp add: envelope_ok_def reserves_mailbox_capacity_def)
  have "c_chan (cells w1 a) = c_chan (cells w a)"
    using res by (elim reserve_cases) simp
  then show ?thesis
    by (intro inv_enqueue[where e = ?e]) (use rn(1,3) a ok q h in simp_all)
qed

lemma sent_inv:
  "sent R a sg target w w' \<Longrightarrow> signals_inv R queued bound ex exd exm w \<Longrightarrow> a < next_cell w \<Longrightarrow>
     observer_in (next_cell w) sg \<Longrightarrow> signals_inv R queued bound ex exd exm w'"
proof (induction rule: sent.induct)
  case (sent_kill w target)
  then show ?case by (elim signals_inv_frame) (simp add: request_kill_def)
next
  case (sent_data sg w p mb s q target)
  then show ?case by (intro inv_sent_data)
next
  case (sent_monitor w s b n w1 i ack q target)
  then show ?case by (intro inv_sent_monitor[where s = s and b = b]) (auto simp: observer_in_def)
next
  case (sent_monitor_custom w s i ack q target)
  let ?e = "(control (SigMonitor (Custom i) ack))\<lparr>env_monitor_permit := True\<rparr>"
  let ?w0 = "upd_cell a (\<lambda>c. c\<lparr>c_mon := s\<rparr>) w"
  have "signals_inv R queued bound ex exd (\<lambda>x. exm x + one_at a x) ?w0"
    using sent_monitor_custom inv_acquire_mon by blast
  moreover have "env_held a ?e = (\<lambda>_. 0)" by (auto simp: env_held_def notes_for_def fun_eq_iff)
  moreover have "envelope_ok (next_cell ?w0) a (c_mailbox (cells ?w0 a)) ?e"
    by (simp add: envelope_ok_def reserves_mailbox_capacity_def note_ok_def)
  ultimately have "signals_inv R queued bound ex exd exm (upd_cell a (\<lambda>c. c\<lparr>c_chan := q\<rparr>) ?w0)"
    using sent_monitor_custom by (intro inv_enqueue[where e = ?e]) simp_all
  then show ?case by simp
next
  case (sent_control sg w q target)
  have "env_held a (control sg) = (\<lambda>_. 0)" by (auto simp: env_held_def notes_for_def fun_eq_iff)
  moreover have "envelope_ok (next_cell w) a (c_mailbox (cells w a)) (control sg)"
    using sent_control(1) plain_control_reserves[OF sent_control(1)] by (cases sg) (auto simp: envelope_ok_def)
  ultimately show ?case using sent_control by (intro inv_enqueue[where e = "control sg"]) simp_all
next
  case (sent_late target pid w b n w1 i ack)
  then have "b < next_cell w" by (simp add: observer_in_def)
  note rn = inv_reserve_notification[OF sent_late(4) this sent_late(3)]
  show ?case using inv_deliver[OF rn(1,2)] by simp
next
  case (sent_late_custom target pid w i ack)
  then show ?case by simp
qed

lemma send_inner_inv:
  assumes "send_inner R a sg target w = (res, w')" "signals_inv R queued bound ex exd exm w" "a < next_cell w"
    "observer_in (next_cell w) sg"
  shows "signals_inv R queued bound ex exd exm w'" "next_cell w' = next_cell w"
proof -
  have an: "answered R a sg target w (res, w')" using send_with_answer assms(1) by (metis send_inner_def)
  then show "signals_inv R queued bound ex exd exm w'"
    using assms by (auto simp: answered_def refused_def dest: sent_inv)
  show "next_cell w' = next_cell w" using send_inner_frame[OF assms(1)] by (simp add: link_frame_cells)
qed

end

section \<open>The loop never panics\<close>

text \<open>An envelope taken from the queue of \<open>a\<close>, whose permits the loop now holds.\<close>

definition taken_inv ::
  "('s, 'q) signal_rt \<Rightarrow> ('q \<Rightarrow> envelope list) \<Rightarrow> ('q \<Rightarrow> usize) \<Rightarrow> addr \<Rightarrow> envelope \<Rightarrow> ('s, 'q) world \<Rightarrow> bool" where
  "taken_inv R queued bound a e w \<longleftrightarrow>
     a < next_cell w \<and> envelope_ok (next_cell w) a (c_mailbox (cells w a)) e \<and>
     signals_inv R queued bound (env_held a e) (\<lambda>b. if env_data_permit e then one_at a b else 0)
       (\<lambda>b. if env_monitor_permit e then one_at a b else 0) w"

definition quiet_inv :: "('s, 'q) signal_rt \<Rightarrow> ('q \<Rightarrow> envelope list) \<Rightarrow> ('q \<Rightarrow> usize) \<Rightarrow> ('s, 'q) world \<Rightarrow> bool" where
  "quiet_inv R queued bound w = signals_inv R queued bound none_held none_held none_held w"

lemma mailbox_update_next: "next_cell (drop_notification R n w) = next_cell w"
  "next_cell (drop_monitor_permit R a h w) = next_cell w" "next_cell (drop_data_permit R a h w) = next_cell w"
  "next_cell (drop_mailbox_permit R a p w) = next_cell w" "next_cell (drop_envelope R a e w) = next_cell w"
  "next_cell (drop_monitor_entry R a en w) = next_cell w" "next_cell (insert_monitor R a obs n w) = next_cell w"
  "next_cell (remove_monitor R a k w) = next_cell w" "next_cell (acknowledge ack w) = next_cell w"
  by (simp_all add: drop_defs drop_monitor_entry_def insert_monitor_def remove_monitor_def acknowledge_def Let_def
      split: option.splits)

lemma signal_frame_next: "signal_frame w w' \<Longrightarrow> next_cell w' = next_cell w"
  by (simp add: signal_frame_def)

context signal_runtime
begin

lemma dequeue_taken:
  assumes "quiet_inv R queued bound w" "a < next_cell w" "ch_try_recv (rt_chan R) (c_chan (cells w a)) = Some (e, q)"
  shows "taken_inv R queued bound a e (upd_cell a (\<lambda>c. c\<lparr>c_chan := q\<rparr>) w)"
  using inv_dequeue[OF assms(1)[unfolded quiet_inv_def] assms(2,3)] assms(2) by (simp add: taken_inv_def)

lemma drop_data_taken:
  assumes "taken_inv R queued bound a e w"
  shows "signals_inv R queued bound (env_held a e) none_held (\<lambda>b. if env_monitor_permit e then one_at a b else 0)
      (drop_data_permit R a (env_data_permit e) w)"
  using assms inv_drop_data[of "env_held a e" none_held a] by (auto simp: taken_inv_def drop_data_permit_def)

text \<open>A signal that becomes a message: its permit admits it.\<close>

lemma push_reserved_ok:
  assumes inv: "signals_inv R queued bound (one_at a) none_held none_held w" and a: "a < next_cell w"
    and lim: "mb_limit_violation (c_mailbox (cells w a)) msg = None"
  shows "\<exists>w'. push_reserved a msg (Some \<lparr>permit_semaphore = a\<rparr>) w = Some w' \<and> quiet_inv R queued bound w' \<and>
    next_cell w' = next_cell w"
proof -
  have "admission_addr (c_mailbox (cells w a)) = a" using signals_invD[OF inv a] by (simp add: cell_inv_def)
  then obtain u mb where p: "push_with_permit msg \<lparr>permit_semaphore = a\<rparr> (c_mailbox (cells w a)) = (Inr u, mb)"
    using push_ok[OF _ lim] by blast
  have "signals_inv R queued bound none_held none_held none_held (upd_cell a (\<lambda>c. c\<lparr>c_mailbox := mb\<rparr>) w)"
    using inv_push[of none_held a none_held none_held w msg] p inv a by simp
  then show ?thesis using p by (simp add: push_reserved_def quiet_inv_def)
qed

lemma drop_slot_quiet:
  assumes "signals_inv R queued bound (one_at a) none_held none_held w" "a < next_cell w"
  shows "quiet_inv R queued bound (drop_mailbox_permit R a (Some p) w)"
  using inv_drop_slot[of none_held a none_held none_held w] assms by (simp add: drop_mailbox_permit_def quiet_inv_def)

end

lemma drop_parts_plain:
  "env_mailbox_permit e = None \<Longrightarrow> \<not> env_monitor_permit e \<Longrightarrow> env_notification e = None \<Longrightarrow> drop_parts R a e w = w"
  by (simp add: drop_parts_def drop_defs)

lemma continue_with_simps [simp]: "continue_with (Some w) = Some (LoopContinue, w)" "continue_with None = None"
  by (simp_all add: continue_with_def)

text \<open>What the well-formed envelope of each kind of signal holds.\<close>

lemma envelope_plain:
  assumes "envelope_ok n a mb e" "\<not> reserves_mailbox_capacity (env_signal e)" "\<forall>obs ack. env_signal e \<noteq> SigMonitor obs ack"
  shows "env_mailbox_permit e = None" "\<not> env_data_permit e" "\<not> env_monitor_permit e" "env_notification e = None"
    "env_held a e = none_held"
  using assms by (cases "env_signal e"; simp add: envelope_ok_def env_held_def notes_for_def fun_eq_iff)+

lemma envelope_message:
  assumes "envelope_ok n a mb e" "reserves_mailbox_capacity (env_signal e)"
  shows "env_mailbox_permit e = Some \<lparr>permit_semaphore = a\<rparr>" "env_data_permit e" "\<not> env_monitor_permit e"
    "env_notification e = None" "env_held a e = one_at a"
    "env_signal e = SigMessage msg \<Longrightarrow> mb_limit_violation mb msg = None"
  using assms
  by (cases "env_signal e"; simp add: envelope_ok_def env_held_def notes_for_def one_at_def reserves_mailbox_capacity_def fun_eq_iff)+

lemma envelope_monitor:
  assumes "envelope_ok n a mb e" "env_signal e = SigMonitor obs ack"
  shows "env_mailbox_permit e = None" "\<not> env_data_permit e" "env_monitor_permit e" "note_ok n obs (env_notification e)"
    "env_held a e = (\<lambda>b. notes_for b (env_notification e))"
  using assms by (simp_all add: envelope_ok_def env_held_def reserves_mailbox_capacity_def fun_eq_iff)

definition handled ::
  "('s, 'q) signal_rt \<Rightarrow> ('q \<Rightarrow> envelope list) \<Rightarrow> ('q \<Rightarrow> usize) \<Rightarrow> ('s, 'q) world \<Rightarrow>
    (loop_control \<times> ('s, 'q) world) option \<Rightarrow> bool" where
  "handled R queued bound w r \<longleftrightarrow> (\<exists>ctl w'. r = Some (ctl, w') \<and> quiet_inv R queued bound w' \<and> next_cell w' = next_cell w)"

lemma handled_Some [simp]:
  "handled R queued bound w (Some (ctl, w')) = (quiet_inv R queued bound w' \<and> next_cell w' = next_cell w)"
  by (simp add: handled_def)

lemma quiet_frame: "quiet_inv R queued bound w \<Longrightarrow> signal_frame w w' \<Longrightarrow> quiet_inv R queued bound w'"
  unfolding quiet_inv_def by (rule signals_inv_frame)

context signal_runtime
begin

lemma handle_plain:
  assumes ti: "taken_inv R queued bound (lh_addr h) e w" and pl: "\<not> reserves_mailbox_capacity (env_signal e)"
    "\<forall>obs ack. env_signal e \<noteq> SigMonitor obs ack"
  shows "handled R queued bound w (handle_signal R h e w)"
proof -
  let ?a = "lh_addr h"
  have ok: "envelope_ok (next_cell w) ?a (c_mailbox (cells w ?a)) e" and a: "?a < next_cell w"
    using ti by (auto simp: taken_inv_def)
  note en = envelope_plain[OF ok pl]
  have q: "quiet_inv R queued bound w" using ti en by (simp add: taken_inv_def quiet_inv_def)
  have rm: "quiet_inv R queued bound (remove_monitor R ?a k w)" for k
    using inv_remove_monitor[OF q[unfolded quiet_inv_def] a] by (simp add: quiet_inv_def)
  have un: "quiet_inv R queued bound (snd (unlink_peer R h k w)) \<and> next_cell (snd (unlink_peer R h k w)) = next_cell w" for k
    using quiet_frame[OF q unlink_peer_signal_frame] signal_frame_next[OF unlink_peer_signal_frame] by blast
  have die: "quiet_inv R queued bound (upd_cell ?a (\<lambda>c. c\<lparr>t_die := b\<rparr>) w)" for b
    by (rule quiet_frame[OF q]) simp
  have "drop_data_permit R ?a (env_data_permit e) w = w" using en by (simp add: drop_data_permit_def)
  then show ?thesis
    using q rm un die pl
    by (cases "env_signal e")
      (auto simp: handle_signal_def Let_def drop_parts_plain[OF en(1,3,4)] mailbox_update_next reserves_mailbox_capacity_def)
qed

lemma handle_message:
  assumes ti: "taken_inv R queued bound (lh_addr h) e w" and r: "reserves_mailbox_capacity (env_signal e)"
  shows "handled R queued bound w (handle_signal R h e w)"
proof -
  let ?a = "lh_addr h" and ?w0 = "drop_data_permit R (lh_addr h) True w"
  have ok: "envelope_ok (next_cell w) ?a (c_mailbox (cells w ?a)) e" and a: "?a < next_cell w"
    using ti by (auto simp: taken_inv_def)
  note en = envelope_message[OF ok r]
  have inv: "signals_inv R queued bound (one_at ?a) none_held none_held ?w0"
    using drop_data_taken[OF ti] en by simp
  have a0: "?a < next_cell ?w0" and mb: "c_mailbox (cells ?w0 ?a) = c_mailbox (cells w ?a)"
    using a by (simp_all add: drop_data_permit_def)
  have n0: "next_cell ?w0 = next_cell w" by (simp add: mailbox_update_next)
  have fr: "signal_frame ?w0 (snd (unlink_peer R h k ?w0))" for k by (rule unlink_peer_signal_frame)
  have inv1: "signals_inv R queued bound (one_at ?a) none_held none_held (snd (unlink_peer R h k ?w0))" for k
    by (rule signals_inv_frame[OF inv fr])
  have n1: "next_cell (snd (unlink_peer R h k ?w0)) = next_cell w" for k using signal_frame_next[OF fr] n0 by simp
  have push: "handled R queued bound w (continue_with (push_reserved ?a msg (env_mailbox_permit e) v))"
    if "signals_inv R queued bound (one_at ?a) none_held none_held v" "next_cell v = next_cell w"
      "mb_limit_violation (c_mailbox (cells v ?a)) msg = None" for msg v
    using push_reserved_ok[OF that(1) _ that(3)] that(2) a en(1) by auto
  have drop: "drop_parts R ?a e v = drop_mailbox_permit R ?a (Some \<lparr>permit_semaphore = ?a\<rparr>) v" for v
    using en by (simp add: drop_parts_def drop_envelope_def drop_monitor_permit_def drop_notification_def drop_data_permit_def)
  have dq: "quiet_inv R queued bound (drop_parts R ?a e (snd (unlink_peer R h k ?w0)))" for k
    unfolding drop using drop_slot_quiet[OF inv1] n1 a by simp
  show ?thesis
  proof (cases "env_signal e")
    case (SigMessage msg)
    then show ?thesis using push[OF inv n0, of msg] mb en(2,6) by (simp add: handle_signal_def Let_def)
  next
    case (SigLinkDied pid tag reason)
    then show ?thesis
      using r push[where msg = "LinkDied tag", OF inv1[of pid] n1[of pid]] dq[of pid] n1 en(2)
      by (auto simp: handle_signal_def Let_def reserves_mailbox_capacity_def drop mailbox_update_next)
  next
    case (SigProcessDied pid reason)
    then show ?thesis using push[OF inv n0, of "ProcessDied pid reason"] en(2) by (simp add: handle_signal_def Let_def)
  qed (use r in \<open>simp_all add: reserves_mailbox_capacity_def\<close>)
qed

lemma handle_monitor:
  assumes ti: "taken_inv R queued bound (lh_addr h) e w" and m: "env_signal e = SigMonitor obs ack"
  shows "handled R queued bound w (handle_signal R h e w)"
proof -
  let ?a = "lh_addr h"
  have ok: "envelope_ok (next_cell w) ?a (c_mailbox (cells w ?a)) e" and a: "?a < next_cell w"
    using ti by (auto simp: taken_inv_def)
  note en = envelope_monitor[OF ok m]
  have "signals_inv R queued bound none_held none_held none_held (insert_monitor R ?a obs (env_notification e) w)"
    by (rule inv_insert_monitor) (use ti en a in \<open>auto simp: taken_inv_def\<close>)
  then show ?thesis
    using m en by (simp add: handle_signal_def Let_def admit_monitor_def drop_mailbox_permit_def drop_data_permit_def
        quiet_inv_def mailbox_update_next)
qed

theorem handle_signal_total:
  assumes "taken_inv R queued bound (lh_addr h) e w"
  shows "handled R queued bound w (handle_signal R h e w)"
  using handle_plain[OF assms] handle_message[OF assms] handle_monitor[OF assms] by blast

end

end
