(* ===== verification/Process_System.thy ===== *)
theory Process_System
  imports Signal_Accounting Mailbox_Queue
begin

text \<open>
  Processes as a whole: spawning, sending, linking, receiving, the rounds of the execution loops and the
  end of processes, as one machine.  Its invariant joins the bookkeeping of signals and that of links.
  What follows for every run: a round of the loop never panics, the shutdown of a process returns, and
  each of its monitors finds exactly one death notice in its mailbox.
\<close>

section \<open>The machine\<close>

definition idle_links :: "('s, 'q) world \<Rightarrow> ('s, 'q) link_machine" where
  "idle_links w = \<lparr>lm_world = w, lm_endings = [], lm_unlinks = []\<rparr>"

definition process_inv :: "('s, 'q) signal_rt \<Rightarrow> ('q \<Rightarrow> envelope list) \<Rightarrow> ('q \<Rightarrow> usize) \<Rightarrow> ('s, 'q) world \<Rightarrow> bool" where
  "process_inv R queued bound w \<longleftrightarrow> quiet_inv R queued bound w \<and> links_inv R (idle_links w)"

text \<open>A receive of the process on its own mailbox.\<close>

definition receive :: "('s, 'q) signal_rt \<Rightarrow> addr \<Rightarrow> i64 list option \<Rightarrow> nat \<Rightarrow> ('s, 'q) world \<Rightarrow> message option \<times> ('s, 'q) world" where
  "receive R a ts wk w =
     (case pop (rt_sem R) ts wk (c_mailbox (cells w a)) of
        (msg, mb) \<Rightarrow> (msg, upd_cell a (\<lambda>c. c\<lparr>c_mailbox := mb\<rparr>) w))"

definition ref_in :: "addr \<Rightarrow> process_ref \<Rightarrow> bool" where
  "ref_in n p = (case p of BuiltIn i a \<Rightarrow> a < n | Custom i \<Rightarrow> True)"

definition process_start :: "('s, 'q) world \<Rightarrow> bool" where
  "process_start w \<longleftrightarrow> next_cell w = 0 \<and> next_token w = 0 \<and> links_alive w = 0 \<and> counted_alive w = (\<lambda>_. False)"

inductive process_step :: "('s, 'q) signal_rt \<Rightarrow> ('s, 'q) world \<Rightarrow> ('s, 'q) world \<Rightarrow> bool" for R where
  ps_spawn:
    "mailboxes_with_limits R cap mcap mbytes mres w = Some (a, w') \<Longrightarrow> process_step R w w'"
| ps_handle:
    "a < next_cell w \<Longrightarrow> lifecycle_handle a i w = (res, w') \<Longrightarrow> process_step R w w'"
| ps_link:
    "handle_ok w l \<Longrightarrow> handle_ok w r \<Longrightarrow> link_pair R l ltag r rtag w = (res, w') \<Longrightarrow> process_step R w w'"
| ps_unlink:
    "handle_ok w h \<Longrightarrow> unlink_peer R h k w = (res, w') \<Longrightarrow> process_step R w w'"
| ps_send:
    "ref_in (next_cell w) p \<Longrightarrow> observer_in (next_cell w) sg \<Longrightarrow> process_send R p sg w = (res, w') \<Longrightarrow> process_step R w w'"
| ps_receive:
    "a < next_cell w \<Longrightarrow> receive R a ts wk w = (res, w') \<Longrightarrow> process_step R w w'"
| ps_round:
    "handle_ok w h \<Longrightarrow> loop_round R h guest (has_sender, w) = Some (fin, sg, has_sender', w') \<Longrightarrow> process_step R w w'"
| ps_finish:
    "handle_ok w h \<Longrightarrow> finish_process R h f w = Some w' \<Longrightarrow> process_step R w w'"

section \<open>The shutdown\<close>

text \<open>The monitors a process has when its queue is drained: the queued changes applied in order.\<close>

fun drained_monitors ::
  "envelope list \<Rightarrow> (u64, process_ref \<times> monitor_notification option) hmap \<Rightarrow>
    (u64, process_ref \<times> monitor_notification option) hmap" where
  "drained_monitors [] ms = ms"
| "drained_monitors (e # es) ms =
     (case env_signal e of
        SigMonitor obs _ \<Rightarrow> drained_monitors es (hm_insert (process_ref_id obs) (obs, env_notification e) ms)
      | SigStopMonitoring k \<Rightarrow> drained_monitors es (hm_remove k ms)
      | _ \<Rightarrow> drained_monitors es ms)"

text \<open>How many of them are observers at \<open>b\<close>, and the calls for observers from outside.\<close>

definition observers_at :: "addr \<Rightarrow> (u64 \<times> process_ref \<times> monitor_notification option) list \<Rightarrow> nat" where
  "observers_at b ms = length (filter (\<lambda>m. case fst (snd m) of BuiltIn i x \<Rightarrow> x = b | Custom i \<Rightarrow> False) ms)"

fun custom_notices ::
  "signal \<Rightarrow> (u64 \<times> process_ref \<times> monitor_notification option) list \<Rightarrow> (u64 \<times> signal) list" where
  "custom_notices sg [] = []"
| "custom_notices sg ((_, Custom i, _) # ms) = (i, sg) # custom_notices sg ms"
| "custom_notices sg ((_, BuiltIn _ _, _) # ms) = custom_notices sg ms"

definition mail :: "('s, 'q) world \<Rightarrow> addr \<Rightarrow> message list" where
  "mail w b = mb_view (c_mailbox (cells w b))"

text \<open>Nothing is delivered.\<close>

definition mail_same :: "('s, 'q) world \<Rightarrow> ('s, 'q) world \<Rightarrow> bool" where
  "mail_same w w' \<longleftrightarrow> mail w' = mail w \<and> custom_calls w' = custom_calls w"

lemma mail_same_refl [simp]: "mail_same w w"
  by (simp add: mail_same_def)

lemma mail_same_trans: "mail_same w w' \<Longrightarrow> mail_same w' w'' \<Longrightarrow> mail_same w w''"
  by (simp add: mail_same_def)

lemma mail_same_upd:
  "mb_view (c_mailbox (f (cells w a))) = mb_view (c_mailbox (cells w a)) \<Longrightarrow> mail_same w (upd_cell a f w)"
  by (simp add: mail_same_def mail_def fun_eq_iff)

lemma drop_mail [simp]:
  "mail_same w (drop_notification R n w)" "mail_same w (drop_monitor_permit R a h w)"
  "mail_same w (drop_data_permit R a h w)" "mail_same w (drop_mailbox_permit R a p w)"
  by (auto simp: drop_defs split: option.splits intro!: mail_same_upd)

lemma acknowledge_mail [simp]: "mail_same w (acknowledge ack w)"
  by (simp add: acknowledge_def mail_same_def mail_def fun_eq_iff split: option.splits)

lemma set_monitors_mail [simp]: "mail_same w (upd_cell a (\<lambda>c. c\<lparr>t_monitors := f c\<rparr>) w)"
  by (rule mail_same_upd) simp

lemmas mail_steps = mail_same_trans[OF _ drop_mail(1)] mail_same_trans[OF _ drop_mail(2)]
  mail_same_trans[OF _ drop_mail(3)] mail_same_trans[OF _ drop_mail(4)] mail_same_trans[OF _ acknowledge_mail]
  mail_same_trans[OF _ set_monitors_mail] mail_same_refl

lemma drop_envelope_mail [simp]: "mail_same w (drop_envelope R a e w)"
  unfolding drop_envelope_def by (intro mail_steps)

lemma insert_monitor_mail [simp]: "mail_same w (insert_monitor R a obs n w)"
proof (cases "hm_get (t_monitors (cells w a)) (process_ref_id obs)")
  case None
  then show ?thesis by (simp add: insert_monitor_def Let_def)
next
  case (Some en)
  then show ?thesis
    unfolding insert_monitor_def drop_monitor_entry_def Let_def Some option.case by (intro mail_steps)
qed

lemma remove_monitor_mail [simp]: "mail_same w (remove_monitor R a k w)"
proof (cases "hm_get (t_monitors (cells w a)) k")
  case None
  then show ?thesis by (simp add: remove_monitor_def)
next
  case (Some en)
  then show ?thesis unfolding remove_monitor_def drop_monitor_entry_def Some option.case by (intro mail_steps)
qed

text \<open>What the drops leave alone.\<close>

lemma drop_cells [simp]:
  "c_chan (cells (drop_notification R n w) x) = c_chan (cells w x)"
  "c_chan (cells (drop_monitor_permit R a h w) x) = c_chan (cells w x)"
  "c_chan (cells (drop_data_permit R a h w) x) = c_chan (cells w x)"
  "c_chan (cells (drop_mailbox_permit R a p w) x) = c_chan (cells w x)"
  "t_monitors (cells (drop_notification R n w) x) = t_monitors (cells w x)"
  "t_monitors (cells (drop_monitor_permit R a h w) x) = t_monitors (cells w x)"
  "t_monitors (cells (drop_data_permit R a h w) x) = t_monitors (cells w x)"
  "t_monitors (cells (drop_mailbox_permit R a p w) x) = t_monitors (cells w x)"
  by (simp_all add: drop_defs split: option.splits)

lemma acknowledge_cells [simp]: "cells (acknowledge ack w) = cells w"
  by (simp add: acknowledge_def split: option.splits)

lemma drop_envelope_cells [simp]:
  "c_chan (cells (drop_envelope R a e w) x) = c_chan (cells w x)"
  "t_monitors (cells (drop_envelope R a e w) x) = t_monitors (cells w x)"
  by (simp_all add: drop_envelope_def)

lemma insert_monitor_cells [simp]:
  "c_chan (cells (insert_monitor R a obs n w) x) = c_chan (cells w x)"
  "t_monitors (cells (insert_monitor R a obs n w) a) = hm_insert (process_ref_id obs) (obs, n) (t_monitors (cells w a))"
  by (simp_all add: insert_monitor_def drop_monitor_entry_def Let_def split: option.splits)

lemma remove_monitor_cells [simp]:
  "c_chan (cells (remove_monitor R a k w) x) = c_chan (cells w x)"
  "t_monitors (cells (remove_monitor R a k w) a) = hm_remove k (t_monitors (cells w a))"
  by (auto simp: remove_monitor_def drop_monitor_entry_def hm_remove_absent split: option.splits)

lemma drop_link_frame [simp]:
  "link_frame w (drop_monitor_permit R a h w)" "link_frame w (drop_data_permit R a h w)"
  "link_frame w (drop_mailbox_permit R a p w)" "link_frame w (upd_cell a (\<lambda>c. c\<lparr>t_monitors := f c\<rparr>) w)"
  by (simp_all add: drop_defs split: option.splits)

lemmas link_steps = link_frame_trans[OF _ drop_notification_frame] link_frame_trans[OF _ drop_link_frame(1)]
  link_frame_trans[OF _ drop_link_frame(2)] link_frame_trans[OF _ drop_link_frame(3)]
  link_frame_trans[OF _ drop_link_frame(4)] link_frame_refl

lemma drop_envelope_link_frame [simp]: "link_frame w (drop_envelope R a e w)"
  unfolding drop_envelope_def by (intro link_steps)

lemma insert_monitor_link_frame [simp]: "link_frame w (insert_monitor R a obs n w)"
proof (cases "hm_get (t_monitors (cells w a)) (process_ref_id obs)")
  case (Some en)
  then show ?thesis
    unfolding insert_monitor_def drop_monitor_entry_def Let_def Some option.case by (intro link_steps)
qed (simp add: insert_monitor_def Let_def)

lemma remove_monitor_link_frame [simp]: "link_frame w (remove_monitor R a k w)"
proof (cases "hm_get (t_monitors (cells w a)) k")
  case (Some en)
  then show ?thesis unfolding remove_monitor_def drop_monitor_entry_def Some option.case by (intro link_steps)
qed (simp add: remove_monitor_def)

text \<open>One drained envelope: the bookkeeping stays, and only the monitors change.\<close>

definition drained :: "('s, 'q) world \<Rightarrow> ('s, 'q) world \<Rightarrow> bool" where
  "drained w w' \<longleftrightarrow> link_frame w w' \<and> mail_same w w' \<and> (\<forall>x. c_chan (cells w' x) = c_chan (cells w x))"

context signal_runtime
begin

lemma drain_one_ok:
  assumes ti: "taken_inv R queued bound a e w"
  shows "\<exists>w'. drain_one R a e w = Some w' \<and> quiet_inv R queued bound w' \<and> drained w w' \<and>
    t_monitors (cells w' a) = drained_monitors [e] (t_monitors (cells w a))"
proof -
  have ok: "envelope_ok (next_cell w) a (c_mailbox (cells w a)) e" and a: "a < next_cell w"
    using ti by (auto simp: taken_inv_def)
  consider (msg) "reserves_mailbox_capacity (env_signal e)" | (mon) obs ack where "env_signal e = SigMonitor obs ack"
    | (plain) "\<not> reserves_mailbox_capacity (env_signal e)" "\<forall>obs ack. env_signal e \<noteq> SigMonitor obs ack"
    by blast
  then show ?thesis
  proof cases
    case msg
    note en = envelope_message[OF ok msg]
    let ?w = "drop_mailbox_permit R a (env_mailbox_permit e) (drop_data_permit R a True w)"
    have "signals_inv R queued bound (one_at a) none_held none_held (drop_data_permit R a True w)"
      using drop_data_taken[OF ti] en by simp
    then have "quiet_inv R queued bound ?w" unfolding en(1) by (rule drop_slot_quiet) (simp add: a mailbox_update_next)
    moreover have "drained w ?w" unfolding drained_def by (intro conjI link_steps mail_steps) simp
    moreover have "drain_one R a e w = Some ?w"
      using msg en by (cases "env_signal e")
        (simp_all add: drain_one_def Let_def reserves_mailbox_capacity_def drop_envelope_def drop_monitor_permit_def
          drop_notification_def drop_data_permit_def[of _ _ False] drop_mailbox_permit_def[of _ _ None])
    moreover have "drained_monitors [e] ms = ms" for ms
      using msg by (cases "env_signal e") (simp_all add: reserves_mailbox_capacity_def)
    ultimately show ?thesis by simp
  next
    case mon
    note en = envelope_monitor[OF ok mon]
    have "quiet_inv R queued bound (insert_monitor R a obs (env_notification e) w)"
      unfolding quiet_inv_def by (rule inv_insert_monitor) (use ti en a in \<open>auto simp: taken_inv_def\<close>)
    moreover have "drained w (acknowledge ack (insert_monitor R a obs (env_notification e) w))"
      using mail_same_trans[OF insert_monitor_mail acknowledge_mail] by (simp add: drained_def)
    ultimately show ?thesis
      using mon en by (simp add: drain_one_def Let_def admit_monitor_def drop_data_permit_def drop_mailbox_permit_def quiet_inv_def)
  next
    case plain
    note en = envelope_plain[OF ok plain]
    have q: "quiet_inv R queued bound w" using ti en by (simp add: taken_inv_def quiet_inv_def)
    have rm: "quiet_inv R queued bound (remove_monitor R a k w)" for k
      using inv_remove_monitor[OF q[unfolded quiet_inv_def] a] by (simp add: quiet_inv_def)
    have "drained w w" "drained w (remove_monitor R a k w)" for k by (simp_all add: drained_def)
    then show ?thesis
      using plain en q rm
      by (cases "env_signal e") (simp_all add: drain_one_def Let_def drop_defs)
  qed
qed

end

lemma drained_monitors_Cons: "drained_monitors (e # es) ms = drained_monitors es (drained_monitors [e] ms)"
  by (cases "env_signal e") simp_all

lemma drop_pushed_mail [simp]: "mail_same w (upd_cell a (\<lambda>c. c\<lparr>c_chan := q\<rparr>) w)"
  by (rule mail_same_upd) simp

context signal_runtime
begin

lemma drain_ingress_ok:
  "quiet_inv R queued bound w \<Longrightarrow> a < next_cell w \<Longrightarrow> queued (c_chan (cells w a)) = es \<Longrightarrow>
     \<exists>w'. drain_ingress R a w = Some w' \<and> quiet_inv R queued bound w' \<and> link_frame w w' \<and> mail_same w w' \<and>
       queued (c_chan (cells w' a)) = [] \<and> t_monitors (cells w' a) = drained_monitors es (t_monitors (cells w a))"
proof (induction es arbitrary: w)
  case Nil
  then have "try_recv R a w = None" by (simp add: try_recv_def)
  then show ?case using Nil by (simp add: drain_ingress.simps)
next
  case (Cons e es)
  obtain q where q: "ch_try_recv (rt_chan R) (c_chan (cells w a)) = Some (e, q)" "queued q = es"
    using chan.recv_ok[OF Cons.prems(3)] by blast
  let ?w1 = "upd_cell a (\<lambda>c. c\<lparr>c_chan := q\<rparr>) w"
  obtain w2 where w2: "drain_one R a e ?w1 = Some w2" "quiet_inv R queued bound w2" "drained ?w1 w2"
      "t_monitors (cells w2 a) = drained_monitors [e] (t_monitors (cells w a))"
    using drain_one_ok[OF dequeue_taken[OF Cons.prems(1,2) q(1)]] by auto
  have a2: "a < next_cell w2" and q2: "queued (c_chan (cells w2 a)) = es"
    using w2(3) Cons.prems(2) q(2) by (auto simp: drained_def link_frame_def)
  obtain w' where w': "drain_ingress R a w2 = Some w'" "quiet_inv R queued bound w'" "link_frame w2 w'" "mail_same w2 w'"
      "queued (c_chan (cells w' a)) = []" "t_monitors (cells w' a) = drained_monitors es (t_monitors (cells w2 a))"
    using Cons.IH[OF w2(2) a2 q2] by blast
  have "link_frame w ?w1" by simp
  then have "link_frame w w'" using w2(3) w'(3) link_frame_trans unfolding drained_def by blast
  moreover have "mail_same w w'"
    using drop_pushed_mail[of w a q] w2(3) w'(4) mail_same_trans unfolding drained_def by blast
  moreover have "drain_ingress R a w = Some w'"
    using q(1) w2(1) w'(1) by (simp add: drain_ingress.simps[of R a w] try_recv_def)
  ultimately show ?case using w' w2(4) drained_monitors_Cons[of e es] by metis
qed

text \<open>The links are told through queues and latches, not through mailboxes.\<close>

lemma sent_link_died_mail:
  "sent R b (SigLinkDied pid tag reason) target w w' \<Longrightarrow> mail_same w w'"
proof (cases rule: sent.cases)
  assume "sent R b (SigLinkDied pid tag reason) target w w'"
  then show "sent R b (SigLinkDied pid tag reason) target w w'" .
qed (auto simp: request_kill_def try_reserve_def split: option.splits intro!: mail_same_upd)

lemma deliver_link_death_mail: "mail_same w (deliver_link_death R b k pid tag reason w)"
proof -
  obtain res w' where s: "send_inner R b (SigLinkDied pid tag reason) (Some k) w = (res, w')" by fastforce
  have an: "answered R b (SigLinkDied pid tag reason) (Some k) w (res, w')"
    using send_with_answer s by (metis send_inner_def)
  have ms: "mail_same w w'" using an by (auto simp: answered_def refused_def dest: sent_link_died_mail)
  have "mail_same w' (request_kill b w')" unfolding request_kill_def by (rule mail_same_upd) simp
  then show ?thesis
    using ms s mail_same_trans by (auto simp: deliver_link_death_def send_to_process_def split: sum.splits)
qed

lemma deliver_link_death_inv:
  assumes "signals_inv R queued bound ex exd exm w" "b < next_cell w"
  shows "signals_inv R queued bound ex exd exm (deliver_link_death R b k pid tag reason w)"
proof -
  obtain res w' where s: "send_inner R b (SigLinkDied pid tag reason) (Some k) w = (res, w')" by fastforce
  have "signals_inv R queued bound ex exd exm w'"
    using send_inner_inv(1)[OF s assms] by (simp add: observer_in_def)
  moreover have "signal_frame w' (request_kill b w')" by (simp add: request_kill_def)
  ultimately show ?thesis
    using s signals_inv_frame by (auto simp: deliver_link_death_def send_to_process_def split: sum.splits)
qed

lemma deliver_all_ok:
  "quiet_inv R queued bound w \<Longrightarrow> \<forall>n \<in> set ns. fst n < next_cell w \<Longrightarrow>
     quiet_inv R queued bound (deliver_all R pid reason ns w) \<and> mail_same w (deliver_all R pid reason ns w)"
proof (induction ns arbitrary: w)
  case (Cons n ns)
  obtain b k tag where n: "n = (b, k, tag)" by (cases n)
  let ?w = "deliver_link_death R b k pid tag reason w"
  have "quiet_inv R queued bound ?w"
    using deliver_link_death_inv[of none_held none_held none_held w b] Cons.prems by (simp add: quiet_inv_def n)
  moreover have "next_cell ?w = next_cell w" by (rule link_frame_cells(7)[OF deliver_link_death_frame])
  ultimately show ?case
    using Cons mail_same_trans[OF deliver_link_death_mail[of w b k pid tag reason]] by (simp add: n)
qed simp

end

text \<open>Sending leaves the monitors of every process alone.\<close>

definition monitors_same :: "('s, 'q) world \<Rightarrow> ('s, 'q) world \<Rightarrow> bool" where
  "monitors_same w w' \<longleftrightarrow> (\<forall>x. t_monitors (cells w' x) = t_monitors (cells w x))"

lemma monitors_same_refl [simp]: "monitors_same w w"
  by (simp add: monitors_same_def)

lemma monitors_same_trans: "monitors_same w w' \<Longrightarrow> monitors_same w' w'' \<Longrightarrow> monitors_same w w''"
  by (simp add: monitors_same_def)

lemma signal_frame_monitors: "signal_frame w w' \<Longrightarrow> monitors_same w w'"
  by (simp add: signal_frame_def signal_view_def monitors_same_def)

lemma signal_frame_mail: "signal_frame w w' \<Longrightarrow> custom_calls w' = custom_calls w \<Longrightarrow> mail_same w w'"
  by (simp add: signal_frame_def signal_view_def mail_same_def mail_def fun_eq_iff)

lemma release_peer_custom: "release_peer R m e w = (m', w') \<Longrightarrow> custom_calls w' = custom_calls w"
  by (auto simp: release_peer_def remove_if_def remove_relation_def Let_def split: prod.splits if_splits)

lemma release_all_custom: "release_all R es m w = (m', w') \<Longrightarrow> custom_calls w' = custom_calls w"
proof (induction es arbitrary: m w)
  case (Cons e es)
  obtain m1 w1 where rp: "release_peer R m e w = (m1, w1)" by fastforce
  then show ?case using Cons release_peer_custom[OF rp] by simp
qed simp

lemma record_all_custom: "custom_calls (record_all ts w) = custom_calls w"
proof (induction ts arbitrary: w)
  case (Cons t ts)
  then show ?case by (simp add: record_link_removed_def)
qed simp

lemma release_peer_note_set:
  "release_peer R m (k, r) w = (m', w') \<Longrightarrow> set (tm_notes m') \<subseteq> insert (rel_peer r, k, rel_exit_tag r) (set (tm_notes m))"
  by (auto simp: release_peer_def Let_def split: prod.splits if_splits)

lemma release_all_note_set:
  "release_all R es m w = (m', w') \<Longrightarrow>
     set (tm_notes m') \<subseteq> set (tm_notes m) \<union> (\<lambda>e. (rel_peer (snd e), fst e, rel_exit_tag (snd e))) ` set es"
proof (induction es arbitrary: m w)
  case (Cons e es)
  obtain m1 w1 where rp: "release_peer R m e w = (m1, w1)" by fastforce
  have "set (tm_notes m1) \<subseteq> insert (rel_peer (snd e), fst e, rel_exit_tag (snd e)) (set (tm_notes m))"
    using release_peer_note_set[of R m "fst e" "snd e" w m1 w1] rp by simp
  then show ?case using Cons.IH[of m1 w1] Cons.prems rp by auto
qed simp

context signal_runtime
begin

lemma sent_monitors: "sent R a sg target w w' \<Longrightarrow> monitors_same w w'"
proof (induction rule: sent.induct)
  case (sent_monitor w s b n w1 i ack q target)
  then show ?case
    by (auto simp: monitors_same_def reserve_monitor_notification_def split: if_splits option.splits)
next
  case (sent_late target pid w b n w1 i ack)
  then show ?case
    by (auto simp: monitors_same_def reserve_monitor_notification_def deliver_notification_def drop_notification_def
        split: if_splits option.splits sum.splits prod.splits)
qed (auto simp: monitors_same_def request_kill_def)

lemma deliver_link_death_monitors: "monitors_same w (deliver_link_death R b k pid tag reason w)"
proof -
  obtain res w' where s: "send_inner R b (SigLinkDied pid tag reason) (Some k) w = (res, w')" by fastforce
  have "answered R b (SigLinkDied pid tag reason) (Some k) w (res, w')"
    using send_with_answer s by (metis send_inner_def)
  then have "monitors_same w w'" by (auto simp: answered_def refused_def dest: sent_monitors)
  then show ?thesis
    using s by (auto simp: deliver_link_death_def send_to_process_def request_kill_def monitors_same_def split: sum.splits)
qed

lemma deliver_all_monitors: "monitors_same w (deliver_all R pid reason ns w)"
proof (induction ns arbitrary: w)
  case (Cons n ns)
  then show ?case
    by (cases n) (auto intro: monitors_same_trans[OF deliver_link_death_monitors])
qed simp

text \<open>The termination of the links, as one operation of the process.\<close>

lemma finish_termination_ok:
  assumes q: "quiet_inv R queued bound w" and peers: "\<forall>e \<in> set (tm_todo m). rel_peer (snd e) < next_cell w"
    and m: "tm_notes m = []"
  shows "quiet_inv R queued bound (finish_termination R m w) \<and> mail_same w (finish_termination R m w) \<and>
    monitors_same w (finish_termination R m w)"
proof -
  obtain m1 w1 where ra: "release_all R (tm_todo m) m w = (m1, w1)" by fastforce
  note fr = release_all_signal_frame[OF ra]
  let ?w2 = "deliver_all R (tm_id m) (tm_reason m) (tm_notes m1) w1"
  have q1: "quiet_inv R queued bound w1" by (rule quiet_frame[OF q fr])
  have "\<forall>n \<in> set (tm_notes m1). fst n < next_cell w1"
    using release_all_note_set[OF ra] peers m signal_frame_next[OF fr] by fastforce
  note d = deliver_all_ok[OF q1 this, of "tm_id m" "tm_reason m"]
  have "mail_same w w1" by (rule signal_frame_mail[OF fr release_all_custom[OF ra]])
  then have 2: "mail_same w ?w2" using d mail_same_trans by blast
  have m2: "monitors_same w ?w2"
    using monitors_same_trans[OF signal_frame_monitors[OF fr] deliver_all_monitors] .
  note r = record_all_signal_frame[of ?w2 "tm_events m1"]
  have "finish_termination R m w = record_all (tm_events m1) ?w2" by (simp add: finish_termination_def ra)
  then show ?thesis
    using d 2 m2 quiet_frame[OF _ r] mail_same_trans[OF 2 signal_frame_mail[OF r record_all_custom]]
      monitors_same_trans[OF m2 signal_frame_monitors[OF r]] by simp
qed

end

context signal_runtime
begin

lemma terminate_ok:
  assumes inv: "process_inv R queued bound w" and h: "handle_ok w h"
  shows "process_inv R queued bound (terminate R h reason w) \<and> mail_same w (terminate R h reason w) \<and>
    monitors_same w (terminate R h reason w)"
proof -
  have q: "quiet_inv R queued bound w" and l: "links_inv R (idle_links w)" using inv by (auto simp: process_inv_def)
  have l': "links_inv R (idle_links (terminate R h reason w))"
    using links_inv_terminate_all[OF l, of h reason] h by (simp add: idle_links_def)
  obtain e w1 where tb: "terminate_begin h reason w = (e, w1)" by fastforce
  note fr = terminate_begin_signal_frame[OF tb]
  have cc: "custom_calls w1 = custom_calls w"
    using tb by (auto simp: terminate_begin_def publish_terminal_reason_def Let_def split: if_splits)
  have q1: "quiet_inv R queued bound w1" and m1: "mail_same w w1" and mo1: "monitors_same w w1"
    using quiet_frame[OF q fr] signal_frame_mail[OF fr cc] signal_frame_monitors[OF fr] by auto
  show ?thesis
  proof (cases e)
    case None
    then show ?thesis using q1 m1 mo1 l' tb by (simp add: terminate_def process_inv_def)
  next
    case (Some x)
    have todo: "tm_todo x = c_relations (cells w (lh_addr h))" and no: "tm_notes x = []"
      using tb Some by (auto simp: terminate_begin_def publish_terminal_reason_def Let_def split: if_splits)
    have a: "lh_addr h < next_cell w" using h by (simp add: handle_ok_def)
    have "rel_peer (snd y) < next_cell w1" if y: "y \<in> set (tm_todo x)" for y
    proof -
      have "hm_wf (c_relations (cells w (lh_addr h)))"
        using links_invD(2)[OF l, of "lh_addr h"] a by (simp add: idle_links_def link_cell_ok_def)
      then have "(lh_addr h, fst y, rel_token (snd y), rel_peer (snd y)) \<in> stored_ends w"
        using y a todo by (auto simp: stored_ends_iff hm_get_mem intro!: exI[of _ "snd y"])
      then show ?thesis
        using links_invD(1)[OF l] signal_frame_next[OF fr] by (auto simp: idle_links_def ends_ok_def dest: ends_typedD)
    qed
    then have "\<forall>y \<in> set (tm_todo x). rel_peer (snd y) < next_cell w1" by blast
    note fin = finish_termination_ok[OF q1 this no]
    have "terminate R h reason w = finish_termination R x w1" by (simp add: terminate_def tb Some)
    then show ?thesis
      using fin l' mail_same_trans[OF m1] monitors_same_trans[OF mo1] by (simp add: process_inv_def)
  qed
qed

end

text \<open>The notices to the monitors: what the list of entries holds is spent, entry by entry.\<close>

definition notes_held :: "(u64 \<times> process_ref \<times> monitor_notification option) list \<Rightarrow> addr \<Rightarrow> nat" where
  "notes_held ms b = sum_list (map (\<lambda>m. notes_for b (snd (snd m))) ms)"

definition permits_held :: "addr \<Rightarrow> nat \<Rightarrow> addr \<Rightarrow> nat" where
  "permits_held a n b = n * one_at a b"

lemma notes_held_simps [simp]:
  "notes_held [] = none_held" "notes_held (m # ms) = (\<lambda>b. notes_held ms b + notes_for b (snd (snd m)))"
  by (auto simp: notes_held_def fun_eq_iff)

lemma permits_held_simps [simp]:
  "permits_held a 0 = none_held" "permits_held a (Suc n) = (\<lambda>b. permits_held a n b + one_at a b)"
  by (auto simp: permits_held_def fun_eq_iff)

lemma observers_at_simps [simp]:
  "observers_at b [] = 0"
  "observers_at b ((k, BuiltIn i x, n) # ms) = (if x = b then Suc (observers_at b ms) else observers_at b ms)"
  "observers_at b ((k, Custom i, n) # ms) = observers_at b ms"
  by (simp_all add: observers_at_def)

context signal_runtime
begin

lemma deliver_mail:
  assumes inv: "signals_inv R queued bound ex exd exm w" and ok: "note_ok (next_cell w) (BuiltIn i b) (Some n)"
  shows "mail (deliver_notification R n pid reason w) x =
      (if x = b then mail w b @ [ProcessDied pid reason] else mail w x)"
    and "custom_calls (deliver_notification R n pid reason w) = custom_calls w"
proof -
  obtain u mb where p: "push_with_permit (ProcessDied pid reason) \<lparr>permit_semaphore = b\<rparr> (c_mailbox (cells w b)) = (Inr u, mb)"
    and d: "deliver_notification R n pid reason w = upd_cell b (\<lambda>c. c\<lparr>c_mailbox := mb\<rparr>) w"
    using deliver_ok[OF inv ok] by metis
  have b: "b < next_cell w" using ok by (simp add: note_ok_def)
  then have "mailbox_inv (rt_sem R) (outstanding queued w b + ex b) (c_mailbox (cells w b))"
    using signals_invD[OF inv b] by (simp add: cell_inv_def)
  from push_with_permit_refines[OF p this]
  show "mail (deliver_notification R n pid reason w) x =
      (if x = b then mail w b @ [ProcessDied pid reason] else mail w x)"
    by (simp add: d mail_def)
  show "custom_calls (deliver_notification R n pid reason w) = custom_calls w" by (simp add: d)
qed

lemma notify_monitors_ok:
  "signals_inv R queued bound (notes_held ms) none_held (permits_held a (length ms)) w \<Longrightarrow> a < next_cell w \<Longrightarrow>
   \<forall>m \<in> set ms. note_ok (next_cell w) (fst (snd m)) (snd (snd m)) \<Longrightarrow>
     quiet_inv R queued bound (notify_monitors R a pid reason ms w) \<and>
     link_frame w (notify_monitors R a pid reason ms w) \<and>
     mail (notify_monitors R a pid reason ms w) = (\<lambda>b. mail w b @ replicate (observers_at b ms) (ProcessDied pid reason)) \<and>
     custom_calls (notify_monitors R a pid reason ms w) = custom_calls w @ custom_notices (SigProcessDied pid reason) ms"
proof (induction ms arbitrary: w)
  case Nil
  then show ?case by (simp add: quiet_inv_def)
next
  case (Cons m ms)
  obtain k obs nt where m: "m = (k, obs, nt)" by (cases m)
  let ?w1 = "case nt of Some n \<Rightarrow> deliver_notification R n pid reason w
      | None \<Rightarrow> snd (process_send R obs (SigProcessDied pid reason) w)"
  let ?w2 = "drop_monitor_permit R a True ?w1"
  have inv: "signals_inv R queued bound (\<lambda>b. notes_held ms b + notes_for b nt) none_held
      (\<lambda>b. permits_held a (length ms) b + one_at a b) w"
    using Cons.prems(1) by (simp add: m)
  have ok: "note_ok (next_cell w) obs nt" using Cons.prems(3) by (simp add: m)
  have w1: "signals_inv R queued bound (notes_held ms) none_held (\<lambda>b. permits_held a (length ms) b + one_at a b) ?w1 \<and>
      link_frame w ?w1 \<and> mail ?w1 = (\<lambda>b. mail w b @ replicate (observers_at b [m]) (ProcessDied pid reason)) \<and>
      custom_calls ?w1 = custom_calls w @ custom_notices (SigProcessDied pid reason) [m]"
  proof (cases obs)
    case (BuiltIn i b)
    then obtain n where nt: "nt = Some n" using ok by (auto simp: note_ok_def)
    note dm = deliver_mail[OF inv ok[unfolded BuiltIn nt], of pid reason]
    show ?thesis
      using inv_deliver[OF inv[unfolded nt] ok[unfolded BuiltIn nt]] dm by (auto simp: nt m BuiltIn fun_eq_iff)
  next
    case (Custom i)
    then have "nt = None" using ok by (simp add: note_ok_def)
    then show ?thesis
      using inv by (auto simp: m Custom notes_for_def mail_def fun_eq_iff link_frame_def)
  qed
  then have n1: "next_cell ?w1 = next_cell w" by (simp add: link_frame_def)
  have w2: "signals_inv R queued bound (notes_held ms) none_held (permits_held a (length ms)) ?w2"
    using w1 inv_drop_mon[of "notes_held ms" none_held "permits_held a (length ms)" a ?w1] Cons.prems(2) n1
    by (simp add: drop_monitor_permit_def)
  have f2: "link_frame w ?w2" using w1 link_steps(2) by blast
  have n2: "next_cell ?w2 = next_cell w" using n1 by (simp add: mailbox_update_next)
  have m2: "mail ?w2 = mail ?w1" "custom_calls ?w2 = custom_calls ?w1" using drop_mail(2)[of ?w1 R a True] by (auto simp: mail_same_def)
  have eq: "notify_monitors R a pid reason (m # ms) w = notify_monitors R a pid reason ms ?w2" by (simp add: m)
  have "a < next_cell ?w2" "\<forall>m \<in> set ms. note_ok (next_cell ?w2) (fst (snd m)) (snd (snd m))"
    using Cons.prems(2,3) n2 by auto
  note ih = Cons.IH[OF w2 this]
  have obs: "observers_at b (m # ms) = observers_at b [m] + observers_at b ms"
    "custom_notices sg (m # ms) = custom_notices sg [m] @ custom_notices sg ms" for b sg
    by (cases obs; simp add: m)+
  show ?case
    unfolding eq using ih w1 m2 link_frame_trans[OF f2] by (simp add: obs replicate_add)
qed

end

lemma handle_ok_frame: "link_frame w w' \<Longrightarrow> handle_ok w h \<Longrightarrow> handle_ok w' h"
  by (simp add: handle_ok_def link_frame_cells)

lemma idle_links_frame: "links_inv R (idle_links w) \<Longrightarrow> link_frame w w' \<Longrightarrow> links_inv R (idle_links w')"
  using links_inv_frame[of R "idle_links w" w'] by (simp add: idle_links_def)

definition final_monitors ::
  "('q \<Rightarrow> envelope list) \<Rightarrow> ('s, 'q) cell \<Rightarrow> (u64, process_ref \<times> monitor_notification option) hmap" where
  "final_monitors queued c = drained_monitors (queued (c_chan c)) (t_monitors c)"

context signal_runtime
begin

lemma close_ok:
  assumes "quiet_inv R queued bound w" "a < next_cell w"
  shows "quiet_inv R queued bound (close_with_reason R a reason w) \<and> mail_same w (close_with_reason R a reason w) \<and>
    queued (c_chan (cells (close_with_reason R a reason w) a)) = queued (c_chan (cells w a)) \<and>
    t_monitors (cells (close_with_reason R a reason w) a) = t_monitors (cells w a)"
proof -
  let ?w1 = "publish_terminal_reason a reason w"
  have q1: "quiet_inv R queued bound ?w1"
    by (rule quiet_frame[OF assms(1)]) (simp add: publish_terminal_reason_def)
  have "signals_inv R queued bound none_held none_held none_held (upd_cell a (\<lambda>c. c\<lparr>c_chan := ch_close (rt_chan R) (c_chan c)\<rparr>) ?w1)"
    by (rule signals_inv_upd[OF q1[unfolded quiet_inv_def]])
      (use assms(2) in \<open>auto simp: publish_terminal_reason_def cell_held_def cell_inv_def\<close>)
  then show ?thesis
    by (auto simp: close_with_reason_def quiet_inv_def publish_terminal_reason_def mail_same_def mail_def fun_eq_iff)
qed

lemma take_monitors_inv:
  assumes q: "quiet_inv R queued bound w" and a: "a < next_cell w"
  shows "signals_inv R queued bound (notes_held (t_monitors (cells w a))) none_held
      (permits_held a (length (t_monitors (cells w a)))) (upd_cell a (\<lambda>c. c\<lparr>t_monitors := []\<rparr>) w)"
    and "\<forall>m \<in> set (t_monitors (cells w a)). note_ok (next_cell w) (fst (snd m)) (snd (snd m))"
proof -
  show "signals_inv R queued bound (notes_held (t_monitors (cells w a))) none_held
      (permits_held a (length (t_monitors (cells w a)))) (upd_cell a (\<lambda>c. c\<lparr>t_monitors := []\<rparr>) w)"
    by (rule inv_set_monitors[OF q[unfolded quiet_inv_def] a])
      (simp_all add: monitors_ok_def hm_total_def notes_held_def permits_held_def)
  have "monitors_ok (next_cell w) (t_monitors (cells w a))"
    using signals_invD[OF q[unfolded quiet_inv_def] a] by (simp add: cell_inv_def)
  then show "\<forall>m \<in> set (t_monitors (cells w a)). note_ok (next_cell w) (fst (snd m)) (snd (snd m))"
    by (auto simp: monitors_ok_def)
qed

lemma finish_process_ok:
  assumes inv: "process_inv R queued bound w" and h: "handle_ok w h"
    and ms: "ms = final_monitors queued (cells w (lh_addr h))"
  shows "\<exists>w'. finish_process R h f w = Some w' \<and> process_inv R queued bound w' \<and>
    mail w' = (\<lambda>b. mail w b @ replicate (observers_at b ms) (ProcessDied (lh_id h) (death_of f))) \<and>
    custom_calls w' = custom_calls w @ custom_notices (SigProcessDied (lh_id h) (death_of f)) ms"
proof -
  let ?a = "lh_addr h" and ?reason = "death_of f"
  have q: "quiet_inv R queued bound w" and l: "links_inv R (idle_links w)" using inv by (auto simp: process_inv_def)
  have a: "?a < next_cell w" using h by (simp add: handle_ok_def)
  let ?w1 = "close_with_reason R ?a ?reason w"
  note c = close_ok[OF q a, of ?reason] and cf = close_frame[of w R ?a ?reason]
  have a1: "?a < next_cell ?w1" using a link_frame_cells(7)[OF cf] by simp
  obtain w2 where w2: "drain_ingress R ?a ?w1 = Some w2" "quiet_inv R queued bound w2" "link_frame ?w1 w2" "mail_same ?w1 w2"
      "t_monitors (cells w2 ?a) = ms"
    using drain_ingress_ok[of ?w1 ?a] c a1 by (auto simp: ms final_monitors_def)
  have f2: "link_frame w w2" by (rule link_frame_trans[OF cf w2(3)])
  have p2: "process_inv R queued bound w2" using w2(2) idle_links_frame[OF l f2] by (simp add: process_inv_def)
  let ?w3 = "terminate R h ?reason w2"
  note t = terminate_ok[OF p2 handle_ok_frame[OF f2 h], of ?reason]
  have ms3: "t_monitors (cells ?w3 ?a) = ms" using t w2(5) by (simp add: monitors_same_def)
  have q3: "quiet_inv R queued bound ?w3" using t by (simp add: process_inv_def)
  have a3: "?a < next_cell ?w3" using terminate_terminal(1)[of h ?reason w2] link_frame_cells(7)[OF f2] a by simp
  let ?w4 = "upd_cell ?a (\<lambda>c. c\<lparr>t_monitors := []\<rparr>) ?w3"
  have a4: "?a < next_cell ?w4" and nx: "next_cell ?w4 = next_cell ?w3" using a3 by simp_all
  note tk = take_monitors_inv[OF q3 a3, unfolded ms3]
  note n = notify_monitors_ok[OF tk(1) a4, of "lh_id h" ?reason] 
  let ?w5 = "notify_monitors R ?a (lh_id h) ?reason ms ?w4"
  have n5: "quiet_inv R queued bound ?w5 \<and> link_frame ?w4 ?w5 \<and>
      mail ?w5 = (\<lambda>b. mail ?w4 b @ replicate (observers_at b ms) (ProcessDied (lh_id h) ?reason)) \<and>
      custom_calls ?w5 = custom_calls ?w4 @ custom_notices (SigProcessDied (lh_id h) ?reason) ms"
    using n tk(2) nx by simp
  have m1: "mail_same w ?w1" and m3: "mail_same w2 ?w3" using c t by blast+
  have m4: "mail_same w ?w4"
    by (rule mail_same_trans[OF mail_same_trans[OF mail_same_trans[OF m1 w2(4)] m3] set_monitors_mail])
  have "link_frame ?w3 ?w4" by simp
  then have "link_frame ?w3 ?w5" by (rule link_frame_trans) (use n5 in blast)
  then have "links_inv R (idle_links ?w5)" using t idle_links_frame by (auto simp: process_inv_def)
  moreover have "finish_process R h f w = Some ?w5"
    by (simp add: finish_process_def close_signal_ingress_def w2(1) Let_def ms3)
  ultimately show ?thesis using n5 m4 by (auto simp: process_inv_def mail_same_def)
qed

end

section \<open>Rounds of the loop\<close>

lemma push_reserved_frame: "push_reserved a msg p w = Some w' \<Longrightarrow> link_frame w w'"
  by (auto simp: push_reserved_def split: option.splits prod.splits sum.splits)

lemma drop_parts_frame [simp]: "link_frame w (drop_parts R a e w)"
  by (simp add: drop_parts_def)

context signal_runtime
begin

lemma unlink_peer_links:
  assumes l: "links_inv R (idle_links w)" and h: "handle_ok w h" and u: "unlink_peer R h k w = (res, w')"
  shows "links_inv R (idle_links w')"
proof (cases "unlink_lookup h k w")
  case None
  then show ?thesis using u l by (simp add: unlink_peer_def)
next
  case (Some tp)
  have "links_inv R ((idle_links w)\<lparr>lm_unlinks := [(h, k, tp)]\<rparr>)"
    using links_inv_lookup[OF l, of h k tp] h Some by (simp add: idle_links_def)
  from links_inv_unlink[OF this, of "[]" h k tp "[]" res w'] show ?thesis
    using u Some by (simp add: unlink_peer_def idle_links_def)
qed

lemma unlink_peer_handle:
  assumes "unlink_peer R h k w = (res, w')" "handle_ok w h'"
  shows "handle_ok w' h'"
proof (cases "unlink_lookup h k w")
  case None
  then show ?thesis using assms by (simp add: unlink_peer_def)
next
  case (Some tp)
  then have "unlink_commit R h k (fst tp, snd tp) w = (res, w')" using assms by (simp add: unlink_peer_def)
  from unlink_commit_frame[OF this] show ?thesis using assms(2) by (auto simp: handle_ok_def)
qed

lemma handle_signal_links:
  assumes hs: "handle_signal R h e w = Some (ctl, w')" and l: "links_inv R (idle_links w)" and h: "handle_ok w h"
  shows "links_inv R (idle_links w')"
proof -
  let ?a = "lh_addr h"
  let ?w0 = "drop_data_permit R ?a (env_data_permit e) w"
  have l0: "links_inv R (idle_links ?w0)" by (rule idle_links_frame[OF l]) simp
  have h0: "handle_ok ?w0 h" by (rule handle_ok_frame[OF _ h]) simp
  have un: "links_inv R (idle_links (snd (unlink_peer R h k ?w0)))" for k
    using unlink_peer_links[OF l0 h0, of k] by (cases "unlink_peer R h k ?w0") auto
  have push: "push_reserved ?a msg p v = Some v' \<Longrightarrow> links_inv R (idle_links v) \<Longrightarrow> links_inv R (idle_links v')" for msg p v v'
    using push_reserved_frame idle_links_frame by blast
  have parts: "links_inv R (idle_links v) \<Longrightarrow> links_inv R (idle_links (drop_parts R ?a e v))" for v
    by (rule idle_links_frame) auto
  have rest: "links_inv R (idle_links (upd_cell ?a (\<lambda>c. c\<lparr>t_die := b\<rparr>) ?w0))"
    "links_inv R (idle_links (remove_monitor R ?a k ?w0))" for b k
    by (rule idle_links_frame[OF l0], simp)+
  have mon: "links_inv R (idle_links (drop_mailbox_permit R ?a p (acknowledge ack (insert_monitor R ?a obs n ?w0))))" for p ack obs n
    by (rule idle_links_frame[OF l0]) (intro link_steps, simp)
  show ?thesis
    using hs
    by (cases "env_signal e")
      (auto simp: handle_signal_def Let_def continue_with_def admit_monitor_def split: if_splits
        intro: push[OF _ l0] push[OF _ un] parts l0 un rest mon)
qed

lemma control_held: "env_held a (control sg) = none_held"
  by (simp add: env_held_def notes_for_def control_def fun_eq_iff)

lemma control_kill_taken:
  "quiet_inv R queued bound w \<Longrightarrow> a < next_cell w \<Longrightarrow> taken_inv R queued bound a (control SigKill) w"
  unfolding taken_inv_def quiet_inv_def control_held
  by (simp add: envelope_ok_def reserves_mailbox_capacity_def control_def)

lemma loop_round_ok:
  assumes inv: "process_inv R queued bound w" and h: "handle_ok w h"
  shows "\<exists>fin sg hs w'. loop_round R h guest (has_sender, w) = Some (fin, sg, hs, w') \<and> process_inv R queued bound w'"
proof -
  have q: "quiet_inv R queued bound w" and l: "links_inv R (idle_links w)" using inv by (auto simp: process_inv_def)
  have a: "lh_addr h < next_cell w" using h by (simp add: handle_ok_def)
  obtain res w1 where rp: "recv_poll R (lh_addr h) w = (res, w1)" by fastforce
  note fr = recv_poll_frame[OF rp]
  have l1: "links_inv R (idle_links w1)" by (rule idle_links_frame[OF l fr])
  show ?thesis
  proof (cases "\<exists>e. res = Some (Some e)")
    case True
    then obtain e where e: "res = Some (Some e)" by blast
    have "taken_inv R queued bound (lh_addr h) e w1"
    proof (cases "c_kill (cells w (lh_addr h))")
      case True
      let ?w = "upd_cell (lh_addr h) (\<lambda>c. c\<lparr>c_kill := False\<rparr>) w"
      have "quiet_inv R queued bound ?w" by (rule quiet_frame[OF q]) simp
      then show ?thesis using True rp e a control_kill_taken[of ?w] by (auto simp: recv_poll_def Let_def)
    next
      case False
      then show ?thesis
        using rp e dequeue_taken[OF q a] by (auto simp: recv_poll_def Let_def split: option.splits if_splits)
    qed
    then have "handled R queued bound w1 (handle_signal R h e w1)" by (rule handle_signal_total)
    then obtain ctl w2 where h2: "handle_signal R h e w1 = Some (ctl, w2)" "quiet_inv R queued bound w2"
      unfolding handled_def by blast
    have "links_inv R (idle_links w2)" by (rule handle_signal_links[OF h2(1) l1 handle_ok_frame[OF fr h]])
    then show ?thesis
      using e rp h2 inv by (cases ctl; cases has_sender) (auto simp: loop_round_def process_inv_def)
  next
    case False
    then have "w1 = w" using rp by (auto simp: recv_poll_def Let_def split: if_splits option.splits)
    then show ?thesis
      using False rp inv by (cases has_sender; cases res) (auto simp: loop_round_def split: option.splits)
  qed
qed

end

section \<open>The other steps\<close>

lemma notes_for_fresh: "note_ok n obs nt \<Longrightarrow> notes_for n nt = 0"
  by (cases obs) (auto simp: note_ok_def notes_for_def)

lemma env_held_fresh: "envelope_ok n a mb e \<Longrightarrow> a < n \<Longrightarrow> env_held a e n = 0"
  by (cases "env_signal e") (auto simp: envelope_ok_def env_held_def notes_for_fresh notes_for_def[of n None])

lemma cell_held_fresh: "cell_inv R queued bound n a out dat mon c \<Longrightarrow> a < n \<Longrightarrow> cell_held queued a c n = 0"
  by (fastforce simp: cell_inv_def cell_held_def env_held_fresh monitors_ok_def hm_total_def sum_list_eq_0_iff
      dest: notes_for_fresh)

lemma note_ok_grow: "note_ok n obs nt \<Longrightarrow> note_ok (Suc n) obs nt"
  by (auto simp: note_ok_def split: process_ref.splits)

lemma envelope_ok_grow: "envelope_ok n a mb e \<Longrightarrow> envelope_ok (Suc n) a mb e"
  by (cases "env_signal e") (auto simp: envelope_ok_def note_ok_grow)

lemma cell_inv_grow: "cell_inv R queued bound n a out dat mon c \<Longrightarrow> cell_inv R queued bound (Suc n) a out dat mon c"
  by (auto simp: cell_inv_def monitors_ok_def envelope_ok_grow intro: note_ok_grow)

lemma pop_addr: "pop S ts wk mb = (r, mb') \<Longrightarrow> admission_addr mb' = admission_addr mb"
  by (auto simp: pop_def pop_search_def poll_def Let_def restore_found_def drop_permit_def
      split: option.splits list.splits prod.splits)

lemma relation_signal_view:
  "signal_view (set_exit_tag k t c) = signal_view c" "signal_view (add_relation k r s c) = signal_view c"
  by (simp_all add: set_exit_tag_def add_relation_def split: option.splits)

context signal_runtime
begin

lemma link_pair_signal_frame: "link_pair R l ltag r rtag w = (res, w') \<Longrightarrow> signal_frame w w'"
  by (erule link_pair_cases) (simp_all add: signal_frame_def record_link_created_def relation_signal_view)

lemma spawn_quiet:
  assumes q: "quiet_inv R queued bound w" and sp: "mailboxes_with_limits R cap mcap mbytes mres w = Some (a, w')"
  shows "quiet_inv R queued bound w'"
proof -
  let ?n = "next_cell w"
  obtain c where c: "signal_mailbox_with_limits R cap (mailbox_with_limits (rt_sem R) ?n mcap mbytes mres) mbytes mres = Some c"
    and w': "w' = w\<lparr>cells := (cells w)(?n := c), next_cell := Suc ?n\<rparr>"
    using sp by (auto simp: mailboxes_with_limits_def Let_def split: option.splits)
  have q': "cell_inv R queued bound ?n x (outstanding queued w x) 0 0 (cells w x)" if "x < ?n" for x
    using q that by (auto simp: quiet_inv_def signals_inv_def)
  have new: "cell_held queued ?n c b = 0" for b
    using c by (auto simp: signal_mailbox_with_limits_def cell_held_def hm_total_def split: if_splits)
  have o: "outstanding queued w' b = outstanding queued w b" for b
    by (simp add: outstanding_def w' new)
  have o0: "outstanding queued w ?n = 0"
    using cell_held_fresh[OF q'] by (simp add: outstanding_def)
  have "cell_inv R queued bound (Suc ?n) ?n 0 0 0 c"
    using c sem.mailbox_with_limits_inv[of ?n mcap mbytes mres]
    by (auto simp: signal_mailbox_with_limits_def cell_inv_def monitors_ok_def count_true_def
        mailbox_with_limits_def split: if_splits)
  then show ?thesis
    using cell_inv_grow[OF q'] by (auto simp: quiet_inv_def signals_inv_def o) (auto simp: w' o0 less_Suc_eq)
qed

lemma receive_ok:
  assumes inv: "process_inv R queued bound w" and a: "a < next_cell w" and r: "receive R a ts wk w = (res, w')"
  shows "process_inv R queued bound w'"
proof -
  obtain mb where p: "pop (rt_sem R) ts wk (c_mailbox (cells w a)) = (res, mb)"
    and w': "w' = upd_cell a (\<lambda>c. c\<lparr>c_mailbox := mb\<rparr>) w"
    using r by (auto simp: receive_def split: prod.splits)
  have "quiet_inv R queued bound w'"
    unfolding quiet_inv_def w'
    by (rule inv_mailbox[where ex = none_held])
      (use inv a sem.pop_inv[OF _ p] recv_frame(1)[OF p] pop_addr[OF p] in \<open>auto simp: process_inv_def quiet_inv_def\<close>)
  moreover have "links_inv R (idle_links w')"
    by (rule idle_links_frame[where w = w]) (use inv in \<open>auto simp: process_inv_def w'\<close>)
  ultimately show ?thesis by (simp add: process_inv_def)
qed

lemma process_send_ok:
  assumes inv: "process_inv R queued bound w" and p: "ref_in (next_cell w) p" and o: "observer_in (next_cell w) sg"
    and s: "process_send R p sg w = (res, w')"
  shows "process_inv R queued bound w'"
proof (cases p)
  case (BuiltIn i a)
  then have "send_inner R a sg (Some i) w = (res, w')" "a < next_cell w"
    using s p by (auto simp: send_to_process_def ref_in_def)
  then show ?thesis
    using inv o send_inner_inv(1) send_inner_frame idle_links_frame unfolding process_inv_def quiet_inv_def by blast
next
  case (Custom i)
  then have w': "w' = w\<lparr>custom_calls := custom_calls w @ [(i, sg)]\<rparr>" using s by simp
  have "links_inv R (idle_links w')"
    by (rule idle_links_frame[where w = w]) (use inv in \<open>auto simp: process_inv_def w' link_frame_def\<close>)
  then show ?thesis using inv by (simp add: process_inv_def quiet_inv_def w')
qed

lemma idle_links_simps [simp]: "lm_world (idle_links w) = w" "(idle_links w)\<lparr>lm_world := w'\<rparr> = idle_links w'"
  by (simp_all add: idle_links_def)

lemma process_inv_start: "process_start w \<Longrightarrow> process_inv R queued bound w"
  by (simp add: process_inv_def quiet_inv_def signals_inv_def process_start_def idle_links_def
      links_inv_start link_start_def)

theorem process_inv_step:
  assumes inv: "process_inv R queued bound w" and st: "process_step R w w'"
  shows "process_inv R queued bound w'"
proof -
  have q: "quiet_inv R queued bound w" and l: "links_inv R (idle_links w)" using inv by (auto simp: process_inv_def)
  from st show ?thesis
  proof cases
    case (ps_spawn cap mcap mbytes mres a)
    then show ?thesis
      using spawn_quiet[OF q] links_inv_spawn[OF l, of cap mcap mbytes mres a w'] by (simp add: process_inv_def)
  next
    case (ps_handle a i res)
    then have "signal_frame w w'" by (auto simp: lifecycle_handle_def split: if_splits option.splits)
    then show ?thesis
      using ps_handle quiet_frame[OF q] links_inv_handle[OF l, of a i res w'] by (simp add: process_inv_def)
  next
    case (ps_link h1 h2 t1 t2 res)
    then show ?thesis
      using quiet_frame[OF q link_pair_signal_frame] links_inv_link[OF l, of h1 h2 t1 t2 res w']
      by (simp add: process_inv_def)
  next
    case (ps_unlink h k res)
    then have "signal_frame w w'" using unlink_peer_signal_frame[of w R h k] by simp
    then show ?thesis using ps_unlink quiet_frame[OF q] unlink_peer_links[OF l] by (simp add: process_inv_def)
  next
    case ps_send
    then show ?thesis using process_send_ok[OF inv] by blast
  next
    case ps_receive
    then show ?thesis using receive_ok[OF inv] by blast
  next
    case (ps_round h guest hs fin sg hs')
    then show ?thesis using loop_round_ok[OF inv, of h guest hs] by auto
  next
    case (ps_finish h f)
    then show ?thesis using finish_process_ok[OF inv ps_finish(1) refl, of f] by auto
  qed
qed

end

sublocale signal_runtime < processes: inductive_invariant process_start "process_step R" "process_inv R queued bound"
  by unfold_locales (rule process_inv_start process_inv_step; assumption)+

context signal_runtime
begin

lemma reachable_process_inv: "reachable process_start (process_step R) w \<Longrightarrow> process_inv R queued bound w"
  by (rule processes.reachable_inv)

lemma reachable_cell_inv:
  "reachable process_start (process_step R) w \<Longrightarrow> a < next_cell w \<Longrightarrow>
     cell_inv R queued bound (next_cell w) a (outstanding queued w a) 0 0 (cells w a)"
  using reachable_process_inv signals_invD by (fastforce simp: process_inv_def quiet_inv_def)

lemma plain_control_sent:
  assumes "plain_control sg" "c_death (cells w a) = None" "\<not> ch_is_closed (rt_chan R) (c_chan (cells w a))"
    "length (queued (c_chan (cells w a))) < bound (c_chan (cells w a))"
  shows "\<exists>w'. send_inner R a sg target w = (Inr (), w') \<and>
    queued (c_chan (cells w' a)) = queued (c_chan (cells w a)) @ [control sg]"
proof -
  obtain q where "ch_try_send (rt_chan R) (c_chan (cells w a)) (control sg) = Inr q"
    "queued q = queued (c_chan (cells w a)) @ [control sg]"
    using chan.send_ok[OF assms(3,4)] by blast
  then show ?thesis
    using assms(1-3)
    by (cases sg; cases target)
      (auto simp: send_inner_def send_with_def message_limit_error_def admit_def or_drop_def admit_mailbox_def
        admit_data_def admit_monitor_permit_def admit_notification_def enqueue_def reserves_mailbox_capacity_def)
qed

end

section \<open>What holds in every run\<close>

text \<open>
  C6. A round of a process's execution loop never panics.  Whatever was spawned, sent, linked, received
  and ended before, a signal that becomes a message carries a slot of the loop's own mailbox and fits its
  limits, so the pushes that the code expects to succeed do succeed.
\<close>

theorem loop_round_never_panics:
  assumes "signal_runtime R queued bound" "reachable process_start (process_step R) w" "handle_ok w h"
  shows "loop_round R h guest (has_sender, w) \<noteq> None"
  using signal_runtime.loop_round_ok[OF assms(1) signal_runtime.reachable_process_inv[OF assms(1,2)] assms(3)]
  by fastforce

text \<open>
  C5. The end of a process returns, and it tells each of its monitors exactly once.  The monitors are
  those installed and those whose requests are still queued when the process ends.  The mailbox of every
  built-in observer grows by one notice per relation, none is lost to a full mailbox, and no other mailbox
  changes; observers from outside get one call each.
\<close>

theorem shutdown_tells_each_monitor_once:
  assumes "signal_runtime R queued bound" "reachable process_start (process_step R) w" "handle_ok w h"
  shows "\<exists>w'. finish_process R h f w = Some w' \<and>
    mail w' = (\<lambda>b. mail w b @ replicate (observers_at b (final_monitors queued (cells w (lh_addr h))))
      (ProcessDied (lh_id h) (death_of f))) \<and>
    custom_calls w' = custom_calls w @
      custom_notices (SigProcessDied (lh_id h) (death_of f)) (final_monitors queued (cells w (lh_addr h)))"
  using signal_runtime.finish_process_ok[OF assms(1) signal_runtime.reachable_process_inv[OF assms(1,2)] assms(3) refl]
  by blast

text \<open>
  C9. The slots of a mailbox are conserved in every run: those that are free, those that hold a message
  and those promised to queued signals and to monitor relations anywhere add up to its capacity.  Queued
  signals and monitor relations stay within the signal capacity.
\<close>

theorem process_slots_conserved:
  assumes "signal_runtime R queued bound" "reachable process_start (process_step R) w" "a < next_cell w"
  shows "mailbox_available_capacity (rt_sem R) (c_mailbox (cells w a)) + mailbox_len (c_mailbox (cells w a)) +
      outstanding queued w a = mb_capacity (c_mailbox (cells w a)) \<and>
    length (queued (c_chan (cells w a))) \<le> c_capacity (cells w a) \<and>
    length (t_monitors (cells w a)) \<le> c_capacity (cells w a)"
  using signal_runtime.reachable_cell_inv[OF assms] by (simp add: cell_inv_def mailbox_inv_def mailbox_available_capacity_def)

text \<open>
  C11. Messages never shut out control signals: when only messages wait in the signal queue of a live
  process with capacity for two signals or more, a control signal is accepted and queued behind them.
\<close>

theorem messages_leave_room_for_control:
  assumes "signal_runtime R queued bound" "reachable process_start (process_step R) w" "a < next_cell w"
    "2 \<le> c_capacity (cells w a)" "c_death (cells w a) = None" "\<not> ch_is_closed (rt_chan R) (c_chan (cells w a))"
    "\<forall>e \<in> set (queued (c_chan (cells w a))). reserves_mailbox_capacity (env_signal e)" "plain_control sg"
  shows "\<exists>w'. process_send R (BuiltIn i a) sg w = (Inr (), w') \<and>
    queued (c_chan (cells w' a)) = queued (c_chan (cells w a)) @ [control sg]"
proof -
  note c = signal_runtime.reachable_cell_inv[OF assms(1-3), unfolded cell_inv_def]
  have "\<forall>e \<in> set (queued (c_chan (cells w a))). env_data_permit e" using c assms(7) by (auto simp: envelope_ok_def)
  then have "count_true env_data_permit (queued (c_chan (cells w a))) = length (queued (c_chan (cells w a)))"
    by (simp add: count_true_def)
  then have "length (queued (c_chan (cells w a))) \<le> data_capacity (c_capacity (cells w a))" using c by linarith
  then have "length (queued (c_chan (cells w a))) < bound (c_chan (cells w a))"
    using c assms(4) by (simp add: data_capacity_def)
  from signal_runtime.plain_control_sent[OF assms(1,8,5,6) this] show ?thesis
    by (simp add: send_to_process_def)
qed

text \<open>
  C10. A refused signal leaves no trace: the caller gets its signal back with the error, and no slot, no
  permit and no place in a queue stays taken.
\<close>

theorem refused_send_leaves_no_trace:
  assumes "signal_runtime R queued bound" "process_send R p sg w = (Inl err, w')"
  shows "w' = w \<and> send_error_signal err = sg"
proof (cases p)
  case (BuiltIn i a)
  then show ?thesis
    using assms(2) signal_runtime.send_with_answer[OF assms(1), of a sg "Some i" w "send_died R"]
    by (simp add: send_to_process_def send_inner_def answered_def refused_def)
qed (use assms(2) in simp)

section \<open>A run\<close>

text \<open>
  Process 9 asks to monitor process 7, and a death notice of process 5 is on its way to process 9.
\<close>

definition watching :: "(usize, envelope list_channel) world" where
  "watching = snd (process_send list_rt (BuiltIn 7 0) (SigMonitor (BuiltIn 9 1) None) two_processes)"

definition monitored :: "(usize, envelope list_channel) world" where
  "monitored = snd (process_send list_rt (BuiltIn 9 1) (SigProcessDied 5 Normal) watching)"

lemmas send_defs = send_to_process_def send_inner_def send_with_def message_limit_error_def
  admit_def or_drop_def admit_mailbox_def admit_data_def admit_monitor_permit_def admit_notification_def
  enqueue_def reserves_mailbox_capacity_def reserve_monitor_notification_def try_reserve_def Let_def

lemma two_processes_cell:
  "cells two_processes 0 = sample_cell\<lparr>c_id := Some 7\<rparr>"
  "cells two_processes 1 = sample_cell\<lparr>c_id := Some 9, c_mailbox := mailbox_with_limits counting_semaphore 1 4 64 4\<rparr>"
  by (simp_all add: sample_defs)

lemmas sample_cell_fields = sample_cell_def mailbox_with_limits_def counting_semaphore_def

text \<open>The cells after each of the two steps; the mailbox at address 1 ends with both of its slots reserved.\<close>

lemma watching_cells:
  "cells watching 0 = sample_cell\<lparr>c_id := Some 7, c_mon := 3, c_chan := \<lparr>lc_items =
     [(control (SigMonitor (BuiltIn 9 1) None))\<lparr>env_monitor_permit := True,
        env_notification := Some \<lparr>mn_addr = 1, mn_permit = \<lparr>permit_semaphore = 1\<rparr>\<rparr>\<rparr>],
     lc_bound = 4, lc_closed = False\<rparr>\<rparr>"
  "cells watching 1 = sample_cell\<lparr>c_id := Some 9,
     c_mailbox := (mailbox_with_limits counting_semaphore 1 4 64 4)\<lparr>admission := 3\<rparr>\<rparr>"
  "next_cell watching = 2"
  unfolding watching_def
  by (simp_all add: send_defs two_processes_cell two_processes_cells list_rt_def list_channel_ops_def sample_cell_fields
      del: One_nat_def)

lemma monitored_cells:
  "cells monitored 0 = cells watching 0"
  "cells monitored 1 = sample_cell\<lparr>c_id := Some 9, c_data := 2,
     c_mailbox := (mailbox_with_limits counting_semaphore 1 4 64 4)\<lparr>admission := 2\<rparr>, c_chan := \<lparr>lc_items =
     [(control (SigProcessDied 5 Normal))\<lparr>env_mailbox_permit := Some \<lparr>permit_semaphore = 1\<rparr>, env_data_permit := True\<rparr>],
     lc_bound = 4, lc_closed = False\<rparr>\<rparr>"
  "next_cell monitored = 2"
  unfolding monitored_def
  by (simp_all add: send_defs watching_cells(2,3) list_rt_def list_channel_ops_def sample_cell_fields
      del: One_nat_def)

lemma spawned_process:
  "reachable process_start (process_step list_rt) w \<Longrightarrow> reachable process_start (process_step list_rt) (spawned w)"
  by (erule reach_step, rule ps_spawn[of list_rt 4 4 64 4 _ "next_cell w"])
    (simp add: spawned_def mailboxes_with_limits_def signal_mailbox_with_limits_def Let_def)

lemma handle_process:
  "reachable process_start (process_step list_rt) w \<Longrightarrow> a < next_cell w \<Longrightarrow>
     reachable process_start (process_step list_rt) (snd (lifecycle_handle a i w))"
  by (erule reach_step, rule ps_handle[of a w i "fst (lifecycle_handle a i w)"]) simp_all

lemma send_process:
  "reachable process_start (process_step list_rt) w \<Longrightarrow> ref_in (next_cell w) p \<Longrightarrow> observer_in (next_cell w) sg \<Longrightarrow>
     reachable process_start (process_step list_rt) (snd (process_send list_rt p sg w))"
  by (erule reach_step, rule ps_send[of w p sg list_rt "fst (process_send list_rt p sg w)"]) simp_all

lemma monitored_reachable: "reachable process_start (process_step list_rt) monitored"
proof -
  have "reachable process_start (process_step list_rt) empty_world"
    by (rule reach_start) (simp add: process_start_def empty_world_def)
  then have "reachable process_start (process_step list_rt) (spawned (spawned empty_world))"
    by (intro spawned_process)
  then have "reachable process_start (process_step list_rt) two_processes"
    unfolding two_processes_def by (intro handle_process) (simp_all add: sample_defs)
  then have "reachable process_start (process_step list_rt) watching"
    unfolding watching_def by (rule send_process) (simp_all add: two_processes_cells ref_in_def observer_in_def)
  then show ?thesis
    unfolding monitored_def by (rule send_process) (simp_all add: watching_cells ref_in_def observer_in_def)
qed

lemma monitored_handle: "handle_ok monitored \<lparr>lh_id = 7, lh_addr = 0\<rparr>"
  by (simp add: handle_ok_def monitored_cells watching_cells sample_cell_def)

lemmas monitored_run = list_runtime.signal_runtime_axioms monitored_reachable

theorem loop_round_never_panics_witness:
  "loop_round list_rt \<lparr>lh_id = 7, lh_addr = 0\<rparr> None (True, monitored) \<noteq> None"
  by (rule loop_round_never_panics[OF monitored_run monitored_handle])

theorem shutdown_tells_each_monitor_once_witness:
  "\<exists>w'. finish_process list_rt \<lparr>lh_id = 7, lh_addr = 0\<rparr> FinishedPanicked monitored = Some w' \<and>
    mail w' 1 = [ProcessDied 7 Failure]"
proof -
  have "mail monitored 1 = []" "observers_at 1 (final_monitors lc_items (cells monitored 0)) = 1"
    by (simp_all add: mail_def mb_view_def final_monitors_def observers_at_def monitored_cells watching_cells
        sample_cell_def mailbox_with_limits_def hm_insert_def restore_found_def del: One_nat_def)
  moreover have "replicate 1 d = [d]" for d :: message by simp
  ultimately show ?thesis
    using shutdown_tells_each_monitor_once[OF monitored_run monitored_handle, of FinishedPanicked]
    by (auto simp: death_of_def simp del: One_nat_def)
qed

theorem process_slots_conserved_witness:
  "1 < next_cell monitored \<and> outstanding lc_items monitored 1 = 2"
  using process_slots_conserved[OF monitored_run, of 1]
  by (simp add: monitored_cells sample_cell_fields list_rt_def mailbox_available_capacity_def mailbox_len_def
      del: One_nat_def)

theorem messages_leave_room_for_control_witness:
  "\<exists>w'. process_send list_rt (BuiltIn 9 1) (SigStopMonitoring 3) monitored = (Inr (), w') \<and>
    length (lc_items (c_chan (cells w' 1))) = 2"
  using messages_leave_room_for_control[OF monitored_run, of 1 "SigStopMonitoring 3" 9]
  by (auto simp: monitored_cells sample_cell_def list_rt_def list_channel_ops_def reserves_mailbox_capacity_def
      simp del: One_nat_def)

text \<open>With no slot left at address 1, its request to monitor gives the monitor permit back.\<close>

definition crowded :: "(usize, envelope list_channel) world" where
  "crowded = upd_cell 1 (\<lambda>c. c\<lparr>c_mailbox := (c_mailbox c)\<lparr>admission := 0\<rparr>\<rparr>) monitored"

theorem refused_send_leaves_no_trace_witness:
  "\<exists>w'. process_send list_rt (BuiltIn 7 0) (SigMonitor (BuiltIn 9 1) None) crowded =
       (Inl (SendMailboxFull (SigMonitor (BuiltIn 9 1) None)), w') \<and>
     c_mon (cells w' 0) = 3"
proof -
  let ?r = "process_send list_rt (BuiltIn 7 0) (SigMonitor (BuiltIn 9 1) None) crowded"
  have r: "?r = (Inl (SendMailboxFull (SigMonitor (BuiltIn 9 1) None)), snd ?r)"
    by (simp add: prod_eq_iff crowded_def send_defs monitored_cells watching_cells(1) list_rt_def list_channel_ops_def
        sample_cell_fields del: One_nat_def)
  have "c_mon (cells crowded 0) = 3" by (simp add: crowded_def monitored_cells watching_cells(1))
  then show ?thesis
    using r refused_send_leaves_no_trace[OF list_runtime.signal_runtime_axioms r] by auto
qed

end
