(* ===== verification/Spec2Isabelle.thy ===== *)
theory Spec2Isabelle
  imports Hash_Map_Id Mailbox_Queue Dist_Registry Env_Concurrency Module_Registry Module_Cache Reload_Coordinator Supervision
    Process_System
begin

text \<open>
  \<^bold>\<open>Verification of the lunatic runtime.\<close>

  Lunatic runs WebAssembly instances as isolated processes in the style of Erlang.  A node holds environments,
  an environment holds processes, and a process has a mailbox, tables of resources and an instance of a
  compiled module.  Processes send each other signals, link to and monitor each other.  Modules have versions and can be replaced while processes run.  Supervisors restart
  processes, and a distributed registry names processes across nodes.  The library models these parts as
  functions on records and sums, one theory per part, and proves what makes each of them correct.

  \<^bold>\<open>Conventions.\<close>  Rust integers are words of their width; \<open>usize\<close> is \<open>nat\<close> with checked operations.  A \<open>HashMap\<close> or
  \<open>DashMap\<close> is an association list with the operations \<open>hm_get\<close>, \<open>hm_insert\<close> and \<open>hm_remove\<close>.  A \<open>Result\<close> is a sum with
  the error on the left, and a panic, a failing \<open>expect\<close> or a loop that does not return is \<open>None\<close>.  Shared mutable
  state is threaded explicitly; where several tasks interleave, each atomic access is a step.  Code outside the
  repository (the tokio semaphore, the wasmtime engine, clocks, delivery of signals, start functions) is a
  parameter, with what is relied on as a locale or a named hypothesis.

  \<^bold>\<open>The theories.\<close>

  \<^item> \<open>Prelude\<close>: words, association lists, results, runs of operations, reachability with the locale
    \<open>inductive_invariant\<close>, and simulation between machines.

  \<^item> \<open>Hash_Map_Id\<close> (\<open>crates/hash-map-id/src/lib.rs\<close>): resource tables.  Ids are fresh and stable until the seed wraps.

  \<^item> \<open>Runtime_Contracts\<close>, \<open>Message\<close>, \<open>Mailbox\<close>, \<open>Mailbox_Queue\<close> (\<open>crates/lunatic-process/src/message.rs\<close>, \<open>mailbox.rs\<close>):
    messages with a cursor and resource slots, the bounded mailbox with reservations, selective receive, a
    waker and a parked message.  The mailbox refines a bounded queue with selective receive; slots are
    conserved; a registered receiver is woken.  The race between the search of \<open>pop\<close> and its first poll is a
    theorem too.

  \<^item> \<open>Signals\<close> (\<open>crates/lunatic-process/src/state.rs\<close>): the signal ingress of a process.  The world is a store of
    cells, one per process, with the sender's and receiver's shared state; an address stands for the \<open>Arc\<close>s.
    \<open>send_inner\<close> is its admission steps in order, each with the permits it takes and gives back.  The locale
    \<open>signal_runtime\<close> joins the contracts of the semaphore and of the bounded channel.  A send is either
    refused, with the world as it was, or one of the seven cases of the relation \<open>sent\<close>.

  \<^item> \<open>Links\<close> (\<open>state.rs\<close>, \<open>lib.rs\<close>): bilateral links with tokens, permits and the gauge.  Each critical section is a
    step of \<open>link_step\<close>, so terminations, drops and unlinks interleave; \<open>finish_by_steps\<close> shows that the steps of
    one termination compose to the loops of the source.  Links stay bilateral, and a failure reaches every
    peer by a signal or by its kill latch.

  \<^item> \<open>Process_Loop\<close> (\<open>lib.rs\<close>, \<open>run_native_process\<close> and \<open>new\<close>): what the loops do with each signal, reload signals, the
    shutdown of the ingress and the notices to monitors.  \<open>drain_ingress\<close> is a partial function, shown to
    return.

  \<^item> \<open>Signal_Accounting\<close>, \<open>Process_System\<close>: the balance of all permits and reserved slots over all cells, and the
    machine of all these operations.  In every reachable world a round of the loop does not panic, slots
    are conserved, messages leave room for control signals, and the end of a process returns and tells each
    monitor exactly once.

  \<^item> \<open>Dist_Registry\<close> (\<open>crates/lunatic-distributed/src/distributed/registry.rs\<close>, \<open>global_process.rs\<close>): local and global names with
    leases, tombstones, the reverse index, limits, snapshots and the compact process id.  No accounting
    panics, the reverse index is exact, snapshots round trip.

  \<^item> \<open>Environment\<close>, \<open>Env_Concurrency\<close> (\<open>crates/lunatic-process/src/env.rs\<close>): admission with both limits, process ids,
    registration guards, and the weak environment registry with generations.  Counters are exact in every
    reachable state, also under interleavings of the atomic accesses.

  \<^item> \<open>Module_Registry\<close> (\<open>module_registry.rs\<close>): versions of modules, the processes on each version, retention, and
    the reload order along dependencies.  \<open>visit_depth\<close> is the fuel of the depth-first visit, one more than the
    modules that occur; the visit is shown to return with it for every registry.

  \<^item> \<open>Module_Cache\<close>, \<open>Wasm_Instance\<close> (\<open>runtimes/mod.rs\<close>, \<open>runtimes/wasmtime.rs\<close>, \<open>instance_pool.rs\<close>): the compilation budget
    with its reference counts, the module cache, instances with memory and fuel, snapshots, and the
    instance pool.

  \<^item> \<open>Process_Reload\<close> (\<open>signature_validation.rs\<close>, \<open>lib.rs\<close>, \<open>wasm.rs\<close>, parts of \<open>hot_reload.rs\<close>): signature checks, the atomic
    swap of an instance, version tracking, and the execution driver that serves reload commands.

  \<^item> \<open>Reload_Coordinator\<close> (\<open>hot_reload.rs\<close>, \<open>src/hot_reload/mod.rs\<close>): the acknowledged reload of all processes of a module
    with rollback and the in-doubt state, the reload along dependencies, and the module update with its
    audit record, on top of the module registry.

  \<^item> \<open>Supervisor\<close>, \<open>Supervision\<close> (\<open>crates/lunatic-otp-patterns/src/supervisor.rs\<close>): specifications, children, strategies,
    restart intensity, shutdown, the loop and the guard of the supervisor process; the locale
    \<open>child_runtime\<close> is interpreted on the environment model.  The wait for a process is a partial function; it is
    shown to return when the shutdown time is finite.

  \<^bold>\<open>Not modelled.\<close>  Host functions over guest memory (the \<open>*-api\<close> crates), networking, QUIC, TLS, WASI and SQLite
  bindings, HTTP control servers and the command line are input and output over third-party libraries.
  Logging, metrics other than the links gauge, and load times of versions are left out of the models.  In the
  machine of \<open>Process_System\<close> a send is one step; the race of a send with the closing of its queue between two
  accesses is covered only as far as the branch for a closed queue of \<open>enqueue\<close>.  The future of a guest is a parameter of the
  loops.  The checks on registry names in \<open>state.rs\<close>, the distributed client and server, registry coordination, congestion control, and the
  \<open>gen_server\<close>, \<open>gen_event\<close> and \<open>gen_statem\<close> patterns are not modelled.
\<close>

end
